(* ===== verification/Prelude.thy ===== *)
theory Prelude
  imports Main "HOL-Library.Word" "HOL-Library.AList" "HOL-Library.List_Lexorder"
begin

text \<open>
  Shared vocabulary of the development: the types that stand for Rust's \<open>String\<close>,
  \<open>Result\<close> and \<open>[u8; 32]\<close>, the named theorem collections the component theories feed,
  and generic lemmas on lists, options and association lists (the model of the keyed
  SQLite tables) that several components use.

  A Rust \<open>char\<close> is a Unicode scalar value, so a string is a list of code points; lengths
  that the code takes in bytes go through \<open>utf8_len\<close> (theory \<open>RustStr\<close>).
  \<open>Result<T, E>\<close> is the sum type \<open>'e + 'a\<close>: \<open>Inl\<close> is \<open>Err\<close>, \<open>Inr\<close> is \<open>Ok\<close>.
\<close>

section \<open>Types\<close>

type_synonym uchar = nat
type_synonym ustring = "uchar list"
type_synonym byte = "8 word"

text \<open>A string literal of the source, as the list of its (ASCII) code points.\<close>

definition lit :: "string \<Rightarrow> ustring" where
  "lit s = map of_char s"

lemma lit_Nil [simp]: "lit [] = []"
  by (simp add: lit_def)

lemma lit_Cons [simp]: "lit (c # s) = of_char c # lit s"
  by (simp add: lit_def)

lemma length_lit [simp]: "length (lit s) = length s"
  by (simp add: lit_def)

section \<open>Results\<close>

text \<open>The \<open>?\<close> operator: continue with the value, or return the error early.\<close>

fun and_then :: "'e + 'a \<Rightarrow> ('a \<Rightarrow> 'e + 'b) \<Rightarrow> 'e + 'b" where
  "and_then (Inl e) f = Inl e"
| "and_then (Inr a) f = f a"

text \<open>\<open>Option::ok_or\<close> and \<open>Result::ok\<close>.\<close>

fun ok_or :: "'e \<Rightarrow> 'a option \<Rightarrow> 'e + 'a" where
  "ok_or e None = Inl e"
| "ok_or e (Some a) = Inr a"

fun result_ok :: "'e + 'a \<Rightarrow> 'a option" where
  "result_ok (Inl e) = None"
| "result_ok (Inr a) = Some a"

definition is_ok :: "'e + 'a \<Rightarrow> bool" where
  "is_ok r = (case r of Inl _ \<Rightarrow> False | Inr _ \<Rightarrow> True)"

lemma is_ok_simps [simp]: "is_ok (Inr a)" "\<not> is_ok (Inl e)"
  by (simp_all add: is_ok_def)

lemma and_then_Inr_iff: "and_then r f = Inr b \<longleftrightarrow> (\<exists>a. r = Inr a \<and> f a = Inr b)"
  by (cases r) auto

lemma and_then_InrE:
  assumes "and_then r f = Inr b"
  obtains a where "r = Inr a" "f a = Inr b"
  using assms by (cases r) auto

lemma ok_or_Inr_iff [simp]: "ok_or e x = Inr a \<longleftrightarrow> x = Some a"
  by (cases x) auto

lemma ok_or_Inl_iff [simp]: "ok_or e x = Inl e' \<longleftrightarrow> x = None \<and> e' = e"
  by (cases x) auto

section \<open>Machine arithmetic\<close>

text \<open>\<open>usize::saturating_add\<close>.\<close>

definition saturating_add_usize :: "nat \<Rightarrow> nat \<Rightarrow> nat" where
  "saturating_add_usize a b = min (a + b) (2 ^ 64 - 1)"

lemma saturating_add_le: "saturating_add_usize a b \<le> a + b"
  by (simp add: saturating_add_usize_def)

lemma saturating_add_exact: "a + b < 2 ^ 64 \<Longrightarrow> saturating_add_usize a b = a + b"
  by (simp add: saturating_add_usize_def)

section \<open>Lists\<close>

lemma takeWhile_all: "(\<And>x. x \<in> set xs \<Longrightarrow> P x) \<Longrightarrow> takeWhile P xs = xs"
  by (simp add: takeWhile_eq_all_conv)

lemma dropWhile_none: "xs \<noteq> [] \<Longrightarrow> \<not> P (hd xs) \<Longrightarrow> dropWhile P xs = xs"
  by (cases xs) auto

lemma list_all2_set1D: "list_all2 P xs ys \<Longrightarrow> x \<in> set xs \<Longrightarrow> \<exists>y\<in>set ys. P x y"
  by (induction rule: list_all2_induct) auto

lemma list_all2_set2D: "list_all2 P xs ys \<Longrightarrow> y \<in> set ys \<Longrightarrow> \<exists>x\<in>set xs. P x y"
  by (induction rule: list_all2_induct) auto

lemma append_at_sep:
  assumes "x \<notin> set xs" and "x \<notin> set ys"
  shows "xs @ x # as = ys @ x # bs \<longleftrightarrow> xs = ys \<and> as = bs"
proof
  assume eq: "xs @ x # as = ys @ x # bs"
  have "takeWhile (\<lambda>c. c \<noteq> x) (xs @ x # as) = xs" "takeWhile (\<lambda>c. c \<noteq> x) (ys @ x # bs) = ys"
    using assms by (auto simp: takeWhile_append takeWhile_all)
  with eq show "xs = ys \<and> as = bs" by simp
qed simp

section \<open>Association lists: keyed tables\<close>

text \<open>
  A table with a primary key is an association list from the key to the remaining columns,
  oldest row first; \<open>AList.update\<close> overwrites a row in place and appends a new one at the
  end, \<open>map_of\<close> is the lookup through the key.  \<open>keyed\<close> is the key constraint.
\<close>

definition keyed :: "('k \<times> 'v) list \<Rightarrow> bool" where
  "keyed t = distinct (map fst t)"

lemma keyed_Nil [simp]: "keyed []"
  by (simp add: keyed_def)

lemma keyed_update [simp]: "keyed t \<Longrightarrow> keyed (AList.update k v t)"
  by (simp add: keyed_def distinct_update)

lemma map_of_update [simp]: "map_of (AList.update k v t) = (map_of t)(k \<mapsto> v)"
  by (rule update_conv')

lemma keyed_map_of_iff: "keyed t \<Longrightarrow> map_of t k = Some v \<longleftrightarrow> (k, v) \<in> set t"
  by (auto simp: keyed_def map_of_eq_Some_iff)

lemma keyed_filter [simp]: "keyed t \<Longrightarrow> keyed (filter P t)"
  by (simp add: keyed_def distinct_map_filter)

lemma keyed_map_snd [simp]: "keyed (map (\<lambda>(k, v). (k, f k v)) t) = keyed t"
  by (simp add: keyed_def case_prod_beta comp_def)

lemma map_of_map_snd: "map_of (map (\<lambda>(k, v). (k, f k v)) t) k = map_option (f k) (map_of t k)"
  by (induction t) auto

lemma map_of_filter_keyed:
  "keyed t \<Longrightarrow> map_of (filter P t) k =
     (case map_of t k of None \<Rightarrow> None | Some v \<Rightarrow> if P (k, v) then Some v else None)"
proof (induction t)
  case (Cons kv t)
  then show ?case
    by (cases kv) (auto simp: keyed_def map_of_eq_None_iff split: option.splits dest: map_of_SomeD)
qed simp

lemma map_of_snd: "map_of t k = Some i \<Longrightarrow> i \<in> snd ` set t"
  by (auto dest!: map_of_SomeD intro: rev_image_eqI)

section \<open>Maps to vectors\<close>

definition get_vec :: "('k \<times> 'v list) list \<Rightarrow> 'k \<Rightarrow> 'v list" where
  "get_vec m k = (case map_of m k of None \<Rightarrow> [] | Some v \<Rightarrow> v)"

text \<open>\<open>map.entry(k).or_default().push(v)\<close>.\<close>

definition push_entry :: "'k \<Rightarrow> 'v \<Rightarrow> ('k \<times> 'v list) list \<Rightarrow> ('k \<times> 'v list) list" where
  "push_entry k v m = AList.update k (get_vec m k @ [v]) m"

lemma get_vec_push: "get_vec (push_entry k v m) k' = (if k' = k then get_vec m k @ [v] else get_vec m k')"
  by (simp add: push_entry_def get_vec_def)

lemma get_vec_Nil [simp]: "get_vec [] k = []"
  by (simp add: get_vec_def)

lemma get_vec_keyed: "keyed m \<Longrightarrow> x \<in> set (get_vec m k) \<longleftrightarrow> (\<exists>v. (k, v) \<in> set m \<and> x \<in> set v)"
  by (cases "map_of m k") (simp_all add: get_vec_def keyed_map_of_iff [symmetric])

lemma map_filter_mem: "y \<in> set (List.map_filter f xs) \<longleftrightarrow> (\<exists>x\<in>set xs. f x = Some y)"
  by (induction xs) (auto simp: List.map_filter_simps split: option.split)

end
