(* ===== verification/ChangeFeed.thy ===== *)
theory ChangeFeed
  imports Prelude
begin

text \<open>
  The two contracts the store's tables keep.

  \<open>interner\<close>: a table that gives every key one id, never changes an id and never gives one id
  to two keys (\<open>repo_hashes\<close> and \<open>repo_tags\<close>).

  \<open>change_feed\<close>: a keyed table whose rows carry a sequence number, changed only in ways that
  keep every key and give each changed row a number above the old high-watermark (the tables
  \<open>repo_mappings\<close> and \<open>relations\<close>).  From it follows what a \<open>since\<close> cursor relies on: the rows
  above the cursor, laid over the view at the cursor, are the current view.
\<close>

section \<open>Sequence numbers\<close>

text \<open>\<open>SELECT COALESCE(MAX(seq), 0)\<close>.\<close>

definition coalesce_max :: "int list \<Rightarrow> int" where
  "coalesce_max xs = (if xs = [] then 0 else Max (set xs))"

definition max_seq :: "('r \<Rightarrow> int) \<Rightarrow> ('k \<times> 'r) list \<Rightarrow> int" where
  "max_seq seq_of t = coalesce_max (map (\<lambda>kr. seq_of (snd kr)) t)"

lemma max_seq_ge: "map_of t k = Some r \<Longrightarrow> seq_of r \<le> max_seq seq_of t"
  by (auto simp: max_seq_def coalesce_max_def dest!: map_of_SomeD intro!: Max_ge image_eqI)

lemma max_seq_in: "t \<noteq> [] \<Longrightarrow> \<exists>k r. (k, r) \<in> set t \<and> max_seq seq_of t = seq_of r"
proof -
  assume t: "t \<noteq> []"
  then have "max_seq seq_of t \<in> set (map (\<lambda>kr. seq_of (snd kr)) t)"
    unfolding max_seq_def coalesce_max_def by (auto intro!: Max_in)
  then obtain kr where "kr \<in> set t" "max_seq seq_of t = seq_of (snd kr)" by auto
  then show ?thesis by (intro exI [of _ "fst kr"] exI [of _ "snd kr"]) simp
qed

text \<open>
  One table has become another: every key is still there, and every row is an old row or has
  a number above the old high-watermark.  Numbers are positive and no two rows share one.
\<close>

definition seqs_pos :: "('r \<Rightarrow> int) \<Rightarrow> ('k \<times> 'r) list \<Rightarrow> bool" where
  "seqs_pos seq_of t \<longleftrightarrow> keyed t \<and> (\<forall>k r. map_of t k = Some r \<longrightarrow> 0 < seq_of r) \<and>
     (\<forall>k k' r r'. map_of t k = Some r \<longrightarrow> map_of t k' = Some r' \<longrightarrow> seq_of r = seq_of r' \<longrightarrow> k = k')"

definition advances :: "('r \<Rightarrow> int) \<Rightarrow> ('k \<times> 'r) list \<Rightarrow> ('k \<times> 'r) list \<Rightarrow> bool" where
  "advances seq_of t t' \<longleftrightarrow> seqs_pos seq_of t' \<and>
     (\<forall>k. map_of t k \<noteq> None \<longrightarrow> map_of t' k \<noteq> None) \<and>
     (\<forall>k r. map_of t' k = Some r \<longrightarrow> map_of t k = Some r \<or> max_seq seq_of t < seq_of r)"

lemma max_seq_nonneg: "seqs_pos seq_of t \<Longrightarrow> 0 \<le> max_seq seq_of t"
  using max_seq_in [of t seq_of]
  by (cases "t = []") (auto simp: seqs_pos_def keyed_map_of_iff max_seq_def coalesce_max_def intro: less_imp_le)

lemma advances_refl [simp]: "seqs_pos seq_of t \<Longrightarrow> advances seq_of t t"
  by (simp add: advances_def)

lemma advances_mono:
  assumes "seqs_pos seq_of t" "advances seq_of t t'"
  shows "max_seq seq_of t \<le> max_seq seq_of t'"
proof (cases "t = []")
  case True
  then show ?thesis using assms(2) max_seq_nonneg [of seq_of t']
    by (simp add: advances_def max_seq_def coalesce_max_def)
next
  case False
  then obtain k r where k: "(k, r) \<in> set t" "max_seq seq_of t = seq_of r" using max_seq_in by blast
  then have "map_of t k = Some r" using assms(1) by (simp add: seqs_pos_def keyed_map_of_iff)
  then obtain r' where r': "map_of t' k = Some r'" using assms(2) by (auto simp: advances_def)
  have "r' = r \<or> max_seq seq_of t < seq_of r'"
    using assms(2) r' \<open>map_of t k = Some r\<close> unfolding advances_def by (metis option.inject)
  then show ?thesis using max_seq_ge [OF r', of seq_of] k(2) by auto
qed

lemma advances_trans:
  assumes "seqs_pos seq_of t" "advances seq_of t t'" "advances seq_of t' t''"
  shows "advances seq_of t t''"
  using assms(2,3) advances_mono [OF assms(1,2)] unfolding advances_def by (metis order.strict_trans1)

lemma advances_update:
  assumes "seqs_pos seq_of t" "max_seq seq_of t < seq_of r"
  shows "advances seq_of t (AList.update k r t)"
proof -
  have lt: "seq_of r' < seq_of r" if "map_of t k' = Some r'" for k' r'
    using max_seq_ge [OF that, of seq_of] assms(2) by simp
  have "seqs_pos seq_of (AList.update k r t)"
    unfolding seqs_pos_def
  proof (intro conjI allI impI)
    show "keyed (AList.update k r t)" using assms(1) by (simp add: seqs_pos_def)
    show "0 < seq_of r'" if "map_of (AList.update k r t) k' = Some r'" for k' r'
      using that assms max_seq_nonneg [OF assms(1)] by (auto simp: seqs_pos_def split: if_splits)
    show "k1 = k2" if u: "map_of (AList.update k r t) k1 = Some r1" "map_of (AList.update k r t) k2 = Some r2"
      and eq: "seq_of r1 = seq_of r2" for k1 k2 r1 r2
    proof (cases "k1 = k \<or> k2 = k")
      case True
      show ?thesis
      proof (rule ccontr)
        assume "k1 \<noteq> k2"
        then consider "r1 = r" "map_of t k2 = Some r2" | "r2 = r" "map_of t k1 = Some r1"
          using True u by (cases "k1 = k") auto
        then show False using lt eq by cases fastforce+
      qed
    next
      case False
      then have "map_of t k1 = Some r1" "map_of t k2 = Some r2" using u by auto
      then show ?thesis using assms(1) eq unfolding seqs_pos_def by blast
    qed
  qed
  then show ?thesis using assms(2) by (simp add: advances_def)
qed

lemma max_seq_update:
  assumes "seqs_pos seq_of t" "max_seq seq_of t < seq_of r"
  shows "max_seq seq_of (AList.update k r t) = seq_of r"
proof (rule antisym)
  let ?t = "AList.update k r t"
  have adv: "advances seq_of t ?t" by (rule advances_update [OF assms])
  have ne: "?t \<noteq> []" by simp
  then obtain k' r' where r': "(k', r') \<in> set ?t" "max_seq seq_of ?t = seq_of r'"
    using max_seq_in [OF ne, of seq_of] by blast
  have "keyed ?t" using assms(1) by (simp add: seqs_pos_def)
  then have m: "map_of ?t k' = Some r'" using r'(1) by (simp only: keyed_map_of_iff)
  from m consider "r' = r" | "map_of t k' = Some r'" unfolding map_of_update by (cases "k' = k") simp_all
  then show "max_seq seq_of ?t \<le> seq_of r"
    using r'(2) max_seq_ge [of t k' r' seq_of] assms(2) by cases simp_all
  show "seq_of r \<le> max_seq seq_of ?t" by (rule max_seq_ge [of _ k]) simp
qed

text \<open>Rows above the cursor, laid over the old rows.\<close>

definition rows_since :: "('r \<Rightarrow> int) \<Rightarrow> int \<Rightarrow> ('k \<times> 'r) list \<Rightarrow> ('k \<times> 'r) list" where
  "rows_since seq_of c t = filter (\<lambda>kr. c < seq_of (snd kr)) t"

lemma rows_since_map_of:
  "keyed t \<Longrightarrow> map_of (rows_since seq_of c t) k =
    (case map_of t k of None \<Rightarrow> None | Some r \<Rightarrow> if c < seq_of r then Some r else None)"
  by (simp add: rows_since_def map_of_filter_keyed split: option.split)

lemma advances_overlay:
  assumes "seqs_pos seq_of t" "advances seq_of t t'"
  shows "map_of t' = map_of t ++ map_of (rows_since seq_of (max_seq seq_of t) t')"
proof
  fix k
  have "keyed t'" using assms(2) by (simp add: advances_def seqs_pos_def)
  moreover have "\<not> max_seq seq_of t < seq_of r" if "map_of t k = Some r" for r
    using max_seq_ge [OF that, of seq_of] by simp
  moreover have "map_of t' k = None \<Longrightarrow> map_of t k = None"
    and "\<And>r. map_of t' k = Some r \<Longrightarrow> map_of t k = Some r \<or> max_seq seq_of t < seq_of r"
    using assms(2) unfolding advances_def by blast+
  ultimately show "map_of t' k = (map_of t ++ map_of (rows_since seq_of (max_seq seq_of t) t')) k"
    by (cases "map_of t' k") (auto simp: map_add_def rows_since_map_of)
qed

section \<open>The change feed of a state machine\<close>

locale change_feed =
  fixes table :: "'s \<Rightarrow> ('k \<times> 'r) list"
    and seq_of :: "'r \<Rightarrow> int"
    and inv :: "'s \<Rightarrow> bool"
    and step :: "'s \<Rightarrow> 's \<Rightarrow> bool"
  assumes inv_table: "inv s \<Longrightarrow> seqs_pos seq_of (table s)"
    and step_inv: "inv s \<Longrightarrow> step s s' \<Longrightarrow> inv s'"
    and step_advances: "inv s \<Longrightarrow> step s s' \<Longrightarrow> advances seq_of (table s) (table s')"
begin

lemma steps_inv: "step\<^sup>*\<^sup>* s s' \<Longrightarrow> inv s \<Longrightarrow> inv s'"
  by (induction rule: rtranclp_induct) (auto intro: step_inv)

lemma steps_advance: "step\<^sup>*\<^sup>* s s' \<Longrightarrow> inv s \<Longrightarrow> advances seq_of (table s) (table s')"
proof (induction rule: rtranclp_induct)
  case base
  then show ?case by (simp add: inv_table)
next
  case (step t u)
  then have "inv t" using steps_inv by blast
  then show ?case using step step_advances advances_trans inv_table by metis
qed

lemma cursor_mono: "step\<^sup>*\<^sup>* s s' \<Longrightarrow> inv s \<Longrightarrow> max_seq seq_of (table s) \<le> max_seq seq_of (table s')"
  using advances_mono steps_advance inv_table by metis

lemma catch_up: "step\<^sup>*\<^sup>* s s' \<Longrightarrow> inv s \<Longrightarrow>
    map_of (table s') = map_of (table s) ++ map_of (rows_since seq_of (max_seq seq_of (table s)) (table s'))"
  using advances_overlay steps_advance inv_table by metis

end

section \<open>Interning\<close>

locale interner =
  fixes lookup :: "'t \<Rightarrow> 'k \<Rightarrow> 'i option"
    and intern :: "'t \<Rightarrow> 'k \<Rightarrow> 'i \<times> 't"
    and ok :: "'t \<Rightarrow> bool"
  assumes intern_ok: "ok t \<Longrightarrow> ok (snd (intern t k))"
    and intern_found: "ok t \<Longrightarrow> lookup (snd (intern t k)) k = Some (fst (intern t k))"
    and intern_keeps: "ok t \<Longrightarrow> lookup t k = Some i \<Longrightarrow> lookup (snd (intern t k')) k = Some i"
    and intern_only: "ok t \<Longrightarrow> k' \<noteq> k \<Longrightarrow> lookup (snd (intern t k')) k = lookup t k"
    and lookup_inj: "ok t \<Longrightarrow> lookup t k = Some i \<Longrightarrow> lookup t k' = Some i \<Longrightarrow> k = k'"
begin

lemma intern_idem: "ok t \<Longrightarrow> fst (intern (snd (intern t k)) k) = fst (intern t k)"
  using intern_found intern_keeps intern_ok by (metis option.inject)

lemma intern_same_iff:
  "ok t \<Longrightarrow> fst (intern (snd (intern t k)) k') = fst (intern t k) \<longleftrightarrow> k' = k"
  using intern_found intern_keeps intern_ok lookup_inj by (metis intern_idem)

text \<open>An id that a fresh key received belongs to no old key.\<close>

lemma intern_fresh: "ok t \<Longrightarrow> lookup t k = None \<Longrightarrow> lookup t k' \<noteq> Some (fst (intern t k))"
  using intern_found intern_keeps intern_ok lookup_inj by (metis option.distinct(1))

end

end
