(* ===== verification/RustStr.thy ===== *)
theory RustStr
  imports Prelude
begin

text \<open>
  The operations of Rust's \<open>str\<close> and \<open>char\<close> that the modelled code calls, on lists of
  code points: whitespace (Unicode \<open>White_Space\<close>), \<open>trim\<close>, \<open>split_whitespace\<close>,
  \<open>split_once\<close>, \<open>strip_prefix\<close>, ASCII case folding, UTF-8 encoding and byte lengths.

  \<open>str::to_lowercase\<close> is driven by the Unicode tables of the standard library and by the
  context rule for the final sigma, so it is a parameter \<open>lc\<close> of the model.  What the code
  relies on is \<open>lower_like lc\<close>: lowering twice is lowering once, and a string is lowered
  chunk by chunk, where white space and every ASCII character that is not a letter stays as
  it is and any other character becomes a nonempty chunk without such characters; an ASCII
  string is lowered letter by letter.
  \<open>to_ascii_lowercase\<close> satisfies it.
\<close>

section \<open>White space\<close>

definition is_ws :: "uchar \<Rightarrow> bool" where
  "is_ws c \<longleftrightarrow> 9 \<le> c \<and> c \<le> 13 \<or> c = 32 \<or> c = 0x85 \<or> c = 0xA0 \<or> c = 0x1680 \<or>
     0x2000 \<le> c \<and> c \<le> 0x200A \<or> c = 0x2028 \<or> c = 0x2029 \<or> c = 0x202F \<or> c = 0x205F \<or> c = 0x3000"

definition trim_start :: "ustring \<Rightarrow> ustring" where
  "trim_start s = dropWhile is_ws s"

definition trim_end :: "ustring \<Rightarrow> ustring" where
  "trim_end s = rev (dropWhile is_ws (rev s))"

definition trim :: "ustring \<Rightarrow> ustring" where
  "trim s = trim_end (trim_start s)"

text \<open>\<open>split_whitespace().collect()\<close>: the maximal runs of non-white characters.\<close>

fun split_ws_acc :: "ustring \<Rightarrow> ustring \<Rightarrow> ustring list" where
  "split_ws_acc cur [] = (if cur = [] then [] else [cur])"
| "split_ws_acc cur (c # cs) =
     (if is_ws c then (if cur = [] then split_ws_acc [] cs else cur # split_ws_acc [] cs)
      else split_ws_acc (cur @ [c]) cs)"

definition split_whitespace :: "ustring \<Rightarrow> ustring list" where
  "split_whitespace s = split_ws_acc [] s"

text \<open>\<open>[String]::join(" ")\<close>.\<close>

fun join_sp :: "ustring list \<Rightarrow> ustring" where
  "join_sp [] = []"
| "join_sp [w] = w"
| "join_sp (w # v # ws) = w @ 32 # join_sp (v # ws)"

definition squeeze :: "ustring \<Rightarrow> ustring" where
  "squeeze s = join_sp (split_whitespace s)"

section \<open>Splitting and prefixes\<close>

definition split_once :: "uchar \<Rightarrow> ustring \<Rightarrow> (ustring \<times> ustring) option" where
  "split_once c s =
     (if c \<in> set s then Some (takeWhile (\<lambda>x. x \<noteq> c) s, tl (dropWhile (\<lambda>x. x \<noteq> c) s)) else None)"

definition strip_prefix :: "ustring \<Rightarrow> ustring \<Rightarrow> ustring option" where
  "strip_prefix p s = (if take (length p) s = p then Some (drop (length p) s) else None)"

section \<open>ASCII case folding\<close>

definition ascii_lower :: "uchar \<Rightarrow> uchar" where
  "ascii_lower c = (if 65 \<le> c \<and> c \<le> 90 then c + 32 else c)"

definition to_ascii_lowercase :: "ustring \<Rightarrow> ustring" where
  "to_ascii_lowercase s = map ascii_lower s"

definition eq_ignore_ascii_case :: "ustring \<Rightarrow> ustring \<Rightarrow> bool" where
  "eq_ignore_ascii_case a b \<longleftrightarrow> to_ascii_lowercase a = to_ascii_lowercase b"

section \<open>UTF-8\<close>

definition utf8_width :: "uchar \<Rightarrow> nat" where
  "utf8_width c = (if c < 0x80 then 1 else if c < 0x800 then 2 else if c < 0x10000 then 3 else 4)"

definition utf8_code :: "uchar \<Rightarrow> nat list" where
  "utf8_code c =
     (if c < 0x80 then [c]
      else if c < 0x800 then [0xC0 + c div 64, 0x80 + c mod 64]
      else if c < 0x10000 then [0xE0 + c div 4096, 0x80 + c div 64 mod 64, 0x80 + c mod 64]
      else [0xF0 + c div 262144, 0x80 + c div 4096 mod 64, 0x80 + c div 64 mod 64, 0x80 + c mod 64])"

definition utf8 :: "ustring \<Rightarrow> byte list" where
  "utf8 s = map of_nat (concat (map utf8_code s))"

text \<open>\<open>str::len\<close> counts bytes.\<close>

definition str_len :: "ustring \<Rightarrow> nat" where
  "str_len s = sum_list (map utf8_width s)"

text \<open>
  \<open>split_at_byte n s\<close> is \<open>(s.get(..n), s.get(n..))\<close>: \<open>None\<close> when byte \<open>n\<close> is past the end
  or inside a character.
\<close>

fun split_at_byte :: "nat \<Rightarrow> ustring \<Rightarrow> (ustring \<times> ustring) option" where
  "split_at_byte n [] = (if n = 0 then Some ([], []) else None)"
| "split_at_byte n (c # cs) =
     (if n = 0 then Some ([], c # cs)
      else if utf8_width c \<le> n
        then map_option (\<lambda>(a, b). (c # a, b)) (split_at_byte (n - utf8_width c) cs)
      else None)"

definition scalar :: "uchar \<Rightarrow> bool" where
  "scalar c \<longleftrightarrow> c < 0x110000"

section \<open>Lowercasing\<close>

definition caseless :: "uchar \<Rightarrow> bool" where
  "caseless c \<longleftrightarrow> is_ws c \<or> c < 128 \<and> \<not> (65 \<le> c \<and> c \<le> 90) \<and> \<not> (97 \<le> c \<and> c \<le> 122)"

definition lower_chunk :: "uchar \<Rightarrow> ustring \<Rightarrow> bool" where
  "lower_chunk c ch \<longleftrightarrow> (if caseless c then ch = [c] else ch \<noteq> [] \<and> (\<forall>d\<in>set ch. \<not> caseless d))"

definition lower_like :: "(ustring \<Rightarrow> ustring) \<Rightarrow> bool" where
  "lower_like lc \<longleftrightarrow> (\<forall>s. lc (lc s) = lc s) \<and>
     (\<forall>s. \<exists>cs. list_all2 lower_chunk s cs \<and> lc s = concat cs) \<and>
     (\<forall>s. (\<forall>c\<in>set s. c < 128) \<longrightarrow> lc s = to_ascii_lowercase s)"

section \<open>Facts about white space\<close>

lemma is_ws_space [simp]: "is_ws 32"
  by (simp add: is_ws_def)

lemma not_ws_ascii: "33 \<le> c \<Longrightarrow> c < 0x80 \<Longrightarrow> \<not> is_ws c"
  by (simp add: is_ws_def)

definition word_ok :: "ustring \<Rightarrow> bool" where
  "word_ok w \<longleftrightarrow> w \<noteq> [] \<and> (\<forall>c\<in>set w. \<not> is_ws c)"

lemma split_ws_acc_append:
  "\<forall>c\<in>set w. \<not> is_ws c \<Longrightarrow> split_ws_acc cur (w @ s) = split_ws_acc (cur @ w) s"
  by (induction w arbitrary: cur) auto

lemma split_ws_acc_ok:
  "\<forall>c\<in>set cur. \<not> is_ws c \<Longrightarrow> \<forall>w\<in>set (split_ws_acc cur s). word_ok w"
proof (induction s arbitrary: cur)
  case (Cons c s)
  show ?case
  proof (cases "is_ws c")
    case True
    with Cons.IH [of "[]"] Cons.prems show ?thesis by (simp add: word_ok_def)
  next
    case False
    with Cons.IH [of "cur @ [c]"] Cons.prems show ?thesis by simp
  qed
qed (simp add: word_ok_def)

lemma split_whitespace_ok: "w \<in> set (split_whitespace s) \<Longrightarrow> word_ok w"
  using split_ws_acc_ok [of "[]" s] by (simp add: split_whitespace_def)

lemma split_whitespace_join:
  "\<forall>w\<in>set ws. word_ok w \<Longrightarrow> split_whitespace (join_sp ws) = ws"
proof (induction ws rule: join_sp.induct)
  case (2 w)
  then show ?case
    using split_ws_acc_append [of w "[]" "[]"] by (simp add: split_whitespace_def word_ok_def)
next
  case (3 w v ws)
  then show ?case
    using split_ws_acc_append [of w "[]" "32 # join_sp (v # ws)"]
    by (simp add: split_whitespace_def word_ok_def)
qed (simp add: split_whitespace_def)

lemma squeeze_squeeze [simp]: "squeeze (squeeze s) = squeeze s"
  by (simp add: squeeze_def split_whitespace_join split_whitespace_ok)

lemma set_join_sp: "\<not> is_ws c \<Longrightarrow> c \<in> set (join_sp ws) \<longleftrightarrow> (\<exists>w\<in>set ws. c \<in> set w)"
  by (induction ws rule: join_sp.induct) (auto simp: is_ws_def)

lemma set_split_ws_acc:
  "\<not> is_ws c \<Longrightarrow> (\<exists>w\<in>set (split_ws_acc cur s). c \<in> set w) \<longleftrightarrow> c \<in> set cur \<union> set s"
  by (induction cur s rule: split_ws_acc.induct) auto

lemma set_squeeze: "\<not> is_ws c \<Longrightarrow> c \<in> set (squeeze s) \<longleftrightarrow> c \<in> set s"
  by (simp add: squeeze_def set_join_sp split_whitespace_def set_split_ws_acc)

text \<open>A squeezed string neither begins nor ends with white space.\<close>

definition edge_ok :: "ustring \<Rightarrow> bool" where
  "edge_ok s \<longleftrightarrow> s \<noteq> [] \<and> \<not> is_ws (hd s) \<and> \<not> is_ws (last s)"

lemma edge_ok_join: "ws \<noteq> [] \<Longrightarrow> \<forall>w\<in>set ws. word_ok w \<Longrightarrow> edge_ok (join_sp ws)"
proof (induction ws rule: join_sp.induct)
  case (3 w v ws)
  then have "join_sp (v # ws) \<noteq> []" by (auto simp: edge_ok_def)
  with 3 show ?case by (auto simp: edge_ok_def word_ok_def)
qed (auto simp: edge_ok_def word_ok_def)

lemma squeeze_edge: "squeeze s = [] \<or> edge_ok (squeeze s)"
  by (cases "split_whitespace s = []") (auto simp: squeeze_def edge_ok_join split_whitespace_ok)

lemma trim_edge_ok [simp]: "edge_ok s \<Longrightarrow> trim s = s"
  by (simp add: trim_def trim_end_def trim_start_def edge_ok_def dropWhile_none hd_rev)

lemma trim_Nil [simp]: "trim [] = []"
  by (simp add: trim_def trim_start_def trim_end_def)

lemma trim_squeeze [simp]: "trim (squeeze s) = squeeze s"
  using squeeze_edge [of s] by auto

lemma trim_empty_or_edge: "trim s = [] \<or> edge_ok (trim s)"
proof (cases "trim s = []")
  case False
  let ?t = "dropWhile is_ws s" and ?u = "dropWhile is_ws (rev (dropWhile is_ws s))"
  from False have u: "?u \<noteq> []"
    unfolding trim_def trim_end_def trim_start_def rev_is_Nil_conv .
  then have t: "?t \<noteq> []" by (metis dropWhile.simps(1) rev.simps(1))
  have "\<not> is_ws (hd ?u)" using u by (rule hd_dropWhile)
  moreover have "last ?u = hd ?t"
  proof -
    have "last (rev ?t) = last ?u"
      using takeWhile_dropWhile_id [of is_ws "rev ?t"] u by (metis last_appendR)
    then show ?thesis using t by (simp add: last_rev)
  qed
  ultimately show ?thesis
    using False u hd_dropWhile [OF t]
    by (simp add: edge_ok_def trim_def trim_end_def trim_start_def last_rev hd_rev)
qed simp

lemma split_once_None_iff: "split_once c s = None \<longleftrightarrow> c \<notin> set s"
  by (simp add: split_once_def)

lemma split_once_join: "c \<notin> set a \<Longrightarrow> split_once c (a @ c # b) = Some (a, b)"
proof -
  assume c: "c \<notin> set a"
  then have "takeWhile (\<lambda>x. x \<noteq> c) (a @ c # b) = a" "dropWhile (\<lambda>x. x \<noteq> c) (a @ c # b) = c # b"
    by (auto simp: takeWhile_append takeWhile_all dropWhile_append)
  then show ?thesis by (simp add: split_once_def)
qed

lemma split_once_SomeD:
  assumes "split_once c s = Some (a, b)"
  shows "s = a @ c # b" "c \<notin> set a"
proof -
  from assms have ab: "a = takeWhile (\<lambda>x. x \<noteq> c) s" "b = tl (dropWhile (\<lambda>x. x \<noteq> c) s)" "c \<in> set s"
    by (auto simp: split_once_def split: if_splits)
  then have "dropWhile (\<lambda>x. x \<noteq> c) s \<noteq> []" by (auto simp: dropWhile_eq_Nil_conv)
  then have "dropWhile (\<lambda>x. x \<noteq> c) s = c # b"
    using hd_dropWhile [of "\<lambda>x. x \<noteq> c" s] ab(2) by (cases "dropWhile (\<lambda>x. x \<noteq> c) s") auto
  then show "s = a @ c # b" using ab(1) by (metis takeWhile_dropWhile_id)
  show "c \<notin> set a" using ab(1) by (auto dest: set_takeWhileD)
qed

lemma strip_prefix_append [simp]: "strip_prefix p (p @ s) = Some s"
  by (simp add: strip_prefix_def)

lemma strip_prefix_SomeD: "strip_prefix p s = Some r \<Longrightarrow> s = p @ r"
  by (auto simp: strip_prefix_def split: if_splits) (metis append_take_drop_id)

lemma strip_prefix_single: "strip_prefix [c] s = (case s of [] \<Rightarrow> None | x # xs \<Rightarrow> if x = c then Some xs else None)"
  by (cases s) (auto simp: strip_prefix_def)

section \<open>Facts about lowercasing\<close>

lemma lower_idem: "lower_like lc \<Longrightarrow> lc (lc s) = lc s"
  by (simp add: lower_like_def)

lemma lower_ascii: "lower_like lc \<Longrightarrow> \<forall>c\<in>set s. c < 128 \<Longrightarrow> lc s = to_ascii_lowercase s"
  by (simp add: lower_like_def)

lemma lower_chunksE:
  assumes "lower_like lc"
  obtains cs where "list_all2 lower_chunk s cs" "lc s = concat cs"
  using assms unfolding lower_like_def by blast

lemma lower_Nil [simp]: "lower_like lc \<Longrightarrow> lc [] = []"
  by (metis concat.simps(1) list_all2_Nil lower_like_def)

lemma lower_chunk_mem: "lower_chunk x ch \<Longrightarrow> caseless c \<Longrightarrow> c \<in> set ch \<longleftrightarrow> c = x"
  by (auto simp: lower_chunk_def split: if_splits)

lemma lower_caseless_mem:
  assumes "lower_like lc" and "caseless c"
  shows "c \<in> set (lc s) \<longleftrightarrow> c \<in> set s"
proof -
  obtain cs where cs: "list_all2 lower_chunk s cs" "lc s = concat cs"
    using assms(1) by (rule lower_chunksE)
  have "c \<in> set (concat cs) \<longleftrightarrow> c \<in> set s"
    using cs(1) assms(2) by (induction rule: list_all2_induct) (auto simp: lower_chunk_mem)
  with cs(2) show ?thesis by simp
qed

lemma lower_eq_Nil [simp]: "lower_like lc \<Longrightarrow> lc s = [] \<longleftrightarrow> s = []"
proof -
  assume "lower_like lc"
  then obtain cs where cs: "list_all2 lower_chunk s cs" "lc s = concat cs"
    by (rule lower_chunksE)
  have "concat cs = [] \<longleftrightarrow> s = []"
    using cs(1) by (induction rule: list_all2_induct) (auto simp: lower_chunk_def split: if_splits)
  with cs(2) show ?thesis by simp
qed

lemma chunks_word_ok:
  "list_all2 lower_chunk w cs \<Longrightarrow> word_ok w \<Longrightarrow> word_ok (concat cs)"
proof -
  assume cs: "list_all2 lower_chunk w cs" and w: "word_ok w"
  have "concat cs = [] \<longleftrightarrow> w = []"
    using cs by (induction rule: list_all2_induct) (auto simp: lower_chunk_def split: if_splits)
  moreover have "c \<in> set (concat cs) \<Longrightarrow> is_ws c \<Longrightarrow> c \<in> set w" for c
    using cs by (induction rule: list_all2_induct) (auto simp: lower_chunk_mem caseless_def)
  ultimately show ?thesis using w by (auto simp: word_ok_def)
qed

lemma chunks_join:
  "list_all2 lower_chunk (join_sp ws) cs \<Longrightarrow> \<forall>w\<in>set ws. word_ok w \<Longrightarrow>
     \<exists>ws'. concat cs = join_sp ws' \<and> (\<forall>w\<in>set ws'. word_ok w) \<and> (ws' = [] \<longleftrightarrow> ws = [])"
proof (induction ws arbitrary: cs rule: join_sp.induct)
  case (2 w)
  then have "word_ok (concat cs)" by (auto intro: chunks_word_ok)
  then show ?case by (intro exI [of _ "[concat cs]"]) simp
next
  case (3 w v ws)
  from "3.prems"(1) obtain c1 sp c2 where cs: "cs = c1 @ sp # c2"
    and c1: "list_all2 lower_chunk w c1" and sp: "lower_chunk 32 sp"
    and c2: "list_all2 lower_chunk (join_sp (v # ws)) c2"
    by (auto simp: list_all2_append1 list_all2_Cons1)
  obtain ws' where ws': "concat c2 = join_sp ws'" "\<forall>w\<in>set ws'. word_ok w" "ws' \<noteq> []"
    using "3.IH" [OF c2] "3.prems"(2) by auto
  have "sp = [32]" using sp by (simp add: lower_chunk_def caseless_def)
  moreover have "word_ok (concat c1)" using c1 "3.prems"(2) by (auto intro: chunks_word_ok)
  ultimately show ?case
    using ws' cs by (intro exI [of _ "concat c1 # ws'"]) (cases ws', auto)
qed auto

lemma lower_squeeze:
  assumes "lower_like lc"
  shows "squeeze (lc (squeeze s)) = lc (squeeze s)"
proof -
  obtain cs where cs: "list_all2 lower_chunk (squeeze s) cs" "lc (squeeze s) = concat cs"
    using assms by (rule lower_chunksE)
  then obtain ws' where "concat cs = join_sp ws'" "\<forall>w\<in>set ws'. word_ok w"
    using chunks_join [of "split_whitespace s" cs] split_whitespace_ok
    by (auto simp: squeeze_def)
  then have "squeeze (concat cs) = concat cs"
    by (simp add: squeeze_def split_whitespace_join)
  then show ?thesis by (simp add: cs(2))
qed

lemma lower_like_ascii: "lower_like to_ascii_lowercase"
proof -
  have "list_all2 lower_chunk s (map (\<lambda>c. [ascii_lower c]) s)" for s
    by (induction s) (auto simp: lower_chunk_def ascii_lower_def caseless_def is_ws_def)
  moreover have "to_ascii_lowercase s = concat (map (\<lambda>c. [ascii_lower c]) s)" for s
    by (simp add: to_ascii_lowercase_def concat_map_singleton)
  moreover have "to_ascii_lowercase (to_ascii_lowercase s) = to_ascii_lowercase s" for s
    by (simp add: to_ascii_lowercase_def ascii_lower_def)
  ultimately show ?thesis unfolding lower_like_def by blast
qed

section \<open>Facts about UTF-8\<close>

lemma length_utf8: "length (utf8 s) = str_len s"
  by (induction s) (auto simp: utf8_def str_len_def utf8_code_def utf8_width_def)

lemma utf8_Nil [simp]: "utf8 [] = []"
  by (simp add: utf8_def)

lemma utf8_append [simp]: "utf8 (s @ t) = utf8 s @ utf8 t"
  by (simp add: utf8_def)

lemma split_at_byte_SomeD:
  "split_at_byte n s = Some (a, b) \<Longrightarrow> s = a @ b \<and> str_len a = n"
  by (induction n s arbitrary: a b rule: split_at_byte.induct)
    (auto simp: str_len_def split: if_splits)

section \<open>Decimal numbers\<close>

text \<open>The \<open>Display\<close> form of an unsigned integer, and reading a run of digits back.\<close>

fun dec :: "nat \<Rightarrow> ustring" where
  "dec n = (if n < 10 then [48 + n] else dec (n div 10) @ [48 + n mod 10])"

declare dec.simps [simp del]

definition is_ascii_digit :: "uchar \<Rightarrow> bool" where
  "is_ascii_digit c \<longleftrightarrow> 48 \<le> c \<and> c \<le> 57"

definition digits_val :: "ustring \<Rightarrow> int" where
  "digits_val ds = foldl (\<lambda>n d. n * 10 + (int d - 48)) 0 ds"

lemma digits_val_snoc [simp]: "digits_val (ds @ [d]) = digits_val ds * 10 + (int d - 48)"
  by (simp add: digits_val_def)

lemma digits_val_dec [simp]: "digits_val (dec n) = int n"
proof (induction n rule: dec.induct)
  case (1 n)
  show ?case
  proof (cases "n < 10")
    case True
    then show ?thesis by (simp add: dec.simps [of n] digits_val_def)
  next
    case False
    have "int (n div 10) * 10 + int (n mod 10) = int n"
      by (simp flip: of_nat_add of_nat_mult add: zdiv_int zmod_int)
    then show ?thesis using False 1 by (simp add: dec.simps [of n])
  qed
qed

lemma dec_digits: "c \<in> set (dec n) \<Longrightarrow> is_ascii_digit c"
proof (induction n rule: dec.induct)
  case (1 n)
  then show ?case
    by (cases "n < 10") (auto simp: dec.simps [of n] is_ascii_digit_def)
qed

lemma dec_not_Nil [simp]: "dec n \<noteq> []"
  by (simp add: dec.simps)

lemma dec_inj [simp]: "dec m = dec n \<longleftrightarrow> m = n"
  using digits_val_dec by (metis of_nat_eq_iff)

lemma digits_val_nonneg: "\<forall>c\<in>set ds. is_ascii_digit c \<Longrightarrow> 0 \<le> digits_val ds"
  by (induction ds rule: rev_induct) (simp_all add: digits_val_def is_ascii_digit_def)

text \<open>\<open>str::parse::<u64>\<close>: an optional plus sign and decimal digits, no overflow.\<close>

definition parse_u64 :: "ustring \<Rightarrow> nat option" where
  "parse_u64 s =
     (let ds = (case s of [] \<Rightarrow> [] | c # r \<Rightarrow> if c = 43 then r else s)
      in if ds \<noteq> [] \<and> list_all is_ascii_digit ds \<and> digits_val ds < 2 ^ 64
         then Some (nat (digits_val ds)) else None)"

lemma parse_u64_dec: "n < 2 ^ 64 \<Longrightarrow> parse_u64 (dec n) = Some n"
proof -
  assume n: "n < 2 ^ 64"
  obtain c r where d: "dec n = c # r" by (cases "dec n") auto
  then have "c \<noteq> 43" using dec_digits [of c n] by (auto simp: is_ascii_digit_def)
  moreover have "int n < 2 ^ 64" using n by simp
  moreover have "list_all is_ascii_digit (dec n)" using dec_digits by (auto simp: list_all_iff)
  ultimately show ?thesis using digits_val_dec [of n] by (simp add: parse_u64_def Let_def d)
qed

text \<open>Definitions to unfold when a concrete string is evaluated by \<open>simp\<close>.\<close>

lemmas str_eval = is_ws_def trim_def trim_start_def trim_end_def split_whitespace_def
  split_once_def strip_prefix_def ascii_lower_def to_ascii_lowercase_def
  eq_ignore_ascii_case_def utf8_width_def dec.simps is_ascii_digit_def digits_val_def

end
