(* ===== verification/CoreTag.thy ===== *)
theory CoreTag
  imports RustStr
begin

text \<open>
  \<open>crates/core/src/tag.rs\<close>: the tag vocabulary.  \<open>tag_normalize\<close> trims, collapses white space
  and lowercases; \<open>tag_parse\<close> is \<open>Tag::parse\<close> with its leading-colon rules; \<open>tag_display\<close>
  is the \<open>Display\<close> form that is stored, signed and sent.  The lemmas show that a parsed tag
  is normalised, that its display form parses back to it, and that the display form
  identifies it.  \<open>core_error\<close> is \<open>crates/core/src/error.rs\<close>.
\<close>

section \<open>Errors of the core crate\<close>

datatype core_error =
    InvalidHashHex ustring
  | InvalidFileState ustring
  | EmptyTag ustring
  | BadPattern ustring
  | BadSystem ustring
  | BadQuery ustring
  | Io ustring ustring

section \<open>Tags\<close>

record tag =
  namespace :: ustring
  subtag :: ustring

definition tag_normalize :: "(ustring \<Rightarrow> ustring) \<Rightarrow> ustring \<Rightarrow> ustring" where
  "tag_normalize lc part = lc (join_sp (split_whitespace part))"

definition tag_parse :: "(ustring \<Rightarrow> ustring) \<Rightarrow> ustring \<Rightarrow> core_error + tag" where
  "tag_parse lc s =
     (let t = trim s;
          (ns, sub) =
            (case strip_prefix (lit '':'') t of
               Some rest \<Rightarrow>
                 if 58 \<in> set rest then ([], tag_normalize lc rest) else ([], tag_normalize lc t)
             | None \<Rightarrow>
                 (case split_once 58 t of
                    Some (ns, sub) \<Rightarrow> (tag_normalize lc ns, tag_normalize lc sub)
                  | None \<Rightarrow> ([], tag_normalize lc t)))
      in if sub = [] then Inl (EmptyTag s) else Inr \<lparr>namespace = ns, subtag = sub\<rparr>)"

definition tag_display :: "tag \<Rightarrow> ustring" where
  "tag_display t =
     (if namespace t = [] then
        (if 58 \<in> set (subtag t) then lit '':'' @ subtag t else subtag t)
      else namespace t @ lit '':'' @ subtag t)"

section \<open>Normalisation\<close>

lemma normalize_squeeze: "tag_normalize lc s = lc (squeeze s)"
  by (simp add: tag_normalize_def squeeze_def)

text \<open>What \<open>tag_normalize\<close> leaves alone.\<close>

definition normal :: "(ustring \<Rightarrow> ustring) \<Rightarrow> ustring \<Rightarrow> bool" where
  "normal lc s \<longleftrightarrow> tag_normalize lc s = s"

lemma normal_normalize [simp]: "lower_like lc \<Longrightarrow> normal lc (tag_normalize lc s)"
  by (simp add: normal_def normalize_squeeze lower_squeeze lower_idem)

lemma normalize_edge: "lower_like lc \<Longrightarrow> tag_normalize lc s = [] \<or> edge_ok (tag_normalize lc s)"
  using squeeze_edge [of "tag_normalize lc s"] by (simp add: normalize_squeeze lower_squeeze)

lemma normal_edge: "lower_like lc \<Longrightarrow> normal lc s \<Longrightarrow> s \<noteq> [] \<Longrightarrow> edge_ok s"
  using normalize_edge [of lc s] by (simp add: normal_def)

lemma normalize_mem:
  "lower_like lc \<Longrightarrow> caseless c \<Longrightarrow> \<not> is_ws c \<Longrightarrow> c \<in> set (tag_normalize lc s) \<longleftrightarrow> c \<in> set s"
  by (simp add: normalize_squeeze lower_caseless_mem set_squeeze)

lemma colon_char [simp]: "caseless 58" "\<not> is_ws 58"
  by (simp_all add: caseless_def is_ws_def)

lemma normalize_colon [simp]: "lower_like lc \<Longrightarrow> 58 \<in> set (tag_normalize lc s) \<longleftrightarrow> 58 \<in> set s"
  by (rule normalize_mem) simp_all

lemma normalize_eq_Nil: "lower_like lc \<Longrightarrow> tag_normalize lc s = [] \<longleftrightarrow> (\<forall>c\<in>set s. is_ws c)"
proof -
  assume lc: "lower_like lc"
  have "squeeze s = [] \<longleftrightarrow> (\<forall>c\<in>set s. is_ws c)"
    using squeeze_edge [of s] set_squeeze [of _ s]
    by (auto simp: edge_ok_def) (metis empty_iff list.set(1), metis hd_in_set set_squeeze)
  with lc show ?thesis by (simp add: normalize_squeeze)
qed

section \<open>Parsed tags are well formed\<close>

text \<open>
  The tags the code can hold: both parts normalised, a nonempty subtag, and no colon in the
  namespace.
\<close>

definition tag_wf :: "(ustring \<Rightarrow> ustring) \<Rightarrow> tag \<Rightarrow> bool" where
  "tag_wf lc t \<longleftrightarrow> normal lc (namespace t) \<and> normal lc (subtag t) \<and> subtag t \<noteq> [] \<and>
     58 \<notin> set (namespace t)"

lemma normal_Nil [simp]: "lower_like lc \<Longrightarrow> normal lc []"
  by (simp add: normal_def normalize_squeeze squeeze_def split_whitespace_def)

lemma tag_parse_wf:
  assumes "lower_like lc" and "tag_parse lc s = Inr t"
  shows "tag_wf lc t"
  using assms
  by (auto simp: tag_parse_def tag_wf_def Let_def dest!: split_once_SomeD(2)
      split: option.splits if_splits)

text \<open>The heart of the round trip: the display form of a well-formed tag parses to that tag.\<close>

lemma tag_parse_display:
  assumes lc: "lower_like lc" and wf: "tag_wf lc t"
  shows "tag_parse lc (tag_display t) = Inr t"
proof (cases "namespace t = []")
  case True
  from wf have sub: "tag_normalize lc (subtag t) = subtag t" "subtag t \<noteq> []"
    by (auto simp: tag_wf_def normal_def)
  then have edge: "edge_ok (subtag t)" using normalize_edge [OF lc, of "subtag t"] by simp
  show ?thesis
  proof (cases "58 \<in> set (subtag t)")
    case c: True
    have "edge_ok (58 # subtag t)" using edge by (simp add: edge_ok_def)
    then show ?thesis using True c sub
      by (simp add: tag_parse_def tag_display_def strip_prefix_single)
  next
    case c: False
    then have "strip_prefix [58] (subtag t) = None"
      by (auto simp: strip_prefix_single split: list.splits)
    then show ?thesis using True c sub edge
      by (simp add: tag_parse_def tag_display_def split_once_def)
  qed
next
  case False
  from wf have ns: "tag_normalize lc (namespace t) = namespace t" "58 \<notin> set (namespace t)"
    and sub: "tag_normalize lc (subtag t) = subtag t" "subtag t \<noteq> []"
    by (auto simp: tag_wf_def normal_def)
  have "edge_ok (namespace t)" "edge_ok (subtag t)"
    using normalize_edge [OF lc, of "namespace t"] normalize_edge [OF lc, of "subtag t"] ns sub False
    by auto
  then have edge: "edge_ok (namespace t @ 58 # subtag t)" by (simp add: edge_ok_def)
  have "strip_prefix [58] (namespace t @ 58 # subtag t) = None"
    using False ns(2) by (cases "namespace t") (auto simp: strip_prefix_single)
  then show ?thesis using False ns sub edge
    by (simp add: tag_parse_def tag_display_def split_once_join)
qed

text \<open>
  Parsing fails exactly when nothing is left: the trimmed input is empty, or it is a
  namespace followed by its colon and nothing else.
\<close>

lemma edge_not_all_ws: "edge_ok s \<Longrightarrow> \<not> (\<forall>c\<in>set s. is_ws c)"
  by (auto simp: edge_ok_def)

lemma tag_parse_fails_iff:
  assumes lc: "lower_like lc"
  shows "tag_parse lc s = Inl (EmptyTag s) \<longleftrightarrow>
    trim s = [] \<or> (\<exists>ns. ns \<noteq> [] \<and> 58 \<notin> set ns \<and> trim s = ns @ lit '':'')"
proof (cases "trim s")
  case Nil
  then show ?thesis
    by (simp add: tag_parse_def strip_prefix_single split_once_def lc normalize_eq_Nil)
next
  case (Cons c cs)
  then have edge: "edge_ok (c # cs)" using trim_empty_or_edge [of s] by simp
  show ?thesis
  proof (cases "c = 58")
    case True
    have "\<not> (\<forall>c\<in>set cs. is_ws c)" if "58 \<in> set cs"
      using that colon_char(2) by blast
    then show ?thesis using True Cons edge_not_all_ws [OF edge]
      by (auto simp: tag_parse_def strip_prefix_single lc normalize_eq_Nil Cons_eq_append_conv)
  next
    case c: False
    show ?thesis
    proof (cases "split_once 58 (c # cs)")
      case None
      then have "58 \<notin> set (c # cs)" using split_once_None_iff by blast
      then have "c # cs \<noteq> ns @ [58]" for ns by (metis in_set_conv_decomp)
      then show ?thesis using None c Cons edge_not_all_ws [OF edge]
        by (simp add: tag_parse_def strip_prefix_single lc normalize_eq_Nil)
    next
      case (Some ab)
      then obtain a b where ab: "split_once 58 (c # cs) = Some (a, b)" by (cases ab) auto
      note dec = split_once_SomeD [OF ab]
      have "(\<forall>x\<in>set b. is_ws x) \<longleftrightarrow> b = []"
        using edge dec(1) by (auto simp: edge_ok_def split: if_splits)
      moreover have "(\<exists>ns. ns \<noteq> [] \<and> 58 \<notin> set ns \<and> c # cs = ns @ [58]) \<longleftrightarrow> b = []"
        using dec c append_at_sep [of 58 a _ b "[]"] by (cases a) auto
      ultimately show ?thesis using c Cons ab
        by (simp add: tag_parse_def strip_prefix_single lc normalize_eq_Nil)
    qed
  qed
qed

section \<open>Properties\<close>

text \<open>
  C38. Tags survive storage and the wire: every tag that \<open>Tag::parse\<close> returns has both parts
  normalised, a nonempty subtag and no colon in its namespace, its display form parses back
  to it, and two parsed tags with the same display form are the same tag.
\<close>

theorem tag_display_roundtrip:
  assumes "lower_like lc" and "tag_parse lc s = Inr t" and "tag_parse lc s' = Inr t'"
  shows "tag_wf lc t \<and> tag_parse lc (tag_display t) = Inr t \<and> (tag_display t = tag_display t' \<longrightarrow> t = t')"
proof -
  note wf = tag_parse_wf [OF assms(1,2)] tag_parse_wf [OF assms(1,3)]
  note rt = tag_parse_display [OF assms(1) wf(1)] tag_parse_display [OF assms(1) wf(2)]
  have "t = t'" if "tag_display t = tag_display t'"
    using rt(1) unfolding that rt(2) by simp
  with wf(1) rt(1) show ?thesis by blast
qed

theorem tag_display_roundtrip_witness:
  "tag_parse to_ascii_lowercase (tag_display \<lparr>namespace = lit ''character'', subtag = lit ''samus aran''\<rparr>)
    = Inr \<lparr>namespace = lit ''character'', subtag = lit ''samus aran''\<rparr>"
proof -
  have "tag_parse to_ascii_lowercase (lit ''Character :  Samus   Aran'') =
    Inr \<lparr>namespace = lit ''character'', subtag = lit ''samus aran''\<rparr>"
    by (simp add: tag_parse_def tag_normalize_def str_eval)
  from tag_display_roundtrip [OF lower_like_ascii this this] show ?thesis by blast
qed

text \<open>
  Parsing a tag fails, with the whole input in the error, exactly when no subtag is left:
  the trimmed input is empty, or it is a nonempty namespace with its colon and nothing after
  it.
\<close>

theorem tag_parse_error_iff:
  assumes "lower_like lc"
  shows "((\<exists>e. tag_parse lc s = Inl e) \<longleftrightarrow>
      trim s = [] \<or> (\<exists>ns. ns \<noteq> [] \<and> 58 \<notin> set ns \<and> trim s = ns @ lit '':'')) \<and>
    (\<forall>e. tag_parse lc s = Inl e \<longrightarrow> e = EmptyTag s)"
proof -
  have err: "\<forall>e. tag_parse lc s = Inl e \<longrightarrow> e = EmptyTag s"
    by (auto simp: tag_parse_def Let_def split: if_splits option.splits)
  then have "(\<exists>e. tag_parse lc s = Inl e) \<longleftrightarrow> tag_parse lc s = Inl (EmptyTag s)" by blast
  then show ?thesis using tag_parse_fails_iff [OF assms] err by simp
qed

theorem tag_parse_error_iff_witness:
  "tag_parse to_ascii_lowercase (lit ''  character: '') = Inl (EmptyTag (lit ''  character: ''))"
proof -
  have "trim (lit ''  character: '') = lit ''character'' @ lit '':''" by (simp add: str_eval)
  moreover have "58 \<notin> set (lit ''character'')" "lit ''character'' \<noteq> []" by simp_all
  ultimately show ?thesis
    using tag_parse_error_iff [OF lower_like_ascii, of "lit ''  character: ''"] by blast
qed

end
