(* ===== verification/CoreHash.thy ===== *)
theory CoreHash
  imports CoreTag
begin

unbundle bit_operations_syntax

text \<open>
  \<open>crates/core/src/hash.rs\<close>, \<open>state.rs\<close>, and the byte-budget arithmetic the crates share.
  A content hash is its 32 bytes; the lemmas give the hex round trip in both directions and
  that the hex spelling orders hashes the way their bytes do.
\<close>

section \<open>Hashes and hex\<close>

type_synonym hash = "byte list"

definition hash_ok :: "hash \<Rightarrow> bool" where
  "hash_ok h \<longleftrightarrow> length h = 32"

text \<open>\<open>char::from_digit(_, 16)\<close> on a nibble.\<close>

definition from_digit16 :: "byte \<Rightarrow> uchar" where
  "from_digit16 d = (if d < 10 then 48 + unat d else 87 + unat d)"

definition to_hex :: "hash \<Rightarrow> ustring" where
  "to_hex h = concat (map (\<lambda>b. [from_digit16 (drop_bit 4 b), from_digit16 (b AND 0x0F)]) h)"

definition hex_val :: "byte \<Rightarrow> byte option" where
  "hex_val c =
     (if 48 \<le> c \<and> c \<le> 57 then Some (c - 48)
      else if 97 \<le> c \<and> c \<le> 102 then Some (c - 97 + 10)
      else if 65 \<le> c \<and> c \<le> 70 then Some (c - 65 + 10)
      else None)"

text \<open>The loop of \<open>Hash::from_str\<close> over the 64 raw bytes, two at a time.\<close>

fun hex_pairs :: "byte list \<Rightarrow> byte list option" where
  "hex_pairs (a # b # r) =
     (case hex_val a of
        None \<Rightarrow> None
      | Some hi \<Rightarrow>
          (case hex_val b of
             None \<Rightarrow> None
           | Some lo \<Rightarrow> map_option (\<lambda>bs. (push_bit 4 hi OR lo) # bs) (hex_pairs r)))"
| "hex_pairs _ = Some []"

definition hash_from_str :: "ustring \<Rightarrow> core_error + hash" where
  "hash_from_str s =
     (if str_len s \<noteq> 64 then Inl (InvalidHashHex s)
      else ok_or (InvalidHashHex s) (hex_pairs (utf8 s)))"

section \<open>File states\<close>

datatype file_state = Active | Archived | Trashed

fun file_state_as_str :: "file_state \<Rightarrow> ustring" where
  "file_state_as_str Active = lit ''active''"
| "file_state_as_str Archived = lit ''archived''"
| "file_state_as_str Trashed = lit ''trashed''"

definition file_state_from_str :: "ustring \<Rightarrow> core_error + file_state" where
  "file_state_from_str s =
     (if s = lit ''active'' then Inr Active
      else if s = lit ''archived'' then Inr Archived
      else if s = lit ''trashed'' then Inr Trashed
      else Inl (InvalidFileState s))"

section \<open>Response budget arithmetic\<close>

definition BUCKET_ROW_OVERHEAD :: nat where "BUCKET_ROW_OVERHEAD = 67"

definition RESPONSE_ENVELOPE_OVERHEAD :: nat where "RESPONSE_ENVELOPE_OVERHEAD = 64"

definition approx_row_cost :: "nat \<Rightarrow> nat \<Rightarrow> nat" where
  "approx_row_cost key_len tag_len = key_len + tag_len + BUCKET_ROW_OVERHEAD"

definition json_byte_len :: "byte \<Rightarrow> nat" where
  "json_byte_len b =
     (if b = 0x22 \<or> b = 0x5C then 2
      else if b = 0x08 \<or> b = 0x09 \<or> b = 0x0A \<or> b = 0x0C \<or> b = 0x0D then 2
      else if b < 0x20 then 6
      else 1)"

definition json_escaped_len :: "ustring \<Rightarrow> nat" where
  "json_escaped_len s = sum_list (map json_byte_len (utf8 s))"

section \<open>Facts about hex\<close>

lemma byte_and_15: "(b AND 0x0F :: byte) = take_bit 4 b"
  by (simp add: take_bit_eq_mask mask_eq_exp_minus_1)

lemma unat_byte [simp]: "unat (b :: byte) < 256"
  using unsigned_less [of b] by simp

lemma unat_hi: "unat (drop_bit 4 (b :: byte)) = unat b div 16"
  by (simp only: unat_drop_bit_eq) (simp add: drop_bit_eq_div)

lemma unat_lo: "unat (b AND 0x0F :: byte) = unat b mod 16"
  by (simp only: byte_and_15 unsigned_take_bit_eq) (simp add: take_bit_eq_mod)

lemma byte_hi_lo: "push_bit 4 (drop_bit 4 b) OR (b AND 0x0F) = (b :: byte)"
  unfolding byte_and_15 by (rule bit_word_eqI) (auto simp: bit_simps)

lemma nibbles_small [simp]: "unat (drop_bit 4 (b :: byte)) < 16" "unat (b AND 0x0F :: byte) < 16"
  unfolding unat_hi unat_lo using unat_byte [of b] by (simp_all add: less_mult_imp_div_less)

lemma unat_of_nat_byte: "n < 256 \<Longrightarrow> unat (of_nat n :: byte) = n"
  by (simp add: unat_of_nat)

lemma byte_le_iff: "n < 256 \<Longrightarrow> of_nat n \<le> (b :: byte) \<longleftrightarrow> n \<le> unat b"
  by (simp add: word_le_nat_alt unat_of_nat_byte)

lemma byte_ge_iff: "n < 256 \<Longrightarrow> (b :: byte) \<le> of_nat n \<longleftrightarrow> unat b \<le> n"
  by (simp add: word_le_nat_alt unat_of_nat_byte)

lemma hex_val_digit:
  assumes "unat d < 16"
  shows "hex_val (of_nat (from_digit16 d)) = Some d" "from_digit16 d < 103" "from_digit16 d < 0x80"
proof -
  have d: "d < 10 \<longleftrightarrow> unat d < 10" by (simp add: word_less_nat_alt)
  show "hex_val (of_nat (from_digit16 d)) = Some d"
    using assms by (simp add: hex_val_def from_digit16_def d word_le_nat_alt unat_of_nat of_nat_diff)
  show "from_digit16 d < 103" using assms by (simp add: from_digit16_def)
  then show "from_digit16 d < 0x80" by simp
qed

lemma hex_val_SomeD:
  assumes "hex_val (of_nat c) = Some d" and "c < 256"
  shows "unat d < 16" "from_digit16 d = ascii_lower c" "c < 0x80"
proof -
  have d10: "d < 10 \<longleftrightarrow> unat d < 10" by (simp add: word_less_nat_alt)
  have le: "48 \<le> (of_nat c :: byte) \<longleftrightarrow> 48 \<le> c" "(of_nat c :: byte) \<le> 57 \<longleftrightarrow> c \<le> 57"
    "97 \<le> (of_nat c :: byte) \<longleftrightarrow> 97 \<le> c" "(of_nat c :: byte) \<le> 102 \<longleftrightarrow> c \<le> 102"
    "65 \<le> (of_nat c :: byte) \<longleftrightarrow> 65 \<le> c" "(of_nat c :: byte) \<le> 70 \<longleftrightarrow> c \<le> 70"
    using assms(2) by (simp_all add: word_le_nat_alt unat_of_nat)
  consider k where "c = 48 + k" "k < 10" "d = of_nat k" | k where "c = 97 + k" "k < 6" "d = of_nat (10 + k)"
    | k where "c = 65 + k" "k < 6" "d = of_nat (10 + k)"
  proof -
    have "48 \<le> c \<and> c \<le> 57 \<and> d = of_nat c - 48 \<or> 97 \<le> c \<and> c \<le> 102 \<and> d = of_nat c - 97 + 10
        \<or> 65 \<le> c \<and> c \<le> 70 \<and> d = of_nat c - 65 + 10"
      using assms(1) unfolding hex_val_def le by (auto split: if_splits)
    then show thesis
      using that(1) [of "c - 48"] that(2) [of "c - 97"] that(3) [of "c - 65"]
      by (auto simp: of_nat_diff)
  qed
  then have "unat d < 16 \<and> from_digit16 d = ascii_lower c \<and> c < 0x80"
    by cases (auto simp: from_digit16_def word_less_nat_alt ascii_lower_def unat_of_nat simp del: of_nat_add)
  then show "unat d < 16" "from_digit16 d = ascii_lower c" "c < 0x80" by simp_all
qed

lemma to_hex_Nil [simp]: "to_hex [] = []"
  by (simp add: to_hex_def)

lemma to_hex_Cons:
  "to_hex (b # h) = from_digit16 (drop_bit 4 b) # from_digit16 (b AND 0x0F) # to_hex h"
  by (simp add: to_hex_def)

lemma utf8_ascii_Cons: "c < 0x80 \<Longrightarrow> utf8 (c # s) = of_nat c # utf8 s"
  by (simp add: utf8_def utf8_code_def)

lemma str_len_Cons: "str_len (c # s) = utf8_width c + str_len s"
  by (simp add: str_len_def)

lemma utf8_width_ascii: "c < 0x80 \<Longrightarrow> utf8_width c = 1"
  by (simp add: utf8_width_def)

lemmas nibble_digit = hex_val_digit [OF nibbles_small(1)] hex_val_digit [OF nibbles_small(2)]

lemma hex_pairs_to_hex: "hex_pairs (utf8 (to_hex h)) = Some h"
  by (induction h) (simp_all add: to_hex_Cons utf8_ascii_Cons byte_hi_lo nibble_digit)

lemma str_len_to_hex [simp]: "str_len (to_hex h) = 2 * length h"
  by (induction h)
    (simp_all add: to_hex_Cons str_len_Cons utf8_width_ascii nibble_digit, simp add: str_len_def)

lemma length_to_hex [simp]: "length (to_hex h) = 2 * length h"
  by (induction h) (simp_all add: to_hex_Cons)

lemma hash_from_str_to_hex: "hash_ok h \<Longrightarrow> hash_from_str (to_hex h) = Inr h"
  by (simp add: hash_from_str_def hash_ok_def hex_pairs_to_hex)

text \<open>The converse: what parses is the hex of its result, up to letter case.\<close>

lemma hex_join_nibbles:
  assumes "unat (hi :: byte) < 16" "unat (lo :: byte) < 16"
  shows "drop_bit 4 (push_bit 4 hi OR lo) = hi" "(push_bit 4 hi OR lo) AND 0x0F = lo"
proof -
  have hi: "take_bit 4 hi = hi" and lo: "take_bit 4 lo = lo"
    using assms by (simp_all only: word_unat_eq_iff unsigned_take_bit_eq) (simp_all add: take_bit_eq_mod)
  have hb: "bit hi n \<Longrightarrow> n < 4" and lb: "bit lo n \<Longrightarrow> n < 4" for n
    using hi lo by (metis bit_take_bit_iff)+
  show "drop_bit 4 (push_bit 4 hi OR lo) = hi"
    by (rule bit_word_eqI) (auto simp: bit_simps dest: hb lb)
  show "(push_bit 4 hi OR lo) AND 0x0F = lo"
    unfolding byte_and_15 by (rule bit_word_eqI) (auto simp: bit_simps dest: lb)
qed

lemma utf8_first:
  assumes "hex_val (hd (utf8 (c # s))) = Some d" "scalar c"
  shows "c < 0x80 \<and> unat d < 16 \<and> from_digit16 d = ascii_lower c"
proof -
  define n where "n = hd (utf8_code c)"
  have hd: "hd (utf8 (c # s)) = of_nat n"
    by (auto simp: utf8_def utf8_code_def n_def)
  have n: "n < 256" "n < 0x80 \<longleftrightarrow> c < 0x80" "c < 0x80 \<Longrightarrow> n = c"
    using assms(2) by (auto simp: n_def utf8_code_def scalar_def)
  from hex_val_SomeD [of n d] assms(1) n show ?thesis by (simp add: hd)
qed

lemma hex_pairs_SomeD:
  "hex_pairs (utf8 s) = Some h \<Longrightarrow> \<forall>c\<in>set s. scalar c \<Longrightarrow> even (str_len s) \<Longrightarrow>
     to_hex h = to_ascii_lowercase s \<and> length s = 2 * length h"
proof (induction s arbitrary: h rule: induct_list012)
  case 1
  then show ?case by (simp add: to_ascii_lowercase_def)
next
  case (2 c)
  obtain b bs where b: "utf8 [c] = b # bs" by (cases "utf8 [c]") (auto simp: utf8_def utf8_code_def split: if_splits)
  have "bs \<noteq> []"
  proof
    assume "bs = []"
    then have "str_len [c] = 1" using b length_utf8 [of "[c]"] by simp
    with "2.prems"(3) show False by simp
  qed
  then obtain d where "hex_val (hd (utf8 [c])) = Some d"
    using "2.prems"(1) b by (cases bs) (auto split: option.splits)
  then have "c < 0x80" using utf8_first [of c "[]"] "2.prems"(2) by simp
  then have "str_len [c] = 1" by (simp add: str_len_def utf8_width_def)
  with "2.prems"(3) show ?case by simp
next
  case (3 c d s)
  obtain b bs where b: "utf8 (c # d # s) = b # bs"
    by (cases "utf8 (c # d # s)") (auto simp: utf8_def utf8_code_def split: if_splits)
  have "bs \<noteq> []"
  proof
    assume "bs = []"
    then have "str_len (c # d # s) = 1" using b length_utf8 [of "c # d # s"] by simp
    with "3.prems"(3) show False by simp
  qed
  then obtain hi where hi: "hex_val (hd (utf8 (c # d # s))) = Some hi"
    using "3.prems"(1) b by (cases bs) (auto split: option.splits)
  then have c: "c < 0x80" "unat hi < 16" "from_digit16 hi = ascii_lower c"
    using utf8_first [OF hi] "3.prems"(2) by simp_all
  then have u: "utf8 (c # d # s) = of_nat c # utf8 (d # s)" by (simp add: utf8_ascii_Cons)
  obtain e es where e: "utf8 (d # s) = e # es"
    by (cases "utf8 (d # s)") (auto simp: utf8_def utf8_code_def split: if_splits)
  then obtain lo where lo: "hex_val (hd (utf8 (d # s))) = Some lo"
    using "3.prems"(1) u by (auto split: option.splits)
  then have d: "d < 0x80" "unat lo < 16" "from_digit16 lo = ascii_lower d"
    using utf8_first [OF lo] "3.prems"(2) by simp_all
  then have u2: "utf8 (d # s) = of_nat d # utf8 s" by (simp add: utf8_ascii_Cons)
  obtain h' where h': "hex_pairs (utf8 s) = Some h'" "h = (push_bit 4 hi OR lo) # h'"
    using "3.prems"(1) hi lo by (auto simp: u u2 split: option.splits)
  have "even (str_len s)" using "3.prems"(3) c d by (simp add: str_len_Cons utf8_width_ascii)
  with "3.IH"(1) [OF h'(1)] "3.prems"(2)
  have "to_hex h' = to_ascii_lowercase s" "length s = 2 * length h'" by simp_all
  with h'(2) c d hex_join_nibbles [OF c(2) d(2)] show ?case
    by (simp add: to_hex_Cons to_ascii_lowercase_def)
qed

lemma hash_from_str_InrD:
  assumes "hash_from_str s = Inr h" and "\<forall>c\<in>set s. scalar c"
  shows "hash_ok h" "to_hex h = to_ascii_lowercase s"
proof -
  have len: "str_len s = 64" and "hex_pairs (utf8 s) = Some h"
    using assms(1) by (auto simp: hash_from_str_def split: if_splits)
  then have h: "to_hex h = to_ascii_lowercase s" "length s = 2 * length h"
    using hex_pairs_SomeD assms(2) by auto
  from h(2) have "str_len (to_hex h) = length s" by (simp only: str_len_to_hex)
  moreover have "str_len (to_ascii_lowercase s) = str_len s"
    by (simp add: str_len_def to_ascii_lowercase_def comp_def)
      (rule arg_cong [where f = sum_list], simp add: utf8_width_def ascii_lower_def)
  ultimately show "hash_ok h" using h len by (simp add: hash_ok_def)
  show "to_hex h = to_ascii_lowercase s" by fact
qed

lemma digit_less:
  assumes "unat d < 16" "unat e < 16"
  shows "from_digit16 d < from_digit16 e \<longleftrightarrow> unat d < unat e"
    "from_digit16 d = from_digit16 e \<longleftrightarrow> unat d = unat e"
  using assms by (auto simp: from_digit16_def word_less_nat_alt)

lemmas digit_cmp =
  digit_less [OF nibbles_small(1) nibbles_small(1), unfolded unat_hi]
  digit_less [OF nibbles_small(2) nibbles_small(2), unfolded unat_lo]

lemma to_hex_less_iff: "length a = length b \<Longrightarrow> to_hex a < to_hex b \<longleftrightarrow> a < b"
proof (induction a b rule: list_induct2)
  case (Cons x xs y ys)
  have "unat x = 16 * (unat x div 16) + unat x mod 16" "unat y = 16 * (unat y div 16) + unat y mod 16"
    by simp_all
  then have "(unat x div 16 < unat y div 16 \<or> unat x div 16 = unat y div 16 \<and> unat x mod 16 < unat y mod 16)
      \<longleftrightarrow> unat x < unat y"
    "(unat x div 16 = unat y div 16 \<and> unat x mod 16 = unat y mod 16) \<longleftrightarrow> unat x = unat y"
    by linarith (metis div_mult_mod_eq)
  then show ?case using Cons.IH
    by (auto simp: to_hex_Cons digit_cmp word_less_nat_alt word_unat_eq_iff)
qed simp

lemma to_hex_inj: "length a = length b \<Longrightarrow> to_hex a = to_hex b \<longleftrightarrow> a = b"
  using to_hex_less_iff [of a b] to_hex_less_iff [of b a] by (metis less_irrefl linorder_neqE)

lemma to_hex_less_g: "to_hex h < lit ''g''"
  by (cases h) (simp_all add: to_hex_Cons nibble_digit)

section \<open>UTF-8 is injective\<close>

lemma utf8_code_bytes: "scalar c \<Longrightarrow> n \<in> set (utf8_code c) \<Longrightarrow> n < 256"
  by (auto simp: utf8_code_def scalar_def split: if_splits)

lemma lead_class:
  assumes "scalar c"
  shows "c < 0x80 \<longleftrightarrow> hd (utf8_code c) < 0x80"
    "0x80 \<le> c \<and> c < 0x800 \<longleftrightarrow> 0x80 \<le> hd (utf8_code c) \<and> hd (utf8_code c) < 0xE0"
    "0x800 \<le> c \<and> c < 0x10000 \<longleftrightarrow> 0xE0 \<le> hd (utf8_code c) \<and> hd (utf8_code c) < 0xF0"
  using assms by (auto simp: utf8_code_def scalar_def)

lemma utf8_code_prefix_free:
  assumes c: "scalar c" and d: "scalar d" and eq: "utf8_code c @ xs = utf8_code d @ ys"
  shows "c = d \<and> xs = ys"
proof -
  have ne: "utf8_code c \<noteq> []" "utf8_code d \<noteq> []" by (auto simp: utf8_code_def)
  then have hd: "hd (utf8_code c) = hd (utf8_code d)"
    using eq by (metis hd_append2)
  consider "c < 0x80" "d < 0x80" | "0x80 \<le> c" "c < 0x800" "0x80 \<le> d" "d < 0x800"
    | "0x800 \<le> c" "c < 0x10000" "0x800 \<le> d" "d < 0x10000"
    | "0x10000 \<le> c" "0x10000 \<le> d"
  proof -
    have e: "c < 0x80 \<longleftrightarrow> d < 0x80" "0x80 \<le> c \<and> c < 0x800 \<longleftrightarrow> 0x80 \<le> d \<and> d < 0x800"
      "0x800 \<le> c \<and> c < 0x10000 \<longleftrightarrow> 0x800 \<le> d \<and> d < 0x10000"
      unfolding lead_class [OF c] lead_class [OF d] hd by (rule refl)+
    show thesis
    proof (cases "c < 0x80")
      case True then show ?thesis using e(1) that(1) by simp
    next
      case c1: False
      show ?thesis
      proof (cases "c < 0x800")
        case True then show ?thesis using c1 e(2) that(2) by simp
      next
        case c2: False
        show ?thesis
        proof (cases "c < 0x10000")
          case True then show ?thesis using c2 e(3) that(3) by simp
        next
          case False
          then have "\<not> d < 0x80" "\<not> (0x80 \<le> d \<and> d < 0x800)" "\<not> (0x800 \<le> d \<and> d < 0x10000)"
            using c1 c2 e by simp_all
          then have "0x10000 \<le> d" by linarith
          then show ?thesis using False that(4) by simp
        qed
      qed
    qed
  qed
  then show ?thesis
  proof cases
    case 1
    then show ?thesis using eq by (simp add: utf8_code_def)
  next
    case 2
    then have "c div 64 = d div 64" "c mod 64 = d mod 64" "xs = ys" using eq by (simp_all add: utf8_code_def)
    then show ?thesis by (metis div_mult_mod_eq)
  next
    case 3
    then have *: "c div 4096 = d div 4096" "c div 64 mod 64 = d div 64 mod 64" "c mod 64 = d mod 64" "xs = ys"
      using eq by (simp_all add: utf8_code_def)
    have n: "n = (n div 4096 * 64 + n div 64 mod 64) * 64 + n mod 64" for n :: nat
    proof -
      have e: "n div 4096 = n div 64 div 64" by (simp flip: div_mult2_eq)
      show ?thesis by (simp only: e div_mult_mod_eq)
    qed
    have "c = d" by (subst n [of c], subst n [of d]) (simp only: *)
    with *(4) show ?thesis by simp
  next
    case 4
    then have *: "c div 262144 = d div 262144" "c div 4096 mod 64 = d div 4096 mod 64"
      "c div 64 mod 64 = d div 64 mod 64" "c mod 64 = d mod 64" "xs = ys"
      using eq by (simp_all add: utf8_code_def)
    have n: "n = ((n div 262144 * 64 + n div 4096 mod 64) * 64 + n div 64 mod 64) * 64 + n mod 64" for n :: nat
    proof -
      have e: "n div 4096 = n div 64 div 64" "n div 262144 = n div 64 div 64 div 64"
        by (simp_all flip: div_mult2_eq)
      show ?thesis by (simp only: e div_mult_mod_eq)
    qed
    have "c = d" by (subst n [of c], subst n [of d]) (simp only: *)
    with *(5) show ?thesis by simp
  qed
qed

lemma concat_utf8_inj:
  "\<forall>c\<in>set s. scalar c \<Longrightarrow> \<forall>c\<in>set t. scalar c \<Longrightarrow>
    concat (map utf8_code s) = concat (map utf8_code t) \<Longrightarrow> s = t"
proof (induction s arbitrary: t)
  case Nil
  have "utf8_code d \<noteq> []" for d by (simp add: utf8_code_def)
  then show ?case using Nil.prems(3) by (cases t) simp_all
next
  case (Cons c s)
  have "utf8_code d \<noteq> []" for d by (simp add: utf8_code_def)
  then obtain d t' where t: "t = d # t'" using Cons.prems(3) by (cases t) simp_all
  have "c = d \<and> concat (map utf8_code s) = concat (map utf8_code t')"
    using Cons.prems(1,2,3) unfolding t by (intro utf8_code_prefix_free) simp_all
  moreover from this have "s = t'" using Cons.prems(1,2) by (intro Cons.IH) (simp_all add: t)
  ultimately show ?case by (simp add: t)
qed

lemma utf8_inj:
  assumes "\<forall>c\<in>set s. scalar c" "\<forall>c\<in>set t. scalar c" "utf8 s = utf8 t"
  shows "s = t"
proof -
  let ?A = "set (concat (map utf8_code s)) \<union> set (concat (map utf8_code t))"
  have small: "n < 256" if "n \<in> ?A" for n using that assms(1,2) utf8_code_bytes by auto
  have "inj_on (of_nat :: nat \<Rightarrow> byte) ?A"
  proof (rule inj_onI)
    fix m n assume "m \<in> ?A" "n \<in> ?A" "(of_nat m :: byte) = of_nat n"
    then have "unat (of_nat m :: byte) = unat (of_nat n :: byte)" and mn: "m < 256" "n < 256"
      using small by simp_all
    then show "m = n" by (simp only: unat_of_nat_byte [OF mn(1)] unat_of_nat_byte [OF mn(2)])
  qed
  then have "concat (map utf8_code s) = concat (map utf8_code t)"
    by (rule map_inj_on [OF assms(3) [unfolded utf8_def]])
  then show ?thesis using concat_utf8_inj assms(1,2) by blast
qed

section \<open>Properties\<close>

text \<open>
  The hex form of a hash is a faithful key: \<open>Hash::from_str\<close> reads back what \<open>to_hex\<close>
  wrote, and whatever string it accepts is, up to ASCII letter case, the hex form of the 32
  byte hash it returns; every other string is \<open>InvalidHashHex\<close> with the input in it.
\<close>

theorem hash_hex_roundtrip:
  assumes "hash_ok h" and "\<forall>c\<in>set s. scalar c"
  shows "hash_from_str (to_hex h) = Inr h \<and>
    (case hash_from_str s of
       Inr g \<Rightarrow> hash_ok g \<and> to_hex g = to_ascii_lowercase s
     | Inl e \<Rightarrow> e = InvalidHashHex s)"
proof -
  have "e = InvalidHashHex s" if "hash_from_str s = Inl e" for e
    using that by (auto simp: hash_from_str_def split: if_splits)
  then show ?thesis
    using hash_from_str_to_hex [OF assms(1)] hash_from_str_InrD [OF _ assms(2)]
    by (auto split: sum.splits)
qed

theorem hash_hex_roundtrip_witness:
  "hash_from_str (to_hex (replicate 32 0xAB)) = Inr (replicate 32 0xAB) \<and>
    hash_from_str (concat (replicate 32 (lit ''Ab''))) = Inr (replicate 32 0xAB)"
proof -
  have "\<forall>c\<in>set (concat (replicate 32 (lit ''Ab''))). scalar c" by (simp add: scalar_def)
  from hash_hex_roundtrip [OF _ this, of "replicate 32 0xAB"]
  have "hash_from_str (to_hex (replicate 32 0xAB)) = Inr (replicate 32 0xAB)"
    by (simp add: hash_ok_def)
  moreover have "hash_from_str (concat (replicate 32 (lit ''Ab''))) = Inr (replicate 32 0xAB)"
    by code_simp
  ultimately show ?thesis by simp
qed

end
