(* ===== verification/NetDomain.thy ===== *)
theory NetDomain
  imports CoreHash
begin

text \<open>
  \<open>crates/netproto/src/bucket.rs\<close>: hash domains and how a requested domain is resolved, the
  advertised capabilities (\<open>Caps\<close>) and the query widths derived from them, and the data
  that bucket responses carry.  \<open>u32\<close>, \<open>u64\<close> and \<open>usize\<close> fields that are only compared
  are natural numbers.  \<open>Caps::serve_hint\<close> is left out: no modelled operation reads it.
\<close>

section \<open>Hash domains\<close>

datatype pull_mode = Bucketed nat | WholeRepo

datatype hash_domain = Blake3 | Sha256

fun domain_as_str :: "hash_domain \<Rightarrow> ustring" where
  "domain_as_str Blake3 = lit ''blake3''"
| "domain_as_str Sha256 = lit ''sha256''"

text \<open>\<open>HashDomain::from_str\<close>; the error carries the trimmed input.\<close>

definition domain_from_str :: "ustring \<Rightarrow> ustring + hash_domain" where
  "domain_from_str s =
     (let l = to_ascii_lowercase (trim s)
      in if l = lit ''blake3'' then Inr Blake3
         else if l = lit ''sha256'' then Inr Sha256
         else Inl (trim s))"

definition lenient_hash_domains :: "ustring list \<Rightarrow> hash_domain list" where
  "lenient_hash_domains raw = List.map_filter (\<lambda>s. result_ok (domain_from_str s)) raw"

section \<open>Capabilities\<close>

record caps =
  caps_version :: nat
  caps_mode :: pull_mode
  relation_incremental :: bool
  mapping_incremental :: bool
  caps_reports :: bool
  repo_key :: "ustring option"
  caps_hash_domain :: hash_domain
  hash_domains :: "hash_domain list"
  incremental_domains :: "ustring list option"
  server_version :: "ustring option"
  streaming :: bool
  min_query_bits :: "nat option"
  caps_count :: "nat option"
  caps_store_generation :: "ustring option"
  caps_name :: "ustring option"

definition caps_domains :: "caps \<Rightarrow> hash_domain list" where
  "caps_domains c = (if hash_domains c = [] then [caps_hash_domain c] else hash_domains c)"

definition serves :: "caps \<Rightarrow> hash_domain \<Rightarrow> bool" where
  "serves c d = (if hash_domains c = [] then caps_hash_domain c = d else d \<in> set (hash_domains c))"

definition wire_domain :: "caps \<Rightarrow> hash_domain \<Rightarrow> hash_domain option" where
  "wire_domain c d = (if hash_domains c \<noteq> [] \<and> serves c d then Some d else None)"

definition snapshot_inferred :: "caps \<Rightarrow> bool" where
  "snapshot_inferred c \<longleftrightarrow> Sha256 \<in> set (hash_domains c) \<and>
     \<not> (case incremental_domains c of
          None \<Rightarrow> False
        | Some d \<Rightarrow> list_ex (\<lambda>s. s = domain_as_str Sha256) d)"

definition serves_deltas :: "caps \<Rightarrow> hash_domain \<Rightarrow> bool" where
  "serves_deltas c d =
     (case incremental_domains c of
        Some ds \<Rightarrow> list_ex (\<lambda>s. s = domain_as_str d) ds
      | None \<Rightarrow> mapping_incremental c \<and> d = caps_hash_domain c)"

section \<open>Resolving a requested domain\<close>

datatype domain_error =
    Unrecognized ustring "hash_domain list"
  | NotServed hash_domain "hash_domain list"

definition requested_domain :: "ustring option \<Rightarrow> hash_domain option" where
  "requested_domain raw =
     (case raw of
        None \<Rightarrow> None
      | Some r \<Rightarrow> let s = trim r in if s = [] then None else result_ok (domain_from_str s))"

definition resolve_domain ::
  "ustring option \<Rightarrow> hash_domain list \<Rightarrow> hash_domain \<Rightarrow> domain_error + hash_domain" where
  "resolve_domain requested served fallback =
     (case requested of
        None \<Rightarrow> Inr fallback
      | Some raw \<Rightarrow>
          (let trimmed = trim raw
           in if trimmed = [] then Inr fallback
              else
                (case domain_from_str trimmed of
                   Inl _ \<Rightarrow> Inl (Unrecognized trimmed served)
                 | Inr d \<Rightarrow> if d \<in> set served then Inr d else Inl (NotServed d served))))"

fun join_comma :: "ustring list \<Rightarrow> ustring" where
  "join_comma [] = []"
| "join_comma [w] = w"
| "join_comma (w # v # ws) = w @ lit '', '' @ join_comma (v # ws)"

definition domain_list :: "hash_domain list \<Rightarrow> ustring" where
  "domain_list served = join_comma (map domain_as_str served)"

section \<open>What bucket responses carry\<close>

datatype mapping_status = Current | Deleted

record delta_mapping =
  dm_hash :: ustring
  dm_tag :: ustring
  dm_status :: mapping_status
  dm_seq :: int
  dm_origin :: "ustring option"

record origin_tag =
  ot_tag :: ustring
  ot_origin :: "ustring option"

record bucket_request =
  br_version :: nat
  br_prefix_bits :: nat
  br_buckets :: "ustring list"
  br_since :: "nat list option"
  br_domain :: "ustring option"
  br_stream :: bool
  br_resume_at :: "ustring option"

datatype stream_trailer = Done bool | More ustring | Err ustring

section \<open>Query widths\<close>

definition effective_prefix_bits :: "nat \<Rightarrow> nat \<Rightarrow> nat" where
  "effective_prefix_bits advertised ceiling = min advertised ceiling"

definition effective_prefix_bits_floored :: "nat \<Rightarrow> nat \<Rightarrow> nat option \<Rightarrow> nat" where
  "effective_prefix_bits_floored advertised ceiling floor0 =
     (let base = min advertised ceiling
      in case floor0 of
           Some f \<Rightarrow> min (max base f) advertised
         | None \<Rightarrow> base)"

section \<open>Facts\<close>

lemma trim_idem [simp]: "trim (trim s) = trim s"
  using trim_empty_or_edge [of s] by auto

lemma requested_resolves:
  "resolve_domain raw served fallback = Inr d \<Longrightarrow>
    d = (case requested_domain raw of Some r \<Rightarrow> r | None \<Rightarrow> fallback)"
  by (auto simp: resolve_domain_def requested_domain_def Let_def
      split: option.splits sum.splits if_splits)

lemma resolved_is_served:
  "fallback \<in> set served \<Longrightarrow> resolve_domain raw served fallback = Inr d \<Longrightarrow> d \<in> set served"
  by (auto simp: resolve_domain_def Let_def split: option.splits sum.splits if_splits)

lemma domain_from_as_str: "domain_from_str (domain_as_str d) = Inr d"
  by (cases d) (simp_all add: domain_from_str_def str_eval)

lemma list_ex_eq: "list_ex (\<lambda>s. s = x) xs \<longleftrightarrow> x \<in> set xs"
  by (auto simp: list_ex_iff)

section \<open>Properties\<close>

text \<open>
  The resolved hash domain is a function of the domain that the request signature binds:
  whenever a request resolves, the result is the requested domain as the canonical frame sees
  it, or the repository's own domain when the request names none; it is always a domain the
  repository serves; and a request that names a domain fails exactly when the name is not a
  domain or the domain is not served, never with an empty success.
\<close>

theorem resolve_domain_pinned:
  assumes "fallback \<in> set served"
  shows "case resolve_domain raw served fallback of
      Inr d \<Rightarrow> d \<in> set served \<and> d = (case requested_domain raw of Some r \<Rightarrow> r | None \<Rightarrow> fallback)
    | Inl (Unrecognized s ds) \<Rightarrow> requested_domain raw = None \<and> (\<exists>r. raw = Some r \<and> s = trim r \<and> s \<noteq> []) \<and> ds = served
    | Inl (NotServed d ds) \<Rightarrow> requested_domain raw = Some d \<and> d \<notin> set served \<and> ds = served"
proof (cases "resolve_domain raw served fallback")
  case (Inr d)
  then show ?thesis using requested_resolves [OF Inr] resolved_is_served [OF assms Inr] by simp
next
  case (Inl e)
  then show ?thesis
    by (auto simp: resolve_domain_def requested_domain_def Let_def
        split: option.splits sum.splits if_splits)
qed

theorem resolve_domain_pinned_witness:
  "case resolve_domain (Some (lit '' SHA256'')) [Blake3] Blake3 of
      Inr d \<Rightarrow> False
    | Inl (Unrecognized s ds) \<Rightarrow> False
    | Inl (NotServed d ds) \<Rightarrow> d \<notin> set [Blake3]"
  using resolve_domain_pinned [of Blake3 "[Blake3]" "Some (lit '' SHA256'')"]
  by (simp add: resolve_domain_def domain_from_str_def str_eval)

text \<open>
  The query width a client uses on a floored domain: it is never finer than advertised,
  never coarser than the plain \<open>min\<close> of advertisement and privacy ceiling, at least the
  server's floor when the floor is itself servable, and equal to the plain width when the
  floor asks for nothing more, so it exceeds the client's ceiling only up to the floor.
\<close>

theorem prefix_bits_floored_range:
  "effective_prefix_bits advertised ceiling \<le> effective_prefix_bits_floored advertised ceiling fl \<and>
   effective_prefix_bits_floored advertised ceiling fl \<le> advertised \<and>
   (case fl of
      None \<Rightarrow> effective_prefix_bits_floored advertised ceiling fl = effective_prefix_bits advertised ceiling
    | Some f \<Rightarrow> min f advertised \<le> effective_prefix_bits_floored advertised ceiling fl \<and>
        effective_prefix_bits_floored advertised ceiling fl \<le> max ceiling f)"
  by (auto simp: effective_prefix_bits_def effective_prefix_bits_floored_def Let_def split: option.splits)

text \<open>
  What capabilities promise: a domain goes on the wire exactly when the repository lists
  domains and serves it; the served domains are the normalised list, which is never empty; and
  a repository whose capabilities look snapshot-backed never gets a \<open>since\<close> vector for SHA-256
  unless it is an old one that advertises incremental mappings natively in SHA-256.
\<close>

theorem caps_serving:
  "(serves c d \<longleftrightarrow> d \<in> set (caps_domains c)) \<and> caps_domains c \<noteq> [] \<and>
   (wire_domain c d = Some d' \<longleftrightarrow> d' = d \<and> hash_domains c \<noteq> [] \<and> d \<in> set (caps_domains c)) \<and>
   (snapshot_inferred c \<and> serves_deltas c Sha256 \<longrightarrow>
      incremental_domains c = None \<and> mapping_incremental c \<and> caps_hash_domain c = Sha256)"
  by (auto simp: serves_def caps_domains_def wire_domain_def snapshot_inferred_def serves_deltas_def
      list_ex_eq split: option.splits)

definition dual_caps :: caps where
  "dual_caps = \<lparr>caps_version = 8, caps_mode = WholeRepo, relation_incremental = True,
      mapping_incremental = True, caps_reports = True, repo_key = None, caps_hash_domain = Blake3,
      hash_domains = [Blake3, Sha256], incremental_domains = Some [lit ''blake3''],
      server_version = None, streaming = False, min_query_bits = None, caps_count = None,
      caps_store_generation = None, caps_name = None\<rparr>"

theorem caps_serving_witness:
  "wire_domain dual_caps Sha256 = Some Sha256 \<and>
    \<not> (snapshot_inferred dual_caps \<and> serves_deltas dual_caps Sha256)"
  using caps_serving [of dual_caps Sha256 Sha256] by (simp add: dual_caps_def caps_domains_def)

end
