(* ===== verification/NetSign.thy ===== *)
theory NetSign
  imports NetDomain
begin

text \<open>
  \<open>crates/netproto/src/sign.rs\<close>, \<open>auth.rs\<close> and the signed data of \<open>lib.rs\<close> and
  \<open>relation.rs\<close>: the canonical bytes of mapping submissions, relation submissions and
  authenticated requests, signing and verification.

  Ed25519, the \<open>hex\<close> crate and BLAKE3 are libraries: they are the record \<open>crypto\<close> of
  functions, a parameter of every definition that uses them.  \<open>crypto_ok\<close> states what is
  documented of them: decoding inverts encoding, encoded keys and signatures have their
  lengths, a digest is 64 ASCII characters in hex, and a signature verifies under the key that
  made it.  The lemmas show that the
  canonical frames are injective and separated from each other, that what \<open>Account\<close> signs is
  accepted, and what acceptance implies.
\<close>

section \<open>Library functions\<close>

record crypto =
  hex_encode :: "byte list \<Rightarrow> ustring"
  hex_decode :: "ustring \<Rightarrow> byte list option"
  public_key :: "byte list \<Rightarrow> byte list"
  valid_point :: "byte list \<Rightarrow> bool"
  ed_sign :: "byte list \<Rightarrow> byte list \<Rightarrow> byte list"
  ed_verify_strict :: "byte list \<Rightarrow> byte list \<Rightarrow> byte list \<Rightarrow> bool"
  blake3_hex :: "byte list \<Rightarrow> ustring"

definition crypto_ok :: "crypto \<Rightarrow> bool" where
  "crypto_ok C \<longleftrightarrow> (\<forall>b. hex_decode C (hex_encode C b) = Some b) \<and>
     (\<forall>sk. length sk = 32 \<longrightarrow> length (public_key C sk) = 32 \<and> valid_point C (public_key C sk)) \<and>
     (\<forall>sk m. length sk = 32 \<longrightarrow> length (ed_sign C sk m) = 64 \<and>
        ed_verify_strict C (public_key C sk) m (ed_sign C sk m)) \<and>
     (\<forall>b. length (blake3_hex C b) = 64 \<and> (\<forall>c\<in>set (blake3_hex C b). c < 128))"

section \<open>Signed data\<close>

definition PROTOCOL_VERSION :: nat where "PROTOCOL_VERSION = 8"

definition MIN_SUPPORTED_VERSION :: nat where "MIN_SUPPORTED_VERSION = 8"

definition MAX_ORIGIN_LEN :: nat where "MAX_ORIGIN_LEN = 128"

definition AUTH_FRESHNESS_SECS :: int where "AUTH_FRESHNESS_SECS = 300"

datatype op = Add | Remove

fun op_as_str :: "op \<Rightarrow> ustring" where
  "op_as_str Add = lit ''add''"
| "op_as_str Remove = lit ''remove''"

datatype rel_kind = Sibling | Parent

fun kind_as_str :: "rel_kind \<Rightarrow> ustring" where
  "kind_as_str Sibling = lit ''sibling''"
| "kind_as_str Parent = lit ''parent''"

record submission =
  sub_version :: nat
  sub_op :: op
  sub_hash :: ustring
  sub_tag :: ustring
  sub_author :: ustring
  sub_signature :: ustring
  sub_origin :: "ustring option"

record relation_submission =
  rsub_version :: nat
  rsub_op :: op
  rsub_kind :: rel_kind
  rsub_from :: ustring
  rsub_to :: ustring
  rsub_author :: ustring
  rsub_signature :: ustring
  rsub_origin :: "ustring option"

datatype sign_error =
    UnsupportedVersion nat
  | HashInvalid core_error
  | HashNotCanonical
  | TagInvalid core_error
  | TagNotNormalized
  | OriginTooLong nat
  | OriginBlank
  | OriginControl
  | SelfEdge
  | KeyNotHex
  | KeyNot32
  | KeyInvalid
  | SigNotHex
  | SigNot64
  | SignatureMismatch
  | StaleTimestamp

definition ensure_supported :: "nat \<Rightarrow> sign_error + unit" where
  "ensure_supported v =
     (if MIN_SUPPORTED_VERSION \<le> v \<and> v \<le> PROTOCOL_VERSION then Inr () else Inl (UnsupportedVersion v))"

section \<open>Canonical bytes\<close>

definition frame_origin :: "ustring option \<Rightarrow> ustring" where
  "frame_origin origin =
     (case origin of None \<Rightarrow> lit ''-'' | Some o1 \<Rightarrow> dec (str_len o1) @ lit '':'' @ o1)"

definition NL :: uchar where "NL = 10"

definition canonical_text :: "op \<Rightarrow> ustring \<Rightarrow> ustring \<Rightarrow> ustring option \<Rightarrow> ustring" where
  "canonical_text op hash tg origin =
     lit ''naiad-sub:v'' @ dec PROTOCOL_VERSION @ NL # op_as_str op @ NL # hash @ NL # tg @ NL # frame_origin origin"

definition canonical_bytes :: "op \<Rightarrow> ustring \<Rightarrow> ustring \<Rightarrow> ustring option \<Rightarrow> byte list" where
  "canonical_bytes op hash tg origin = utf8 (canonical_text op hash tg origin)"

definition relation_canonical_text :: "op \<Rightarrow> rel_kind \<Rightarrow> ustring \<Rightarrow> ustring \<Rightarrow> ustring" where
  "relation_canonical_text op kind frm to =
     lit ''naiad-rel:v'' @ dec PROTOCOL_VERSION @ NL # op_as_str op @ NL # kind_as_str kind @ NL # frm @ NL # to"

definition relation_canonical_bytes :: "op \<Rightarrow> rel_kind \<Rightarrow> ustring \<Rightarrow> ustring \<Rightarrow> byte list" where
  "relation_canonical_bytes op kind frm to = utf8 (relation_canonical_text op kind frm to)"

text \<open>\<open>Display\<close> of an \<open>i64\<close>.\<close>

definition dec_int :: "int \<Rightarrow> ustring" where
  "dec_int i = (if i < 0 then lit ''-'' @ dec (nat (- i)) else dec (nat i))"

definition auth_canonical_text ::
  "crypto \<Rightarrow> ustring \<Rightarrow> ustring \<Rightarrow> hash_domain option \<Rightarrow> int \<Rightarrow> byte list \<Rightarrow> ustring" where
  "auth_canonical_text C method path domain timestamp body =
     lit ''naiad-auth:v'' @ dec PROTOCOL_VERSION @ NL # method @ NL # path @ NL #
       (case domain of None \<Rightarrow> [] | Some d \<Rightarrow> domain_as_str d) @ NL # dec_int timestamp @ NL #
       blake3_hex C body"

definition auth_canonical_bytes ::
  "crypto \<Rightarrow> ustring \<Rightarrow> ustring \<Rightarrow> hash_domain option \<Rightarrow> int \<Rightarrow> byte list \<Rightarrow> byte list" where
  "auth_canonical_bytes C method path domain timestamp body =
     utf8 (auth_canonical_text C method path domain timestamp body)"

section \<open>Accounts: signing\<close>

text \<open>An \<open>Account\<close> is its 32-byte secret seed.\<close>

definition public_hex :: "crypto \<Rightarrow> byte list \<Rightarrow> ustring" where
  "public_hex C acct = hex_encode C (public_key C acct)"

definition sign_with_origin ::
  "crypto \<Rightarrow> byte list \<Rightarrow> op \<Rightarrow> hash \<Rightarrow> tag \<Rightarrow> ustring option \<Rightarrow> submission" where
  "sign_with_origin C acct op h t origin =
     (let hash = to_hex h;
          tg = tag_display t;
          sig = ed_sign C acct (canonical_bytes op hash tg origin)
      in \<lparr>sub_version = PROTOCOL_VERSION, sub_op = op, sub_hash = hash, sub_tag = tg,
          sub_author = public_hex C acct, sub_signature = hex_encode C sig, sub_origin = origin\<rparr>)"

definition sign :: "crypto \<Rightarrow> byte list \<Rightarrow> op \<Rightarrow> hash \<Rightarrow> tag \<Rightarrow> submission" where
  "sign C acct op h t = sign_with_origin C acct op h t None"

definition sign_relation ::
  "crypto \<Rightarrow> byte list \<Rightarrow> op \<Rightarrow> rel_kind \<Rightarrow> tag \<Rightarrow> tag \<Rightarrow> relation_submission" where
  "sign_relation C acct op kind frm to =
     (let frm = tag_display frm;
          to = tag_display to;
          sig = ed_sign C acct (relation_canonical_bytes op kind frm to)
      in \<lparr>rsub_version = PROTOCOL_VERSION, rsub_op = op, rsub_kind = kind, rsub_from = frm, rsub_to = to,
          rsub_author = public_hex C acct, rsub_signature = hex_encode C sig, rsub_origin = None\<rparr>)"

definition sign_auth ::
  "crypto \<Rightarrow> byte list \<Rightarrow> ustring \<Rightarrow> ustring \<Rightarrow> hash_domain option \<Rightarrow> int \<Rightarrow> byte list \<Rightarrow> ustring" where
  "sign_auth C acct method path domain timestamp body =
     hex_encode C (ed_sign C acct (auth_canonical_bytes C method path domain timestamp body))"

section \<open>Verification\<close>

definition decode_verifying_key :: "crypto \<Rightarrow> ustring \<Rightarrow> sign_error + byte list" where
  "decode_verifying_key C s =
     (case hex_decode C s of
        None \<Rightarrow> Inl KeyNotHex
      | Some bytes \<Rightarrow>
          if length bytes \<noteq> 32 then Inl KeyNot32
          else if valid_point C bytes then Inr bytes
          else Inl KeyInvalid)"

definition decode_signature :: "crypto \<Rightarrow> ustring \<Rightarrow> sign_error + byte list" where
  "decode_signature C s =
     (case hex_decode C s of
        None \<Rightarrow> Inl SigNotHex
      | Some bytes \<Rightarrow> if length bytes \<noteq> 64 then Inl SigNot64 else Inr bytes)"

definition verify_bytes :: "crypto \<Rightarrow> ustring \<Rightarrow> ustring \<Rightarrow> byte list \<Rightarrow> sign_error + unit" where
  "verify_bytes C author signature msg =
     and_then (decode_verifying_key C author) (\<lambda>key.
     and_then (decode_signature C signature) (\<lambda>sig.
       if ed_verify_strict C key msg sig then Inr () else Inl SignatureMismatch))"

definition verify_origin :: "ustring option \<Rightarrow> sign_error + unit" where
  "verify_origin origin =
     (case origin of
        None \<Rightarrow> Inr ()
      | Some o1 \<Rightarrow>
          if MAX_ORIGIN_LEN < str_len o1 then Inl (OriginTooLong (str_len o1))
          else if trim o1 = [] then Inl OriginBlank
          else if list_ex (\<lambda>c. c < 0x20 \<or> c = 0x7F) o1 then Inl OriginControl
          else Inr ())"

definition verify :: "(ustring \<Rightarrow> ustring) \<Rightarrow> crypto \<Rightarrow> submission \<Rightarrow> sign_error + unit" where
  "verify lc C sub =
     and_then (ensure_supported (sub_version sub)) (\<lambda>_.
       case hash_from_str (sub_hash sub) of
         Inl e \<Rightarrow> Inl (HashInvalid e)
       | Inr parsed_hash \<Rightarrow>
           if to_hex parsed_hash \<noteq> sub_hash sub then Inl HashNotCanonical
           else
             (case tag_parse lc (sub_tag sub) of
                Inl e \<Rightarrow> Inl (TagInvalid e)
              | Inr t \<Rightarrow>
                  if tag_display t \<noteq> sub_tag sub then Inl TagNotNormalized
                  else
                    and_then (verify_origin (sub_origin sub)) (\<lambda>_.
                      verify_bytes C (sub_author sub) (sub_signature sub)
                        (canonical_bytes (sub_op sub) (sub_hash sub) (sub_tag sub) (sub_origin sub)))))"

definition verify_relation :: "(ustring \<Rightarrow> ustring) \<Rightarrow> crypto \<Rightarrow> relation_submission \<Rightarrow> sign_error + unit" where
  "verify_relation lc C sub =
     and_then (ensure_supported (rsub_version sub)) (\<lambda>_.
       case tag_parse lc (rsub_from sub) of
         Inl e \<Rightarrow> Inl (TagInvalid e)
       | Inr frm \<Rightarrow>
           if tag_display frm \<noteq> rsub_from sub then Inl TagNotNormalized
           else
             (case tag_parse lc (rsub_to sub) of
                Inl e \<Rightarrow> Inl (TagInvalid e)
              | Inr to \<Rightarrow>
                  if tag_display to \<noteq> rsub_to sub then Inl TagNotNormalized
                  else if rsub_from sub = rsub_to sub then Inl SelfEdge
                  else
                    verify_bytes C (rsub_author sub) (rsub_signature sub)
                      (relation_canonical_bytes (rsub_op sub) (rsub_kind sub) (rsub_from sub) (rsub_to sub))))"

definition validate_key_hex :: "crypto \<Rightarrow> ustring \<Rightarrow> sign_error + unit" where
  "validate_key_hex C key = and_then (decode_verifying_key C key) (\<lambda>_. Inr ())"

text \<open>\<open>i64::saturating_sub\<close> and \<open>i64::saturating_abs\<close>.\<close>

definition clamp_i64 :: "int \<Rightarrow> int" where
  "clamp_i64 i = (if i < - (2 ^ 63) then - (2 ^ 63) else if 2 ^ 63 - 1 < i then 2 ^ 63 - 1 else i)"

definition saturating_sub_i64 :: "int \<Rightarrow> int \<Rightarrow> int" where
  "saturating_sub_i64 a b = clamp_i64 (a - b)"

definition saturating_abs_i64 :: "int \<Rightarrow> int" where
  "saturating_abs_i64 a = clamp_i64 \<bar>a\<bar>"

definition verify_auth ::
  "crypto \<Rightarrow> ustring \<Rightarrow> ustring \<Rightarrow> ustring \<Rightarrow> ustring \<Rightarrow> hash_domain option \<Rightarrow> int \<Rightarrow> int \<Rightarrow> byte list \<Rightarrow>
     sign_error + unit" where
  "verify_auth C key_hex sig_hex method path domain timestamp now body =
     (if AUTH_FRESHNESS_SECS < saturating_abs_i64 (saturating_sub_i64 now timestamp) then Inl StaleTimestamp
      else verify_bytes C key_hex sig_hex (auth_canonical_bytes C method path domain timestamp body))"

section \<open>No field but the last has a line break\<close>

lemma join_sp_ws: "\<forall>w\<in>set ws. word_ok w \<Longrightarrow> c \<in> set (join_sp ws) \<Longrightarrow> is_ws c \<Longrightarrow> c = 32"
  by (induction ws rule: join_sp.induct) (auto simp: word_ok_def)

lemma squeeze_ws: "c \<in> set (squeeze s) \<Longrightarrow> is_ws c \<Longrightarrow> c = 32"
  unfolding squeeze_def using split_whitespace_ok join_sp_ws by blast

lemma normal_ws: "lower_like lc \<Longrightarrow> normal lc s \<Longrightarrow> c \<in> set s \<Longrightarrow> is_ws c \<Longrightarrow> c = 32"
  using squeeze_ws [of c "tag_normalize lc s"]
  by (simp add: normal_def normalize_squeeze lower_squeeze) (metis lower_squeeze squeeze_ws)

lemma NL_ws [simp]: "is_ws NL"
  by (simp add: NL_def is_ws_def)

lemma tag_no_NL: "lower_like lc \<Longrightarrow> tag_wf lc t \<Longrightarrow> NL \<notin> set (tag_display t)"
  using normal_ws [of lc "namespace t" NL] normal_ws [of lc "subtag t" NL] NL_ws
  by (auto simp: tag_display_def tag_wf_def simp del: NL_ws) (auto simp: NL_def is_ws_def)

lemma hex_digits: "c \<in> set (to_hex h) \<Longrightarrow> 48 \<le> c \<and> c < 103"
proof (induction h)
  case (Cons b h)
  have "48 \<le> from_digit16 d" for d by (simp add: from_digit16_def)
  then show ?case using Cons nibble_digit(2,5) by (auto simp: to_hex_Cons)
qed simp

lemma hex_no_NL: "NL \<notin> set (to_hex h)"
  using hex_digits [of NL h] by (auto simp: NL_def)

lemma op_no_NL [simp]: "NL \<notin> set (op_as_str op)" "op_as_str op = op_as_str op' \<longleftrightarrow> op = op'"
  by (cases op; simp add: NL_def) (cases op; cases op'; simp)

lemma kind_no_NL [simp]: "NL \<notin> set (kind_as_str k)" "kind_as_str k = kind_as_str k' \<longleftrightarrow> k = k'"
  by (cases k; simp add: NL_def) (cases k; cases k'; simp)

definition domain_field :: "hash_domain option \<Rightarrow> ustring" where
  "domain_field d = (case d of None \<Rightarrow> [] | Some d \<Rightarrow> domain_as_str d)"

lemma domain_as_str_inj: "domain_as_str a = domain_as_str b \<longleftrightarrow> a = b"
  by (cases a; cases b) simp_all

lemma domain_field [simp]: "NL \<notin> set (domain_field d)" "domain_field d = domain_field d' \<longleftrightarrow> d = d'"
proof -
  have "NL \<notin> set (domain_as_str x)" "domain_as_str x \<noteq> []" "[] \<noteq> domain_as_str x" for x
    by (cases x; simp add: NL_def)+
  then show "NL \<notin> set (domain_field d)" "domain_field d = domain_field d' \<longleftrightarrow> d = d'"
    by (cases d; cases d'; simp add: domain_field_def domain_as_str_inj)+
qed

lemma dec_no: "c < 48 \<or> 57 < c \<Longrightarrow> c \<notin> set (dec n)"
  using dec_digits [of c n] by (auto simp: is_ascii_digit_def)

lemma dec_int_no_NL [simp]: "NL \<notin> set (dec_int i)"
  by (simp add: dec_int_def dec_no NL_def)

lemma dec_int_inj [simp]: "dec_int i = dec_int j \<longleftrightarrow> i = j"
proof
  have neg: "45 # s \<noteq> dec n" for s n
    using dec_no [of 45 n] by (cases "dec n") auto
  assume "dec_int i = dec_int j"
  then show "i = j" using neg neg [symmetric]
    by (auto simp: dec_int_def split: if_splits)
qed simp

lemma frame_origin_inj: "frame_origin a = frame_origin b \<longleftrightarrow> a = b"
proof
  have neg: "45 # s \<noteq> dec n @ t" for s t n
    using dec_no [of 45 n] by (cases "dec n") auto
  assume eq: "frame_origin a = frame_origin b"
  show "a = b"
  proof (cases a; cases b)
    fix x y assume ab: "a = Some x" "b = Some y"
    then have "dec (str_len x) @ 58 # x = dec (str_len y) @ 58 # y" using eq by (simp add: frame_origin_def)
    then show ?thesis using append_at_sep [of 58 "dec (str_len x)" "dec (str_len y)"] ab by (simp add: dec_no)
  qed (use eq neg neg [symmetric] in \<open>auto simp: frame_origin_def\<close>)
qed simp

section \<open>The frames are injective and apart\<close>

definition valid_str :: "ustring \<Rightarrow> bool" where
  "valid_str s \<longleftrightarrow> (\<forall>c\<in>set s. scalar c)"

lemma valid_str_simps [simp]:
  "valid_str []" "valid_str (c # s) \<longleftrightarrow> scalar c \<and> valid_str s"
  "valid_str (s @ t) \<longleftrightarrow> valid_str s \<and> valid_str t"
  by (auto simp: valid_str_def)

lemma scalar_ascii: "c < 128 \<Longrightarrow> scalar c"
  by (simp add: scalar_def)

lemma valid_str_ascii: "(\<And>c. c \<in> set s \<Longrightarrow> c < 128) \<Longrightarrow> valid_str s"
  unfolding valid_str_def by (blast intro: scalar_ascii)

lemma valid_str_parts [simp]: "scalar NL" "valid_str (dec n)" "valid_str (op_as_str op)" "valid_str (kind_as_str k)"
    "valid_str (domain_field d)" "valid_str (dec_int i)" "valid_str (to_hex h)"
proof -
  show nl: "scalar NL" by (simp add: NL_def scalar_def)
  show d: "valid_str (dec n)" for n by (rule valid_str_ascii) (auto dest!: dec_digits simp: is_ascii_digit_def)
  show "valid_str (op_as_str op)" by (cases op; simp add: scalar_def)
  show "valid_str (kind_as_str k)" by (cases k; simp add: scalar_def)
  have "valid_str (domain_as_str x)" for x by (cases x; simp add: scalar_def)
  then show "valid_str (domain_field d)" by (simp add: domain_field_def split: option.split)
  show "valid_str (dec_int i)" using d by (simp add: dec_int_def scalar_def)
  show "valid_str (to_hex h)" using hex_digits by (intro valid_str_ascii) fastforce
qed

lemma utf8_eq_iff: "valid_str s \<Longrightarrow> valid_str t \<Longrightarrow> utf8 s = utf8 t \<longleftrightarrow> s = t"
  using utf8_inj unfolding valid_str_def by blast

lemma valid_frame_origin [simp]: "pred_option valid_str o1 \<Longrightarrow> valid_str (frame_origin o1)"
  by (cases o1) (simp_all add: frame_origin_def scalar_def)

lemma valid_texts [simp]:
  "valid_str h \<Longrightarrow> valid_str t \<Longrightarrow> pred_option valid_str og \<Longrightarrow> valid_str (canonical_text op h t og)"
  "valid_str h \<Longrightarrow> valid_str t \<Longrightarrow> valid_str (relation_canonical_text op k h t)"
  by (simp_all add: canonical_text_def relation_canonical_text_def scalar_def NL_def)

lemma canonical_text_inj:
  assumes "NL \<notin> set h" "NL \<notin> set h'" "NL \<notin> set t" "NL \<notin> set t'"
  shows "canonical_text op h t og = canonical_text op' h' t' og' \<longleftrightarrow> op = op' \<and> h = h' \<and> t = t' \<and> og = og'"
  using assms by (simp add: canonical_text_def append_at_sep frame_origin_inj)

lemma relation_text_inj:
  assumes "NL \<notin> set f" "NL \<notin> set f'"
  shows "relation_canonical_text op k f t = relation_canonical_text op' k' f' t' \<longleftrightarrow> op = op' \<and> k = k' \<and> f = f' \<and> t = t'"
  using assms by (simp add: relation_canonical_text_def append_at_sep)

lemma auth_text_eq:
  "auth_canonical_text C m p d ts body = lit ''naiad-auth:v'' @ dec PROTOCOL_VERSION @ NL # m @ NL # p @ NL #
     domain_field d @ NL # dec_int ts @ NL # blake3_hex C body"
  by (simp add: auth_canonical_text_def domain_field_def)

lemma auth_text_inj:
  assumes "NL \<notin> set m" "NL \<notin> set m'" "NL \<notin> set p" "NL \<notin> set p'"
  shows "auth_canonical_text C m p d ts b = auth_canonical_text C m' p' d' ts' b' \<longleftrightarrow>
    m = m' \<and> p = p' \<and> d = d' \<and> ts = ts' \<and> blake3_hex C b = blake3_hex C b'"
  using assms by (simp add: auth_text_eq append_at_sep)

lemma frames_apart:
  "canonical_bytes op h t og \<noteq> relation_canonical_bytes op' k f t'"
  "canonical_bytes op h t og \<noteq> auth_canonical_bytes C m p d ts b"
  "relation_canonical_bytes op' k f t' \<noteq> auth_canonical_bytes C m p d ts b"
  by (simp_all add: canonical_bytes_def relation_canonical_bytes_def auth_canonical_bytes_def
      canonical_text_def relation_canonical_text_def auth_canonical_text_def utf8_ascii_Cons)

section \<open>Signing and verifying\<close>

lemma decode_own_key:
  "crypto_ok C \<Longrightarrow> length acct = 32 \<Longrightarrow> decode_verifying_key C (public_hex C acct) = Inr (public_key C acct)"
  by (simp add: decode_verifying_key_def public_hex_def crypto_ok_def)

lemma verify_own_bytes:
  "crypto_ok C \<Longrightarrow> length acct = 32 \<Longrightarrow>
    verify_bytes C (public_hex C acct) (hex_encode C (ed_sign C acct m)) m = Inr ()"
  by (simp add: verify_bytes_def decode_own_key decode_signature_def crypto_ok_def)

lemma supported [simp]: "ensure_supported PROTOCOL_VERSION = Inr ()"
  by (simp add: ensure_supported_def PROTOCOL_VERSION_def MIN_SUPPORTED_VERSION_def)

lemma verify_sign:
  assumes "lower_like lc" "crypto_ok C" "length acct = 32" "hash_ok h" "tag_wf lc t" "verify_origin og = Inr ()"
  shows "verify lc C (sign_with_origin C acct op h t og) = Inr ()"
  using assms
  by (simp add: verify_def sign_with_origin_def Let_def hash_from_str_to_hex tag_parse_display verify_own_bytes)

lemma tag_display_inj: "lower_like lc \<Longrightarrow> tag_wf lc t \<Longrightarrow> tag_wf lc u \<Longrightarrow> tag_display t = tag_display u \<longleftrightarrow> t = u"
  using tag_parse_display by (metis Inr_inject)

lemma verify_sign_relation:
  assumes "lower_like lc" "crypto_ok C" "length acct = 32" "tag_wf lc t" "tag_wf lc u" "t \<noteq> u"
  shows "verify_relation lc C (sign_relation C acct op k t u) = Inr ()"
  using assms
  by (simp add: verify_relation_def sign_relation_def Let_def tag_parse_display tag_display_inj verify_own_bytes)

lemma auth_stale_iff:
  "AUTH_FRESHNESS_SECS < saturating_abs_i64 (saturating_sub_i64 now ts) \<longleftrightarrow> AUTH_FRESHNESS_SECS < \<bar>now - ts\<bar>"
  by (auto simp: AUTH_FRESHNESS_SECS_def saturating_abs_i64_def saturating_sub_i64_def clamp_i64_def)

lemma verify_InrD:
  assumes lc: "lower_like lc" and v: "verify lc C sub = Inr ()"
  shows "sub_version sub = PROTOCOL_VERSION \<and> verify_origin (sub_origin sub) = Inr () \<and>
    (\<exists>h t. hash_from_str (sub_hash sub) = Inr h \<and> sub_hash sub = to_hex h \<and> tag_wf lc t \<and> sub_tag sub = tag_display t) \<and>
    verify_bytes C (sub_author sub) (sub_signature sub)
      (canonical_bytes (sub_op sub) (sub_hash sub) (sub_tag sub) (sub_origin sub)) = Inr ()"
  using v tag_parse_wf [OF lc]
  by (auto simp: verify_def and_then_Inr_iff ensure_supported_def PROTOCOL_VERSION_def MIN_SUPPORTED_VERSION_def
      split: sum.splits if_splits) metis

lemma hash_from_own_hex: "hash_from_str (to_hex h) = Inr g \<Longrightarrow> hash_ok h \<and> g = h"
  by (auto simp: hash_from_str_def hash_ok_def hex_pairs_to_hex split: if_splits)

section \<open>Properties\<close>

text \<open>A field of a canonical frame: a Rust string without a line break.\<close>

definition line_field :: "ustring \<Rightarrow> bool" where
  "line_field s \<longleftrightarrow> valid_str s \<and> NL \<notin> set s"

text \<open>
  C31. A signature covers one operation only.  Two mapping submissions, two relation
  submissions or two authenticated requests have the same canonical bytes only if all their
  fields agree (for a request, up to the digest of its body), where an absent origin differs
  from an empty one and from every tool name; and no bytes are a frame of two of the three
  kinds, so a signature cannot be replayed across them.
\<close>

theorem canonical_frames_bind:
  assumes "line_field h" "line_field h'" "line_field t" "line_field t'"
    and "pred_option valid_str og" "pred_option valid_str og'"
    and "line_field m" "line_field m'" "line_field p" "line_field p'" "crypto_ok C"
  shows "(canonical_bytes op h t og = canonical_bytes op' h' t' og' \<longleftrightarrow> op = op' \<and> h = h' \<and> t = t' \<and> og = og') \<and>
    (relation_canonical_bytes op k h t = relation_canonical_bytes op' k' h' t' \<longleftrightarrow> op = op' \<and> k = k' \<and> h = h' \<and> t = t') \<and>
    (auth_canonical_bytes C m p d ts b = auth_canonical_bytes C m' p' d' ts' b' \<longleftrightarrow>
       m = m' \<and> p = p' \<and> d = d' \<and> ts = ts' \<and> blake3_hex C b = blake3_hex C b') \<and>
    canonical_bytes op h t og \<noteq> relation_canonical_bytes op' k' h' t' \<and>
    canonical_bytes op h t og \<noteq> auth_canonical_bytes C m p d ts b \<and>
    relation_canonical_bytes op k h t \<noteq> auth_canonical_bytes C m p d ts b"
proof -
  have "valid_str (blake3_hex C b)" for b
    using assms(11) by (intro valid_str_ascii) (simp add: crypto_ok_def)
  then have "valid_str (auth_canonical_text C m p d ts b)" if "valid_str m" "valid_str p" for m p d ts b
    using that by (simp add: auth_text_eq scalar_def NL_def)
  then have auth: "auth_canonical_bytes C m p d ts b = auth_canonical_bytes C m' p' d' ts' b' \<longleftrightarrow>
       m = m' \<and> p = p' \<and> d = d' \<and> ts = ts' \<and> blake3_hex C b = blake3_hex C b'"
    using assms by (simp add: auth_canonical_bytes_def utf8_eq_iff auth_text_inj line_field_def)
  have bind: "canonical_bytes op h t og = canonical_bytes op' h' t' og' \<longleftrightarrow> op = op' \<and> h = h' \<and> t = t' \<and> og = og'"
    "relation_canonical_bytes op k h t = relation_canonical_bytes op' k' h' t' \<longleftrightarrow> op = op' \<and> k = k' \<and> h = h' \<and> t = t'"
    using assms by (simp_all add: canonical_bytes_def relation_canonical_bytes_def utf8_eq_iff
        canonical_text_inj relation_text_inj line_field_def)
  show ?thesis by (intro conjI bind auth frames_apart)
qed

text \<open>A concrete instance of the library functions, for the witnesses.\<close>

definition toy_crypto :: crypto where
  "toy_crypto = \<lparr>hex_encode = to_hex, hex_decode = (\<lambda>s. if odd (str_len s) then None else hex_pairs (utf8 s)),
     public_key = (\<lambda>sk. sk), valid_point = (\<lambda>_. True), ed_sign = (\<lambda>sk m. sk @ sk),
     ed_verify_strict = (\<lambda>pk m s. s = pk @ pk), blake3_hex = (\<lambda>_. replicate 64 48)\<rparr>"

lemma toy_crypto_ok: "crypto_ok toy_crypto"
  by (simp add: crypto_ok_def toy_crypto_def hex_pairs_to_hex)

theorem canonical_frames_bind_witness:
  "canonical_bytes Add (lit ''ab'') (lit ''x'') None \<noteq> canonical_bytes Add (lit ''ab'') (lit ''x'') (Some [])"
  using canonical_frames_bind [of "lit ''ab''" "lit ''ab''" "lit ''x''" "lit ''x''" None "Some []" "[]" "[]" "[]" "[]"
      toy_crypto Add Add] toy_crypto_ok
  by (simp add: line_field_def scalar_def NL_def)

text \<open>
  C33. What an account signs is accepted: a mapping submission for any hash and well-formed tag
  with an acceptable origin, and a relation submission between two different well-formed tags,
  pass verification.
\<close>

theorem signed_is_accepted:
  assumes "lower_like lc" "crypto_ok C" "length acct = 32"
    and "hash_ok h" "tag_wf lc t" "tag_wf lc u" "t \<noteq> u" "verify_origin og = Inr ()"
  shows "verify lc C (sign_with_origin C acct op h t og) = Inr () \<and>
    verify_relation lc C (sign_relation C acct op k t u) = Inr ()"
  using assms by (simp add: verify_sign verify_sign_relation)

theorem signed_is_accepted_witness:
  "verify to_ascii_lowercase toy_crypto
    (sign_with_origin toy_crypto (replicate 32 7) Add (replicate 32 1)
      \<lparr>namespace = [], subtag = lit ''a''\<rparr> (Some (lit ''wd14-tagger''))) = Inr ()"
proof -
  have "tag_wf to_ascii_lowercase \<lparr>namespace = [], subtag = lit ''a''\<rparr>"
    "tag_wf to_ascii_lowercase \<lparr>namespace = [], subtag = lit ''b''\<rparr>"
    by (simp_all add: tag_wf_def normal_def tag_normalize_def str_eval)
  moreover have "verify_origin (Some (lit ''wd14-tagger'')) = Inr ()"
    by (simp add: verify_origin_def MAX_ORIGIN_LEN_def str_len_def str_eval)
  ultimately show ?thesis
    using signed_is_accepted [OF lower_like_ascii toy_crypto_ok, of "replicate 32 7" "replicate 32 1"]
    by (simp add: hash_ok_def)
qed

text \<open>
  C32. What verification of a submission guarantees: the version is the one this build speaks,
  the hash is the canonical hex of a 32-byte hash, the tag is the display form of a
  well-formed tag, the origin is absent or at most 128 bytes, not blank and free of control
  characters, and the signature by the stated author covers exactly these fields.
\<close>

theorem verify_sound:
  assumes "lower_like lc" and "verify lc C sub = Inr ()"
  shows "sub_version sub = 8 \<and>
    (\<exists>h. hash_ok h \<and> sub_hash sub = to_hex h) \<and>
    (\<exists>t. tag_wf lc t \<and> sub_tag sub = tag_display t) \<and>
    (case sub_origin sub of None \<Rightarrow> True
     | Some o1 \<Rightarrow> str_len o1 \<le> 128 \<and> trim o1 \<noteq> [] \<and> (\<forall>c\<in>set o1. 0x20 \<le> c \<and> c \<noteq> 0x7F)) \<and>
    (\<exists>key sig. hex_decode C (sub_author sub) = Some key \<and> length key = 32 \<and> valid_point C key \<and>
       hex_decode C (sub_signature sub) = Some sig \<and> length sig = 64 \<and>
       ed_verify_strict C key (canonical_bytes (sub_op sub) (sub_hash sub) (sub_tag sub) (sub_origin sub)) sig)"
proof -
  note v = verify_InrD [OF assms]
  have "case sub_origin sub of None \<Rightarrow> True
     | Some o1 \<Rightarrow> str_len o1 \<le> 128 \<and> trim o1 \<noteq> [] \<and> (\<forall>c\<in>set o1. 0x20 \<le> c \<and> c \<noteq> 0x7F)"
    using v by (auto simp: verify_origin_def MAX_ORIGIN_LEN_def list_ex_iff not_less split: option.splits if_splits)
  moreover have "\<exists>key sig. hex_decode C (sub_author sub) = Some key \<and> length key = 32 \<and> valid_point C key \<and>
       hex_decode C (sub_signature sub) = Some sig \<and> length sig = 64 \<and>
       ed_verify_strict C key (canonical_bytes (sub_op sub) (sub_hash sub) (sub_tag sub) (sub_origin sub)) sig"
    using v by (auto simp: verify_bytes_def and_then_Inr_iff decode_verifying_key_def decode_signature_def
        split: option.splits if_splits)
  moreover have "\<exists>h. hash_ok h \<and> sub_hash sub = to_hex h" using v hash_from_own_hex by metis
  ultimately show ?thesis using v by (simp add: PROTOCOL_VERSION_def) blast
qed

theorem verify_sound_witness:
  "\<exists>t. tag_wf to_ascii_lowercase t \<and>
    sub_tag (sign toy_crypto (replicate 32 7) Add (replicate 32 1) \<lparr>namespace = [], subtag = lit ''a''\<rparr>) = tag_display t"
proof -
  have "tag_wf to_ascii_lowercase \<lparr>namespace = [], subtag = lit ''a''\<rparr>"
    by (simp add: tag_wf_def normal_def tag_normalize_def str_eval)
  then have "verify to_ascii_lowercase toy_crypto
      (sign toy_crypto (replicate 32 7) Add (replicate 32 1) \<lparr>namespace = [], subtag = lit ''a''\<rparr>) = Inr ()"
    unfolding sign_def
    by (intro verify_sign lower_like_ascii toy_crypto_ok) (simp_all add: hash_ok_def verify_origin_def)
  from verify_sound [OF lower_like_ascii this] show ?thesis by blast
qed

text \<open>
  Request authentication is fresh and bound: for every \<open>i64\<close> timestamp and clock, the
  saturating arithmetic rejects exactly the requests that are more than 300 seconds away (no
  timestamp near the ends of the range wraps into the window), a request signed by an account
  is accepted within the window, and an accepted request carries a signature over exactly its
  method, path, domain, timestamp and body.
\<close>

theorem verify_auth_fresh:
  assumes "crypto_ok C" and "length acct = 32"
  shows "(verify_auth C key sig m p d ts now body = Inl StaleTimestamp \<longleftrightarrow> 300 < \<bar>now - ts\<bar>) \<and>
    (\<bar>now - ts\<bar> \<le> 300 \<longrightarrow> verify_auth C (public_hex C acct) (sign_auth C acct m p d ts body) m p d ts now body = Inr ()) \<and>
    (verify_auth C key sig m p d ts now body = Inr () \<longleftrightarrow>
       \<bar>now - ts\<bar> \<le> 300 \<and> verify_bytes C key sig (auth_canonical_bytes C m p d ts body) = Inr ())"
proof -
  have "verify_bytes C key sig b \<noteq> Inl StaleTimestamp" for b
    by (auto simp: verify_bytes_def decode_verifying_key_def decode_signature_def split: option.splits)
  then show ?thesis
    using verify_own_bytes [OF assms]
    by (auto simp: verify_auth_def auth_stale_iff [unfolded AUTH_FRESHNESS_SECS_def] sign_auth_def
        AUTH_FRESHNESS_SECS_def)
qed

theorem verify_auth_fresh_witness:
  "verify_auth toy_crypto [] [] [] [] None (- (2 ^ 63)) (2 ^ 63 - 1) [] = Inl StaleTimestamp"
  using verify_auth_fresh [OF toy_crypto_ok, of "replicate 32 7" "[]" "[]" "[]" "[]" None "- (2 ^ 63)" "2 ^ 63 - 1" "[]"]
  by simp

end
