(* ===== verification/StoreState.thy ===== *)
theory StoreState
  imports ChangeFeed NetSign
begin

text \<open>
  \<open>crates/server/src/store.rs\<close>, the state and the small tables.  A \<open>store\<close> is the SQLite
  database of a repository (\<open>migrations/0001\<close> to \<open>0005\<close>): each table with a key is an
  association list, the append-only tables are lists.  An operation returns the new store with
  its result; a transaction that fails returns the store it began with.  \<open>now()\<close> is a
  parameter.  The SQL of the source is modelled with its documented meaning: \<open>INSERT OR
  IGNORE\<close> keeps an existing row, an upsert with a \<open>WHERE\<close> writes nothing when the guard fails,
  a fresh \<open>INTEGER PRIMARY KEY\<close> is one above the largest.
\<close>

section \<open>State\<close>

record account_row =
  ar_role :: ustring
  ar_banned :: bool
  ar_created_at :: int
  ar_note :: "ustring option"

record sub_row =
  sr_op :: ustring
  sr_hash :: ustring
  sr_tag :: ustring
  sr_author :: ustring
  sr_signature :: ustring
  sr_created_at :: int
  sr_origin :: "ustring option"

record map_row =
  mr_status :: int
  mr_seq :: int
  mr_origin :: "ustring option"

record rel_row =
  rl_status :: mapping_status
  rl_signature :: "byte list"
  rl_created_at :: int
  rl_seq :: int

record report_row =
  rp_id :: int
  rp_hash :: ustring
  rp_tag :: ustring
  rp_reporter :: ustring
  rp_note :: "ustring option"
  rp_created_at :: int
  rp_status :: ustring

type_synonym rel_key = "rel_kind \<times> ustring \<times> ustring \<times> ustring"

record store =
  accounts :: "(ustring \<times> account_row) list"
  submissions :: "sub_row list"
  repo_hashes :: "(byte list \<times> int) list"
  repo_tags :: "(ustring \<times> int) list"
  repo_mappings :: "((int \<times> int) \<times> map_row) list"
  relation_rows :: "(rel_key \<times> rel_row) list"
  report_rows :: "report_row list"
  repo_meta :: "(ustring \<times> ustring) list"

definition store_empty :: store where
  "store_empty = \<lparr>accounts = [], submissions = [], repo_hashes = [], repo_tags = [],
     repo_mappings = [], relation_rows = [], report_rows = [], repo_meta = []\<rparr>"

datatype store_error =
    Rejected sign_error
  | AccountBanned ustring
  | AccountNotFound ustring
  | ConstraintFailed
  | HashNotHex ustring
  | HashNot32 ustring
  | SignatureNotHex ustring
  | BadLoHex ustring
  | BlobNot32
  | MappingNotFound ustring ustring
  | ReportNotFound int
  | ReporterBanned
  | BudgetExceeded nat
  | CorruptCheckpoint

section \<open>Accounts\<close>

text \<open>\<open>INSERT OR IGNORE INTO accounts(pubkey, created_at)\<close> with the column defaults.\<close>

definition ensure_account :: "store \<Rightarrow> ustring \<Rightarrow> int \<Rightarrow> store" where
  "ensure_account s pubkey created_at =
     (case map_of (accounts s) pubkey of
        Some _ \<Rightarrow> s
      | None \<Rightarrow> s\<lparr>accounts := accounts s @
          [(pubkey, \<lparr>ar_role = lit ''contributor'', ar_banned = False, ar_created_at = created_at, ar_note = None\<rparr>)]\<rparr>)"

definition account :: "store \<Rightarrow> ustring \<Rightarrow> account_row option" where
  "account s pubkey = map_of (accounts s) pubkey"

definition set_role :: "store \<Rightarrow> ustring \<Rightarrow> ustring \<Rightarrow> store \<times> (store_error + unit)" where
  "set_role s pubkey role =
     (case map_of (accounts s) pubkey of
        None \<Rightarrow> (s, Inl (AccountNotFound pubkey))
      | Some a \<Rightarrow>
          if role = lit ''contributor'' \<or> role = lit ''moderator'' then
            (s\<lparr>accounts := AList.update pubkey (a\<lparr>ar_role := role\<rparr>) (accounts s)\<rparr>, Inr ())
          else (s, Inl ConstraintFailed))"

definition set_banned :: "store \<Rightarrow> ustring \<Rightarrow> bool \<Rightarrow> store \<times> (store_error + unit)" where
  "set_banned s pubkey banned =
     (case map_of (accounts s) pubkey of
        None \<Rightarrow> (s, Inl (AccountNotFound pubkey))
      | Some a \<Rightarrow>
          (s\<lparr>accounts := AList.update pubkey (a\<lparr>ar_banned := banned\<rparr>) (accounts s)\<rparr>, Inr ()))"

definition is_moderator :: "store \<Rightarrow> ustring \<Rightarrow> bool" where
  "is_moderator s pubkey =
     (case map_of (accounts s) pubkey of
        None \<Rightarrow> False
      | Some a \<Rightarrow> \<not> ar_banned a \<and> ar_role a = lit ''moderator'')"

definition list_accounts :: "store \<Rightarrow> (ustring \<times> account_row) list" where
  "list_accounts s = sort_key (\<lambda>(_, a). ar_created_at a) (accounts s)"

text \<open>The banned flag of an account, as the submit paths read it after creating the account.\<close>

definition is_banned :: "store \<Rightarrow> ustring \<Rightarrow> bool" where
  "is_banned s pubkey = (case map_of (accounts s) pubkey of None \<Rightarrow> False | Some a \<Rightarrow> ar_banned a)"

section \<open>Interning\<close>

text \<open>The read-first resolver: \<open>SELECT id\<close>, and on a miss \<open>INSERT \<dots> RETURNING id\<close>.\<close>

definition next_id :: "('k \<times> int) list \<Rightarrow> int" where
  "next_id t = coalesce_max (map snd t) + 1"

definition intern_row :: "('k \<times> int) list \<Rightarrow> 'k \<Rightarrow> int \<times> ('k \<times> int) list" where
  "intern_row t k =
     (case map_of t k of
        Some i \<Rightarrow> (i, t)
      | None \<Rightarrow> (next_id t, t @ [(k, next_id t)]))"

definition ids_ok :: "('k \<times> int) list \<Rightarrow> bool" where
  "ids_ok t \<longleftrightarrow> distinct (map fst t) \<and> distinct (map snd t)"

lemma next_id_fresh: "next_id t \<notin> snd ` set t"
proof
  assume "next_id t \<in> snd ` set t"
  then have "t \<noteq> []" "next_id t \<le> coalesce_max (map snd t)" by (auto simp: coalesce_max_def)
  then show False by (simp add: next_id_def)
qed

lemma ids_ok_append: "ids_ok t \<Longrightarrow> map_of t k = None \<Longrightarrow> ids_ok (t @ [(k, next_id t)])"
  using next_id_fresh [of t] by (auto simp: ids_ok_def map_of_eq_None_iff)

lemma ids_ok_inj: "ids_ok t \<Longrightarrow> map_of t k = Some i \<Longrightarrow> map_of t k' = Some i \<Longrightarrow> k = k'"
proof -
  assume *: "ids_ok t" "map_of t k = Some i" "map_of t k' = Some i"
  then have "inj_on snd (set t)" "(k, i) \<in> set t" "(k', i) \<in> set t"
    by (auto simp: ids_ok_def distinct_map dest: map_of_SomeD)
  from inj_onD [OF this(1) _ this(2,3)] show ?thesis by simp
qed

lemma map_of_snoc: "map_of (t @ [(k, v)]) = (\<lambda>x. case map_of t x of None \<Rightarrow> if x = k then Some v else None | Some y \<Rightarrow> Some y)"
  by (simp add: map_add_def fun_eq_iff split: option.split)

interpretation ids: interner map_of intern_row ids_ok
proof
  fix t :: "('k \<times> int) list" and k k' i
  assume ok: "ids_ok t"
  show "ids_ok (snd (intern_row t k))"
    using ok by (auto simp: intern_row_def ids_ok_append split: option.split)
  show "map_of (snd (intern_row t k)) k = Some (fst (intern_row t k))"
    by (simp add: intern_row_def map_of_snoc del: map_of_append split: option.split)
  show "map_of (snd (intern_row t k')) k = Some i" if "map_of t k = Some i"
    using that by (simp add: intern_row_def map_of_snoc del: map_of_append split: option.split)
  show "map_of (snd (intern_row t k')) k = map_of t k" if "k' \<noteq> k"
    using that by (simp add: intern_row_def map_of_snoc del: map_of_append split: option.split)
  show "k = k'" if "map_of t k = Some i" "map_of t k' = Some i"
    by (rule ids_ok_inj [OF ok that])
qed

section \<open>Reports\<close>

definition insert_report ::
  "store \<Rightarrow> ustring \<Rightarrow> ustring \<Rightarrow> ustring \<Rightarrow> ustring option \<Rightarrow> int \<Rightarrow> store \<times> (store_error + unit)" where
  "insert_report s hash tg reporter note created_at =
     (if is_banned s reporter then (s, Inl ReporterBanned)
      else (s\<lparr>report_rows := report_rows s @
        [\<lparr>rp_id = coalesce_max (map rp_id (report_rows s)) + 1, rp_hash = hash, rp_tag = tg,
          rp_reporter = reporter, rp_note = note, rp_created_at = created_at, rp_status = lit ''open''\<rparr>]\<rparr>, Inr ()))"

definition open_reports :: "store \<Rightarrow> report_row list" where
  "open_reports s =
     sort_key rp_created_at (sort_key rp_id (filter (\<lambda>r. rp_status r = lit ''open'') (report_rows s)))"

definition close_report :: "store \<Rightarrow> int \<Rightarrow> store \<times> (store_error + unit)" where
  "close_report s i =
     (if list_ex (\<lambda>r. rp_id r = i) (report_rows s) then
        (s\<lparr>report_rows := map (\<lambda>r. if rp_id r = i then r\<lparr>rp_status := lit ''closed''\<rparr> else r) (report_rows s)\<rparr>, Inr ())
      else (s, Inl (ReportNotFound i)))"

section \<open>Key-value metadata\<close>

definition meta_get :: "store \<Rightarrow> ustring \<Rightarrow> ustring option" where
  "meta_get s k = map_of (repo_meta s) k"

definition meta_put :: "store \<Rightarrow> ustring \<Rightarrow> ustring \<Rightarrow> store" where
  "meta_put s k v = s\<lparr>repo_meta := AList.update k v (repo_meta s)\<rparr>"

definition meta_delete :: "store \<Rightarrow> ustring \<Rightarrow> store" where
  "meta_delete s k = s\<lparr>repo_meta := AList.delete k (repo_meta s)\<rparr>"

definition store_generation :: "store \<Rightarrow> ustring option" where
  "store_generation s = meta_get s (lit ''store_generation'')"

text \<open>\<open>buf\<close> is what \<open>getrandom\<close> filled in.\<close>

definition mint_store_generation :: "crypto \<Rightarrow> byte list \<Rightarrow> store \<Rightarrow> store \<times> ustring" where
  "mint_store_generation C buf s =
     (let generation = hex_encode C buf in (meta_put s (lit ''store_generation'') generation, generation))"

definition read_distinct_hash_count :: "store \<Rightarrow> nat option" where
  "read_distinct_hash_count s =
     (case meta_get s (lit ''distinct_hash_count'') of None \<Rightarrow> None | Some v \<Rightarrow> parse_u64 (trim v))"

definition write_distinct_hash_count :: "store \<Rightarrow> nat \<Rightarrow> store" where
  "write_distinct_hash_count s n = meta_put s (lit ''distinct_hash_count'') (dec n)"

definition set_rebuild_in_progress :: "store \<Rightarrow> store" where
  "set_rebuild_in_progress s = meta_put s (lit ''rebuild_in_progress'') (lit ''1'')"

definition clear_rebuild_in_progress :: "store \<Rightarrow> store" where
  "clear_rebuild_in_progress s = meta_delete s (lit ''rebuild_in_progress'')"

definition rebuild_in_progress :: "store \<Rightarrow> bool" where
  "rebuild_in_progress s \<longleftrightarrow> meta_get s (lit ''rebuild_in_progress'') \<noteq> None"

text \<open>
  Seed checkpoints; \<open>ser\<close> and \<open>de\<close> are \<open>serde_json::to_string\<close> and \<open>from_str\<close> on the
  checkpoint type \<open>'c\<close>.
\<close>

definition read_seed_checkpoint :: "(ustring \<Rightarrow> 'c option) \<Rightarrow> store \<Rightarrow> store_error + 'c option" where
  "read_seed_checkpoint de s =
     (case meta_get s (lit ''seed_ckpt'') of
        None \<Rightarrow> Inr None
      | Some v \<Rightarrow> (case de v of None \<Rightarrow> Inl CorruptCheckpoint | Some c \<Rightarrow> Inr (Some c)))"

definition write_seed_checkpoint :: "('c \<Rightarrow> ustring) \<Rightarrow> store \<Rightarrow> 'c \<Rightarrow> store" where
  "write_seed_checkpoint ser s c = meta_put s (lit ''seed_ckpt'') (ser c)"

definition clear_seed_checkpoint :: "store \<Rightarrow> store" where
  "clear_seed_checkpoint s = meta_delete s (lit ''seed_ckpt'')"

end
