(* ===== verification/StoreMappings.thy ===== *)
theory StoreMappings
  imports StoreState
begin

text \<open>
  \<open>crates/server/src/store.rs\<close>, every operation that writes \<open>repo_mappings\<close>: signed
  submissions, operator seeding, the two bulk paths of the bridge, moderator deletion, the
  rebuild's clear and the replay of the submissions log.  Each changes the table only through
  the two upserts below, with a sequence number above all numbers in the table.
\<close>

section \<open>The upserts\<close>

text \<open>\<open>SELECT COALESCE(MAX(seq), 0) FROM repo_mappings\<close>, the mapping cursor.\<close>

definition mapping_cursor :: "store \<Rightarrow> int" where
  "mapping_cursor s = max_seq mr_seq (repo_mappings s)"

type_synonym mappings = "((int \<times> int) \<times> map_row) list"

text \<open>
  The upsert of signed submissions: status and origin both count as a change, and an echo
  writes nothing.  The number returned is SQLite's count of changed rows.
\<close>

definition upsert_signed :: "int \<times> int \<Rightarrow> int \<Rightarrow> int \<Rightarrow> ustring option \<Rightarrow> mappings \<Rightarrow> nat \<times> mappings" where
  "upsert_signed key status seq origin t =
     (case map_of t key of
        None \<Rightarrow> (1, AList.update key \<lparr>mr_status = status, mr_seq = seq, mr_origin = origin\<rparr> t)
      | Some r \<Rightarrow>
          if mr_status r \<noteq> status \<or> mr_origin r \<noteq> origin then
            (1, AList.update key \<lparr>mr_status = status, mr_seq = seq, mr_origin = origin\<rparr> t)
          else (0, t))"

text \<open>The upsert of seeding and bulk ingest: it leaves the origin column alone.\<close>

definition upsert_status :: "int \<times> int \<Rightarrow> int \<Rightarrow> int \<Rightarrow> mappings \<Rightarrow> nat \<times> mappings" where
  "upsert_status key status seq t =
     (case map_of t key of
        None \<Rightarrow> (1, AList.update key \<lparr>mr_status = status, mr_seq = seq, mr_origin = None\<rparr> t)
      | Some r \<Rightarrow>
          if mr_status r \<noteq> status then
            (1, AList.update key (r\<lparr>mr_status := status, mr_seq := seq\<rparr>) t)
          else (0, t))"

section \<open>Signed submissions\<close>

fun op_status :: "op \<Rightarrow> int" where
  "op_status Add = 0"
| "op_status Remove = 1"

text \<open>\<open>hex::decode\<close> followed by the length check.\<close>

definition decode_hash :: "crypto \<Rightarrow> ustring \<Rightarrow> store_error + byte list" where
  "decode_hash C h =
     (case hex_decode C h of
        None \<Rightarrow> Inl (HashNotHex h)
      | Some b \<Rightarrow> if length b = 32 then Inr b else Inl (HashNot32 h))"

definition current_count :: "int \<Rightarrow> mappings \<Rightarrow> nat" where
  "current_count hash_id t = length (filter (\<lambda>(k, r). fst k = hash_id \<and> mr_status r = 0) t)"

text \<open>The maintenance of the persisted distinct-hash count after a change.\<close>

definition maintain_count :: "nat \<Rightarrow> nat \<Rightarrow> store \<Rightarrow> store" where
  "maintain_count before_current after_current s =
     (let delta = (if before_current = 0 \<and> 0 < after_current then 1
                   else if 0 < before_current \<and> after_current = 0 then - 1 else (0 :: int))
      in if delta = 0 then s
         else
           (case read_distinct_hash_count s of
              None \<Rightarrow> s
            | Some cur \<Rightarrow>
                write_distinct_hash_count s (if 0 < delta then (cur + 1) mod 2 ^ 64 else cur - 1)))"

text \<open>The write transaction of \<open>apply_submission\<close>, after verification and the ban check.\<close>

definition submission_tx :: "crypto \<Rightarrow> store \<Rightarrow> submission \<Rightarrow> int \<Rightarrow> store \<times> (store_error + unit)" where
  "submission_tx C s sub ts =
     (let next_seq = mapping_cursor s + 1;
          log_row = \<lparr>sr_op = op_as_str (sub_op sub), sr_hash = sub_hash sub, sr_tag = sub_tag sub,
            sr_author = sub_author sub, sr_signature = sub_signature sub, sr_created_at = ts,
            sr_origin = sub_origin sub\<rparr>;
          s1 = s\<lparr>submissions := submissions s @ [log_row]\<rparr>
      in case decode_hash C (sub_hash sub) of
           Inl e \<Rightarrow> (s, Inl e)
         | Inr hash_bytes \<Rightarrow>
             (let (hash_id, hs) = intern_row (repo_hashes s1) hash_bytes;
                  (tag_id, tgs) = intern_row (repo_tags s1) (sub_tag sub);
                  before_current = current_count hash_id (repo_mappings s1);
                  (changed, ms) = upsert_signed (hash_id, tag_id) (op_status (sub_op sub)) next_seq
                    (sub_origin sub) (repo_mappings s1);
                  s2 = s1\<lparr>repo_hashes := hs, repo_tags := tgs, repo_mappings := ms\<rparr>
              in (if 0 < changed then maintain_count before_current (current_count hash_id ms) s2 else s2,
                  Inr ())))"

definition apply_submission ::
  "(ustring \<Rightarrow> ustring) \<Rightarrow> crypto \<Rightarrow> store \<Rightarrow> submission \<Rightarrow> int \<Rightarrow> store \<times> (store_error + unit)" where
  "apply_submission lc C s sub ts =
     (case verify lc C sub of
        Inl e \<Rightarrow> (s, Inl (Rejected e))
      | Inr _ \<Rightarrow>
          (let s = ensure_account s (sub_author sub) ts
           in if is_banned s (sub_author sub) then (s, Inl (AccountBanned (sub_author sub)))
              else submission_tx C s sub ts))"

section \<open>Operator seeding\<close>

record seed_summary =
  ss_inserted :: nat
  ss_skipped :: nat
  ss_total :: nat

text \<open>The loop body; the accumulator is the store, \<open>next_seq\<close>, \<open>inserted\<close>, \<open>skipped\<close>.\<close>

definition seed_one ::
  "crypto \<Rightarrow> byte list \<Rightarrow> int \<Rightarrow> hash \<times> tag \<Rightarrow> store \<times> int \<times> nat \<times> nat \<Rightarrow> store \<times> int \<times> nat \<times> nat" where
  "seed_one C acct ts item st =
     (let (hash, tg) = item;
          (s, next_seq, inserted, skipped) = st;
          hash_str = to_hex hash;
          tag_str = tag_display tg;
          (hash_id, hs) = intern_row (repo_hashes s) hash;
          (tag_id, tgs) = intern_row (repo_tags s) tag_str;
          s1 = s\<lparr>repo_hashes := hs, repo_tags := tgs\<rparr>;
          existing = map_option mr_status (map_of (repo_mappings s1) (hash_id, tag_id))
      in if existing = Some 0 then (s1, next_seq, inserted, skipped + 1)
         else
           (let sub = sign C acct Add hash tg;
                next_seq = next_seq + 1;
                log_row = \<lparr>sr_op = op_as_str (sub_op sub), sr_hash = hash_str, sr_tag = tag_str,
                  sr_author = sub_author sub, sr_signature = sub_signature sub, sr_created_at = ts,
                  sr_origin = None\<rparr>;
                (_, ms) = upsert_status (hash_id, tag_id) 0 next_seq (repo_mappings s1)
            in (s1\<lparr>submissions := submissions s1 @ [log_row], repo_mappings := ms\<rparr>, next_seq, inserted + 1, skipped)))"

definition seed_mappings ::
  "crypto \<Rightarrow> byte list \<Rightarrow> store \<Rightarrow> (hash \<times> tag) list \<Rightarrow> int \<Rightarrow> store \<times> (store_error + seed_summary)" where
  "seed_mappings C acct s items ts =
     (let pubkey = public_hex C acct;
          s = ensure_account s pubkey ts
      in if is_banned s pubkey then (s, Inl (AccountBanned pubkey))
         else
           (let (s', _, inserted, skipped) = fold (seed_one C acct ts) items (s, mapping_cursor s, 0, 0)
            in (s', Inr \<lparr>ss_inserted = inserted, ss_skipped = skipped, ss_total = inserted + skipped\<rparr>)))"

section \<open>Bulk ingest\<close>

datatype hash_resolve = Indexed | DeferredAppend

record intern_caches =
  ic_hash :: "(byte list \<times> int) list"
  ic_tag :: "(ustring \<times> int) list"
  ic_hash_carry :: "(byte list \<times> int) option"

definition caches_empty :: intern_caches where
  "caches_empty = \<lparr>ic_hash = [], ic_tag = [], ic_hash_carry = None\<rparr>"

record bulk_stats =
  bs_applied :: nat
  bs_deleted :: nat

text \<open>Hash resolution in the two modes.\<close>

definition resolve_hash ::
  "hash_resolve \<Rightarrow> byte list \<Rightarrow> store \<times> intern_caches \<Rightarrow> int \<times> store \<times> intern_caches" where
  "resolve_hash mode b st =
     (let (s, c) = st
      in case mode of
           Indexed \<Rightarrow>
             (case map_of (ic_hash c) b of
                Some i \<Rightarrow> (i, s, c)
              | None \<Rightarrow>
                  (let (i, hs) = intern_row (repo_hashes s) b
                   in (i, s\<lparr>repo_hashes := hs\<rparr>, c\<lparr>ic_hash := AList.update b i (ic_hash c)\<rparr>)))
         | DeferredAppend \<Rightarrow>
             (let append_row =
                (let i = next_id (repo_hashes s)
                 in (i, s\<lparr>repo_hashes := repo_hashes s @ [(b, i)]\<rparr>, c\<lparr>ic_hash_carry := Some (b, i)\<rparr>))
              in case ic_hash_carry c of
                   Some (carry_hash, carry_id) \<Rightarrow> if carry_hash = b then (carry_id, s, c) else append_row
                 | None \<Rightarrow> append_row))"

definition resolve_tag :: "ustring \<Rightarrow> store \<times> intern_caches \<Rightarrow> int \<times> store \<times> intern_caches" where
  "resolve_tag tg st =
     (let (s, c) = st
      in case map_of (ic_tag c) tg of
           Some i \<Rightarrow> (i, s, c)
         | None \<Rightarrow>
             (let (i, tgs) = intern_row (repo_tags s) tg
              in (i, s\<lparr>repo_tags := tgs\<rparr>, c\<lparr>ic_tag := AList.update tg i (ic_tag c)\<rparr>)))"

text \<open>The loop body of \<open>apply_mappings_impl\<close>; rows with a corrupt hash are skipped.\<close>

definition bulk_one ::
  "crypto \<Rightarrow> hash_resolve \<Rightarrow> ustring \<times> ustring \<times> bool \<Rightarrow>
     store \<times> intern_caches \<times> int \<times> bulk_stats \<Rightarrow> store \<times> intern_caches \<times> int \<times> bulk_stats" where
  "bulk_one C mode item st =
     (let (hash_hex, tg, is_delete) = item;
          (s, c, next_seq, stats) = st
      in case decode_hash C hash_hex of
           Inl _ \<Rightarrow> st
         | Inr b \<Rightarrow>
             (let (hash_id, s1, c1) = resolve_hash mode b (s, c);
                  (tag_id, s2, c2) = resolve_tag tg (s1, c1);
                  next_seq1 = next_seq + 1;
                  (n, ms) = upsert_status (hash_id, tag_id) (if is_delete then 1 else 0) next_seq1 (repo_mappings s2);
                  s3 = s2\<lparr>repo_mappings := ms\<rparr>
              in if n = 0 then (s3, c2, next_seq1 - 1, stats)
                 else if is_delete then (s3, c2, next_seq1, stats\<lparr>bs_deleted := bs_deleted stats + 1\<rparr>)
                 else (s3, c2, next_seq1, stats\<lparr>bs_applied := bs_applied stats + 1\<rparr>)))"

definition apply_mappings_impl ::
  "crypto \<Rightarrow> ('c \<Rightarrow> ustring) \<Rightarrow> hash_resolve \<Rightarrow> 'c option \<Rightarrow> (ustring \<times> ustring \<times> bool) list \<Rightarrow>
     store \<times> intern_caches \<times> int \<Rightarrow> (store \<times> intern_caches \<times> int) \<times> bulk_stats" where
  "apply_mappings_impl C ser mode ckpt items st =
     (let (s, c, next_seq) = st;
          c = (if mode = Indexed then c\<lparr>ic_hash := []\<rparr> else c);
          (s1, c1, next_seq1, stats) =
            fold (bulk_one C mode) items (s, c, next_seq, \<lparr>bs_applied = 0, bs_deleted = 0\<rparr>);
          s2 = (case ckpt of None \<Rightarrow> s1 | Some ck \<Rightarrow> write_seed_checkpoint ser s1 ck)
      in ((s2, c1, next_seq1), stats))"

definition apply_mappings_bulk_cached ::
  "crypto \<Rightarrow> ('c \<Rightarrow> ustring) \<Rightarrow> 'c option \<Rightarrow> (ustring \<times> ustring \<times> bool) list \<Rightarrow>
     store \<times> intern_caches \<times> int \<Rightarrow> (store \<times> intern_caches \<times> int) \<times> bulk_stats" where
  "apply_mappings_bulk_cached C ser ckpt items st = apply_mappings_impl C ser Indexed ckpt items st"

definition apply_current_mappings_deferred ::
  "crypto \<Rightarrow> ('c \<Rightarrow> ustring) \<Rightarrow> 'c option \<Rightarrow> (ustring \<times> ustring \<times> bool) list \<Rightarrow>
     store \<times> intern_caches \<times> int \<Rightarrow> (store \<times> intern_caches \<times> int) \<times> bulk_stats" where
  "apply_current_mappings_deferred C ser ckpt items st = apply_mappings_impl C ser DeferredAppend ckpt items st"

definition apply_mappings_bulk ::
  "crypto \<Rightarrow> store \<Rightarrow> (ustring \<times> ustring \<times> bool) list \<Rightarrow> store \<times> bulk_stats" where
  "apply_mappings_bulk C s items =
     (let ((s', _, _), stats) =
        apply_mappings_bulk_cached C (\<lambda>_ :: unit. []) None items (s, caches_empty, mapping_cursor s)
      in (s', stats))"

section \<open>Moderation, rebuild and replay\<close>

definition moderator_delete_mapping :: "crypto \<Rightarrow> store \<Rightarrow> ustring \<Rightarrow> ustring \<Rightarrow> store \<times> (store_error + unit)" where
  "moderator_delete_mapping C s hash tg =
     (case decode_hash C hash of
        Inl e \<Rightarrow> (s, Inl e)
      | Inr hash_bytes \<Rightarrow>
          (let next_seq = mapping_cursor s + 1
           in case (map_of (repo_hashes s) hash_bytes, map_of (repo_tags s) tg) of
                (Some hash_id, Some tag_id) \<Rightarrow>
                  (case map_of (repo_mappings s) (hash_id, tag_id) of
                     None \<Rightarrow> (s, Inl (MappingNotFound hash tg))
                   | Some r \<Rightarrow>
                       (s\<lparr>repo_mappings := AList.update (hash_id, tag_id) (r\<lparr>mr_status := 1, mr_seq := next_seq\<rparr>) (repo_mappings s),
                          report_rows := map (\<lambda>rp. if rp_hash rp = hash \<and> rp_tag rp = tg \<and> rp_status rp = lit ''open''
                            then rp\<lparr>rp_status := lit ''closed''\<rparr> else rp) (report_rows s)\<rparr>, Inr ()))
              | _ \<Rightarrow> (s, Inl (MappingNotFound hash tg))))"

definition clear_mirrored_mappings :: "store \<Rightarrow> store" where
  "clear_mirrored_mappings s = s\<lparr>repo_mappings := [], repo_hashes := []\<rparr>"

text \<open>The loop body of \<open>replay_submissions\<close> over the rows of the log.\<close>

definition replay_one :: "crypto \<Rightarrow> sub_row \<Rightarrow> store \<times> int \<times> nat \<Rightarrow> store \<times> int \<times> nat" where
  "replay_one C row st =
     (let (s, next_seq, count) = st
      in case decode_hash C (sr_hash row) of
           Inl _ \<Rightarrow> st
         | Inr hash_bytes \<Rightarrow>
             (let status = (if sr_op row = lit ''add'' then Some 0
                            else if sr_op row = lit ''remove'' then Some 1 else None)
              in case status of
                   None \<Rightarrow> st
                 | Some status_int \<Rightarrow>
                     (let (hash_id, hs) = intern_row (repo_hashes s) hash_bytes;
                          (tag_id, tgs) = intern_row (repo_tags s) (sr_tag row);
                          next_seq1 = next_seq + 1;
                          (n, ms) = upsert_signed (hash_id, tag_id) status_int next_seq1 (sr_origin row) (repo_mappings s);
                          s' = s\<lparr>repo_hashes := hs, repo_tags := tgs, repo_mappings := ms\<rparr>
                      in (s', if n = 0 then next_seq1 - 1 else next_seq1, count + 1))))"

definition replay_submissions :: "crypto \<Rightarrow> store \<Rightarrow> store \<times> nat" where
  "replay_submissions C s =
     (let (s', _, count) = fold (replay_one C) (submissions s) (s, mapping_cursor s, 0) in (s', count))"

end
