(* ===== verification/StoreInvariant.thy ===== *)
theory StoreInvariant
  imports StoreMappings
begin

text \<open>
  The invariant of the mapping tables and that every writer of \<open>StoreMappings\<close> keeps it while
  it advances the change feed: \<open>store_adv s s'\<close> says that ids stay, rows stay or get a number
  above the old cursor, and \<open>s'\<close> is well formed.  The bulk loader is brought to the form of
  the other writers here: its caches and its append mode are shown to intern as the plain
  resolver does.
\<close>

section \<open>The store invariant\<close>

definition interned :: "store \<Rightarrow> int \<times> int \<Rightarrow> bool" where
  "interned s k \<longleftrightarrow> fst k \<in> snd ` set (repo_hashes s) \<and> snd k \<in> snd ` set (repo_tags s)"

text \<open>
  Ids are unique, hashes have 32 bytes, mapping rows are keyed, numbered and flagged, and
  refer to interned hashes and tags.
\<close>

definition store_ok :: "store \<Rightarrow> bool" where
  "store_ok s \<longleftrightarrow> ids_ok (repo_hashes s) \<and> ids_ok (repo_tags s) \<and>
     (\<forall>b\<in>fst ` set (repo_hashes s). length b = 32) \<and>
     seqs_pos mr_seq (repo_mappings s) \<and>
     (\<forall>k r. map_of (repo_mappings s) k = Some r \<longrightarrow> interned s k \<and> (mr_status r = 0 \<or> mr_status r = 1))"

lemma store_empty_ok: "store_ok store_empty"
  by (simp add: store_ok_def store_empty_def ids_ok_def seqs_pos_def)

text \<open>One store has become another by the operations below.\<close>

definition store_adv :: "store \<Rightarrow> store \<Rightarrow> bool" where
  "store_adv s s' \<longleftrightarrow> store_ok s' \<and> advances mr_seq (repo_mappings s) (repo_mappings s') \<and>
     (\<forall>h i. map_of (repo_hashes s) h = Some i \<longrightarrow> map_of (repo_hashes s') h = Some i) \<and>
     (\<forall>t i. map_of (repo_tags s) t = Some i \<longrightarrow> map_of (repo_tags s') t = Some i)"

lemma store_adv_refl: "store_ok s \<Longrightarrow> store_adv s s"
  by (simp add: store_adv_def store_ok_def)

lemma store_adv_trans: "store_ok s \<Longrightarrow> store_adv s s' \<Longrightarrow> store_adv s' s'' \<Longrightarrow> store_adv s s''"
  using advances_trans by (auto simp: store_adv_def store_ok_def)

lemma store_adv_ok: "store_adv s s' \<Longrightarrow> store_ok s'"
  by (simp add: store_adv_def)

text \<open>Only the four mapping columns matter.\<close>

definition same_mappings :: "store \<Rightarrow> store \<Rightarrow> bool" where
  "same_mappings s s' \<longleftrightarrow> repo_hashes s' = repo_hashes s \<and> repo_tags s' = repo_tags s \<and> repo_mappings s' = repo_mappings s"

lemma same_mappings_adv: "store_adv s s' \<Longrightarrow> same_mappings s' s'' \<Longrightarrow> store_adv s s''"
  by (auto simp: store_adv_def store_ok_def same_mappings_def interned_def)

lemma same_mappings_cursor: "same_mappings s s' \<Longrightarrow> mapping_cursor s' = mapping_cursor s"
  by (simp add: same_mappings_def mapping_cursor_def)

lemma same_mappings_simps [simp]:
  "same_mappings s s" "same_mappings s (ensure_account s p ts)" "same_mappings s (s\<lparr>submissions := x\<rparr>)"
  "same_mappings s (s\<lparr>report_rows := y\<rparr>)" "same_mappings s (meta_put s k v)" "same_mappings s (meta_delete s k)"
  "same_mappings s (write_distinct_hash_count s n)" "same_mappings s (write_seed_checkpoint ser s c)"
  by (auto simp: same_mappings_def ensure_account_def meta_put_def meta_delete_def
      write_distinct_hash_count_def write_seed_checkpoint_def split: option.split)

lemma maintain_count_same [simp]: "same_mappings s (maintain_count a b s)"
  by (auto simp: maintain_count_def Let_def split: option.split)

lemma same_mappings_trans: "same_mappings s s' \<Longrightarrow> same_mappings s' s'' \<Longrightarrow> same_mappings s s''"
  by (simp add: same_mappings_def)

section \<open>Interning and upserting\<close>

lemma intern_row_id: "map_of (snd (intern_row t k)) k = Some (fst (intern_row t k))"
  by (simp add: intern_row_def map_of_snoc del: map_of_append split: option.split)

lemma intern_row_keeps: "map_of t x = Some i \<Longrightarrow> map_of (snd (intern_row t k)) x = Some i"
  by (simp add: intern_row_def map_of_snoc del: map_of_append split: option.split)

lemma intern_row_set: "set (snd (intern_row t k)) \<subseteq> insert (k, fst (intern_row t k)) (set t)"
  by (auto simp: intern_row_def split: option.split)

lemma intern_row_range: "snd ` set t \<subseteq> snd ` set (snd (intern_row t k))"
  by (auto simp: intern_row_def split: option.split)

text \<open>The common first half of every mapping write: resolve both ids.\<close>

definition intern_pair :: "store \<Rightarrow> byte list \<Rightarrow> ustring \<Rightarrow> (int \<times> int) \<times> store" where
  "intern_pair s b tg =
     ((fst (intern_row (repo_hashes s) b), fst (intern_row (repo_tags s) tg)),
      s\<lparr>repo_hashes := snd (intern_row (repo_hashes s) b), repo_tags := snd (intern_row (repo_tags s) tg)\<rparr>)"

lemma intern_pair_ok:
  assumes s: "store_ok s" and b: "length b = 32" and p: "intern_pair s b tg = (k, s')"
  shows "store_adv s s'" "interned s' k" "repo_mappings s' = repo_mappings s"
    "map_of (repo_hashes s') b = Some (fst k)" "map_of (repo_tags s') tg = Some (snd k)"
proof -
  have k: "k = (fst (intern_row (repo_hashes s) b), fst (intern_row (repo_tags s) tg))"
    and s': "s' = s\<lparr>repo_hashes := snd (intern_row (repo_hashes s) b), repo_tags := snd (intern_row (repo_tags s) tg)\<rparr>"
    using p by (simp_all add: intern_pair_def)
  show ids: "map_of (repo_hashes s') b = Some (fst k)" "map_of (repo_tags s') tg = Some (snd k)"
    by (simp_all add: k s' intern_row_id)
  show m: "repo_mappings s' = repo_mappings s" by (simp add: s')
  show "interned s' k" using map_of_snd [OF ids(1)] map_of_snd [OF ids(2)] by (simp add: interned_def)
  have "interned s x \<Longrightarrow> interned s' x" for x
    using intern_row_range [of "repo_hashes s" b] intern_row_range [of "repo_tags s" tg]
    by (auto simp: interned_def s')
  moreover have "length x = 32" if "x \<in> fst ` set (repo_hashes s')" for x
    using that s b intern_row_set [of "repo_hashes s" b] by (auto simp: s' store_ok_def)
  ultimately have "store_ok s'"
    using s ids.intern_ok [of "repo_hashes s" b] ids.intern_ok [of "repo_tags s" tg]
    by (simp add: store_ok_def m) (simp add: s')
  then show "store_adv s s'"
    using s by (simp add: store_adv_def m store_ok_def) (simp add: s' intern_row_keeps)
qed

text \<open>The common second half: write one row.\<close>

lemma write_row_adv:
  assumes s: "store_ok s" and k: "interned s k" and r: "mapping_cursor s < mr_seq r"
    and st: "mr_status r = 0 \<or> mr_status r = 1"
  shows "store_adv s (s\<lparr>repo_mappings := AList.update k r (repo_mappings s)\<rparr>)"
    "mapping_cursor (s\<lparr>repo_mappings := AList.update k r (repo_mappings s)\<rparr>) = mr_seq r"
proof -
  have pos: "seqs_pos mr_seq (repo_mappings s)" using s by (simp add: store_ok_def)
  have adv: "advances mr_seq (repo_mappings s) (AList.update k r (repo_mappings s))"
    using advances_update [OF pos] r by (simp add: mapping_cursor_def)
  let ?s = "s\<lparr>repo_mappings := AList.update k r (repo_mappings s)\<rparr>"
  have int: "interned ?s x = interned s x" for x by (simp add: interned_def)
  have "interned s k' \<and> (mr_status r' = 0 \<or> mr_status r' = 1)" if "map_of (repo_mappings ?s) k' = Some r'" for k' r'
  proof (cases "k' = k")
    case True
    then show ?thesis using that k st by simp
  next
    case False
    then have "map_of (repo_mappings s) k' = Some r'" using that by simp
    then show ?thesis using s unfolding store_ok_def by blast
  qed
  then have "store_ok ?s"
    using s adv unfolding store_ok_def int by (simp add: advances_def)
  with adv show "store_adv s (s\<lparr>repo_mappings := AList.update k r (repo_mappings s)\<rparr>)"
    by (simp add: store_adv_def)
  show "mapping_cursor (s\<lparr>repo_mappings := AList.update k r (repo_mappings s)\<rparr>) = mr_seq r"
    using max_seq_update [OF pos] r by (simp add: mapping_cursor_def)
qed

text \<open>Both upserts either write a row with the given number or nothing.\<close>

lemma upsert_signed_cases:
  obtains (echo) r where "map_of t k = Some r" "mr_status r = status" "mr_origin r = origin"
      "upsert_signed k status seq origin t = (0, t)"
  | (wrote) "\<And>r. map_of t k = Some r \<Longrightarrow> mr_status r \<noteq> status \<or> mr_origin r \<noteq> origin"
      "upsert_signed k status seq origin t = (1, AList.update k \<lparr>mr_status = status, mr_seq = seq, mr_origin = origin\<rparr> t)"
  by (cases "map_of t k") (auto simp: upsert_signed_def split: if_splits)

lemma upsert_status_cases:
  obtains (echo) r where "map_of t k = Some r" "mr_status r = status" "upsert_status k status seq t = (0, t)"
  | (wrote) r where "mr_status r = status" "mr_seq r = seq" "\<And>r'. map_of t k = Some r' \<Longrightarrow> mr_status r' \<noteq> status"
      "mr_origin r = (case map_of t k of None \<Rightarrow> None | Some r' \<Rightarrow> mr_origin r')"
      "upsert_status k status seq t = (1, AList.update k r t)"
proof (cases "map_of t k")
  case None
  then show thesis by (intro wrote [of "\<lparr>mr_status = status, mr_seq = seq, mr_origin = None\<rparr>"])
      (simp_all add: upsert_status_def)
next
  case (Some r)
  show thesis
  proof (cases "mr_status r = status")
    case True
    then show thesis using Some by (intro echo [of r]) (simp_all add: upsert_status_def)
  next
    case False
    then show thesis using Some
      by (intro wrote [of "r\<lparr>mr_status := status, mr_seq := seq\<rparr>"]) (auto simp: upsert_status_def)
  qed
qed

text \<open>
  A whole write: intern, upsert with a number above the cursor.  The result of the upsert is
  \<open>(n, t)\<close>; the cursor moves to the number exactly when a row was written.
\<close>

lemma upsert_adv:
  assumes s: "store_ok s" and k: "interned s k" and seq: "mapping_cursor s < seq" and st: "status = 0 \<or> status = 1"
    and up: "upsert_signed k status seq origin (repo_mappings s) = (n, ms) \<or>
      upsert_status k status seq (repo_mappings s) = (n, ms)"
  shows "store_adv s (s\<lparr>repo_mappings := ms\<rparr>)"
    "mapping_cursor (s\<lparr>repo_mappings := ms\<rparr>) = (if n = 0 then mapping_cursor s else seq)"
proof -
  have "(n = 0 \<and> ms = repo_mappings s) \<or>
    (\<exists>r. n = 1 \<and> ms = AList.update k r (repo_mappings s) \<and> mr_seq r = seq \<and> mr_status r = status)"
    using up
  proof
    assume "upsert_signed k status seq origin (repo_mappings s) = (n, ms)"
    then show ?thesis
      by (cases rule: upsert_signed_cases [of "repo_mappings s" k status origin seq]) auto
  next
    assume "upsert_status k status seq (repo_mappings s) = (n, ms)"
    then show ?thesis
      by (cases rule: upsert_status_cases [of "repo_mappings s" k status seq]) auto
  qed
  then consider "n = 0" "ms = repo_mappings s" |
    r where "n = 1" "ms = AList.update k r (repo_mappings s)" "mr_seq r = seq" "mr_status r = status" by blast
  then show "store_adv s (s\<lparr>repo_mappings := ms\<rparr>)"
    "mapping_cursor (s\<lparr>repo_mappings := ms\<rparr>) = (if n = 0 then mapping_cursor s else seq)"
    using write_row_adv [OF s k] seq st store_adv_refl [OF s] by (cases; simp add: mapping_cursor_def)+
qed

section \<open>Every operation advances the store\<close>

lemma decode_hash_length: "decode_hash C h = Inr b \<Longrightarrow> length b = 32"
  by (auto simp: decode_hash_def split: option.splits if_splits)

lemma op_status_01: "op_status op = 0 \<or> op_status op = 1"
  by (cases op) simp_all

text \<open>One resolved write, from the old store: both ids, then the upsert with the next number.\<close>

lemma pair_upsert_adv:
  assumes s: "store_ok s" and b: "length b = 32" and p: "intern_pair s b tg = (k, s1)"
    and seq: "mapping_cursor s < seq" and st: "status = 0 \<or> status = 1"
    and up: "upsert_signed k status seq origin (repo_mappings s1) = (n, ms) \<or>
      upsert_status k status seq (repo_mappings s1) = (n, ms)"
  shows "store_adv s (s1\<lparr>repo_mappings := ms\<rparr>)"
    "mapping_cursor (s1\<lparr>repo_mappings := ms\<rparr>) = (if n = 0 then mapping_cursor s else seq)"
proof -
  note i = intern_pair_ok [OF s b p]
  have c: "mapping_cursor s1 = mapping_cursor s" by (simp add: mapping_cursor_def i(3))
  have "mapping_cursor s1 < seq" using seq c by simp
  note w = upsert_adv [OF store_adv_ok [OF i(1)] i(2) this st up]
  show "store_adv s (s1\<lparr>repo_mappings := ms\<rparr>)" by (rule store_adv_trans [OF s i(1) w(1)])
  show "mapping_cursor (s1\<lparr>repo_mappings := ms\<rparr>) = (if n = 0 then mapping_cursor s else seq)"
    using w(2) c by simp
qed

lemma maintain_count_fields:
  "submissions (maintain_count a c u) = submissions u" "accounts (maintain_count a c u) = accounts u"
  "relation_rows (maintain_count a c u) = relation_rows u" "report_rows (maintain_count a c u) = report_rows u"
  by (simp_all add: maintain_count_def Let_def write_distinct_hash_count_def meta_put_def split: option.split)

lemma maintain_meta_cong:
  "repo_meta u = repo_meta v \<Longrightarrow> repo_meta (maintain_count a c u) = repo_meta (maintain_count a c v)"
  by (simp add: maintain_count_def Let_def read_distinct_hash_count_def meta_get_def
      write_distinct_hash_count_def meta_put_def split: option.split)

text \<open>\<open>submission_tx\<close> over the resolved pair.\<close>

lemma submission_tx_eq:
  assumes "decode_hash C (sub_hash sub) = Inr b" and "intern_pair s b (sub_tag sub) = (k, s1)"
    and "upsert_signed k (op_status (sub_op sub)) (mapping_cursor s + 1) (sub_origin sub) (repo_mappings s) = (n, ms)"
  obtains s2 where "submission_tx C s sub ts = (s2, Inr ())" "same_mappings (s1\<lparr>repo_mappings := ms\<rparr>) s2"
    "submissions s2 = submissions s @
      [\<lparr>sr_op = op_as_str (sub_op sub), sr_hash = sub_hash sub, sr_tag = sub_tag sub, sr_author = sub_author sub,
        sr_signature = sub_signature sub, sr_created_at = ts, sr_origin = sub_origin sub\<rparr>]"
    "repo_meta s2 = repo_meta (if 0 < n then maintain_count (current_count (fst k) (repo_mappings s)) (current_count (fst k) ms) s else s)"
    "accounts s2 = accounts s" "relation_rows s2 = relation_rows s" "report_rows s2 = report_rows s"
proof -
  let ?log = "submissions s @
      [\<lparr>sr_op = op_as_str (sub_op sub), sr_hash = sub_hash sub, sr_tag = sub_tag sub, sr_author = sub_author sub,
        sr_signature = sub_signature sub, sr_created_at = ts, sr_origin = sub_origin sub\<rparr>]"
  let ?s = "s\<lparr>submissions := ?log, repo_hashes := snd (intern_row (repo_hashes s) b),
    repo_tags := snd (intern_row (repo_tags s) (sub_tag sub)), repo_mappings := ms\<rparr>"
  let ?s2 = "if 0 < n then maintain_count (current_count (fst k) (repo_mappings s)) (current_count (fst k) ms) ?s else ?s"
  have k: "fst k = fst (intern_row (repo_hashes s) b)" "snd k = fst (intern_row (repo_tags s) (sub_tag sub))"
    "s1 = s\<lparr>repo_hashes := snd (intern_row (repo_hashes s) b), repo_tags := snd (intern_row (repo_tags s) (sub_tag sub))\<rparr>"
    using assms(2) by (auto simp: intern_pair_def)
  have cur: "mapping_cursor (s\<lparr>submissions := x\<rparr>) = mapping_cursor s" for x by (simp add: mapping_cursor_def)
  have up: "upsert_signed (fst (intern_row (repo_hashes s) b), fst (intern_row (repo_tags s) (sub_tag sub)))
      (op_status (sub_op sub)) (mapping_cursor s + 1) (sub_origin sub) (repo_mappings s) = (n, ms)"
    using assms(3) k(1,2) by (metis prod.collapse)
  have tx: "submission_tx C s sub ts = (?s2, Inr ())"
    using assms(1) up by (simp add: submission_tx_def Let_def case_prod_beta k cur)
  have "same_mappings (s1\<lparr>repo_mappings := ms\<rparr>) ?s" by (simp add: same_mappings_def k(3))
  then have same: "same_mappings (s1\<lparr>repo_mappings := ms\<rparr>) ?s2"
    using same_mappings_trans [OF _ maintain_count_same] by simp
  have "repo_meta ?s = repo_meta s" by simp
  note meta = maintain_meta_cong [OF this]
  show thesis
    by (rule that [OF tx same]) (simp_all add: maintain_count_fields meta)
qed

lemma submission_tx_adv:
  assumes s: "store_ok s"
  shows "store_adv s (fst (submission_tx C s sub ts))"
proof (cases "decode_hash C (sub_hash sub)")
  case (Inl e)
  then show ?thesis using store_adv_refl [OF s] by (simp add: submission_tx_def Let_def)
next
  case (Inr b)
  obtain k s1 where p: "intern_pair s b (sub_tag sub) = (k, s1)" by fastforce
  obtain n ms where u: "upsert_signed k (op_status (sub_op sub)) (mapping_cursor s + 1) (sub_origin sub) (repo_mappings s) = (n, ms)"
    by fastforce
  have m: "repo_mappings s1 = repo_mappings s" using p by (auto simp: intern_pair_def)
  obtain s2 where s2: "submission_tx C s sub ts = (s2, Inr ())" "same_mappings (s1\<lparr>repo_mappings := ms\<rparr>) s2"
    using submission_tx_eq [OF Inr p u] by blast
  have "store_adv s (s1\<lparr>repo_mappings := ms\<rparr>)"
    by (rule pair_upsert_adv(1) [OF s decode_hash_length [OF Inr] p _ op_status_01]) (use u m in auto)
  then show ?thesis using s2 same_mappings_adv by simp
qed

lemma ensure_account_adv: "store_ok s \<Longrightarrow> store_adv s (ensure_account s p ts)"
  using same_mappings_adv [OF store_adv_refl] by simp

lemma apply_submission_adv: "store_ok s \<Longrightarrow> store_adv s (fst (apply_submission lc C s sub ts))"
  using store_adv_refl [of s] ensure_account_adv [of s]
    store_adv_trans [OF _ ensure_account_adv submission_tx_adv [OF store_adv_ok [OF ensure_account_adv]]]
  by (simp add: apply_submission_def Let_def split: sum.split)

text \<open>The accumulator of the loops: a sound store and its cursor.\<close>

definition seq_inv :: "store \<Rightarrow> int \<Rightarrow> bool" where
  "seq_inv s next_seq \<longleftrightarrow> store_ok s \<and> mapping_cursor s = next_seq"

lemma seed_one_eq:
  assumes "intern_pair s h (tag_display t) = (k, s1)"
  shows "seed_one C acct ts (h, t) (s, n, ins, sk) =
    (if map_option mr_status (map_of (repo_mappings s) k) = Some 0 then (s1, n, ins, sk + 1)
     else (s1\<lparr>submissions := submissions s @
        [\<lparr>sr_op = lit ''add'', sr_hash = to_hex h, sr_tag = tag_display t, sr_author = public_hex C acct,
          sr_signature = sub_signature (sign C acct Add h t), sr_created_at = ts, sr_origin = None\<rparr>],
        repo_mappings := snd (upsert_status k 0 (n + 1) (repo_mappings s))\<rparr>, n + 1, ins + 1, sk))"
proof -
  have k: "k = (fst (intern_row (repo_hashes s) h), fst (intern_row (repo_tags s) (tag_display t)))"
    "s1 = s\<lparr>repo_hashes := snd (intern_row (repo_hashes s) h), repo_tags := snd (intern_row (repo_tags s) (tag_display t))\<rparr>"
    using assms by (simp_all add: intern_pair_def)
  show ?thesis by (simp add: seed_one_def Let_def case_prod_beta k sign_def sign_with_origin_def)
qed

lemma seed_one_adv:
  assumes "seq_inv s n" and h: "hash_ok h"
  shows "case seed_one C acct ts (h, t) (s, n, ins, sk) of (s', n', ins', sk') \<Rightarrow>
    seq_inv s' n' \<and> store_adv s s' \<and> ins' + sk' = ins + sk + 1"
proof -
  have s: "store_ok s" "mapping_cursor s = n" "length h = 32" using assms by (simp_all add: seq_inv_def hash_ok_def)
  obtain k s1 where p: "intern_pair s h (tag_display t) = (k, s1)" by fastforce
  note i = intern_pair_ok [OF s(1,3) p]
  show ?thesis
  proof (cases "map_option mr_status (map_of (repo_mappings s) k) = Some 0")
    case True
    then show ?thesis using i(1) s store_adv_ok [OF i(1)]
      by (simp add: seed_one_eq [OF p] seq_inv_def mapping_cursor_def i(3))
  next
    case False
    obtain c ms where u: "upsert_status k 0 (n + 1) (repo_mappings s) = (c, ms)" by fastforce
    have c: "c \<noteq> 0" using False u by (auto simp: upsert_status_def split: option.splits if_splits)
    have "store_adv s (s1\<lparr>repo_mappings := ms\<rparr>)"
      "mapping_cursor (s1\<lparr>repo_mappings := ms\<rparr>) = n + 1"
      using pair_upsert_adv [where seq = "n + 1" and status = 0 and n = c and ms = ms, OF s(1,3) p] u c i(3) s(2)
      by simp_all
    moreover obtain s3 where s3: "seed_one C acct ts (h, t) (s, n, ins, sk) = (s3, n + 1, ins + 1, sk)"
      "same_mappings (s1\<lparr>repo_mappings := ms\<rparr>) s3"
      using that unfolding seed_one_eq [OF p] if_not_P [OF False] u by (simp add: same_mappings_def)
    ultimately have "store_adv s s3" "mapping_cursor s3 = n + 1"
      using same_mappings_adv same_mappings_cursor by metis+
    then show ?thesis using s3(1) store_adv_ok by (simp add: seq_inv_def)
  qed
qed

lemma seed_fold_adv:
  assumes "seq_inv s n" "\<forall>(h, t)\<in>set items. hash_ok h"
  shows "case fold (seed_one C acct ts) items (s, n, ins, sk) of (s', n', ins', sk') \<Rightarrow>
    seq_inv s' n' \<and> store_adv s s' \<and> ins' + sk' = ins + sk + length items"
  using assms
proof (induction items arbitrary: s n ins sk)
  case Nil
  then show ?case using store_adv_refl by (simp add: seq_inv_def)
next
  case (Cons it items)
  obtain h t where it: "it = (h, t)" by fastforce
  obtain s' n' ins' sk' where st: "seed_one C acct ts (h, t) (s, n, ins, sk) = (s', n', ins', sk')"
    by (metis prod_cases4)
  have 1: "seq_inv s' n'" "store_adv s s'" "ins' + sk' = ins + sk + 1"
    using seed_one_adv [OF Cons.prems(1), where h = h and t = t and ins = ins and sk = sk and ts = ts and acct = acct and C = C] Cons.prems(2) it st by auto
  have "case fold (seed_one C acct ts) items (s', n', ins', sk') of (s2, n2, i2, k2) \<Rightarrow>
      seq_inv s2 n2 \<and> store_adv s' s2 \<and> i2 + k2 = ins' + sk' + length items"
    using Cons.prems(2) by (intro Cons.IH [OF 1(1)]) simp
  then show ?case using 1 Cons.prems(1) it st store_adv_trans [of s s']
    by (auto simp: seq_inv_def split: prod.splits)
qed

lemma seed_mappings_adv:
  assumes s: "store_ok s" and h: "\<forall>(h, t)\<in>set items. hash_ok h"
  shows "store_adv s (fst (seed_mappings C acct s items ts))"
proof -
  let ?s = "ensure_account s (public_hex C acct) ts"
  have e: "store_adv s ?s" by (rule ensure_account_adv [OF s])
  obtain s' n' ins' sk' where f: "fold (seed_one C acct ts) items (?s, mapping_cursor ?s, 0, 0) = (s', n', ins', sk')"
    by (metis prod_cases4)
  have "seq_inv ?s (mapping_cursor ?s)" using store_adv_ok [OF e] by (simp add: seq_inv_def)
  from seed_fold_adv [OF this h, where C = C and acct = acct and ts = ts and ins = 0 and sk = 0] f have "store_adv ?s s'" by simp
  then show ?thesis using e f store_adv_trans [OF s e] by (simp add: seed_mappings_def Let_def)
qed

section \<open>Bulk ingest\<close>

text \<open>What the caches hold is in the tables.\<close>

definition caches_ok :: "store \<Rightarrow> intern_caches \<Rightarrow> bool" where
  "caches_ok s c \<longleftrightarrow> (\<forall>b i. map_of (ic_hash c) b = Some i \<longrightarrow> map_of (repo_hashes s) b = Some i) \<and>
     (\<forall>t i. map_of (ic_tag c) t = Some i \<longrightarrow> map_of (repo_tags s) t = Some i) \<and>
     (\<forall>b i. ic_hash_carry c = Some (b, i) \<longrightarrow> map_of (repo_hashes s) b = Some i)"

lemma caches_empty_ok [simp]: "caches_ok s caches_empty"
  by (simp add: caches_ok_def caches_empty_def)

lemma caches_ok_adv: "caches_ok s c \<Longrightarrow> store_adv s s' \<Longrightarrow> caches_ok s' c"
  by (auto simp: caches_ok_def store_adv_def)

text \<open>
  Both resolution modes give what \<open>intern_row\<close> gives; the append mode needs that a hash is
  either the carried one or new.
\<close>

definition append_safe :: "hash_resolve \<Rightarrow> store \<Rightarrow> intern_caches \<Rightarrow> byte list \<Rightarrow> bool" where
  "append_safe mode s c b \<longleftrightarrow> mode = DeferredAppend \<longrightarrow>
     map_option fst (ic_hash_carry c) = Some b \<or> map_of (repo_hashes s) b = None"

lemma intern_row_hit: "map_of t k = Some i \<Longrightarrow> intern_row t k = (i, t)"
  by (simp add: intern_row_def)

lemma intern_row_miss: "map_of t k = None \<Longrightarrow> intern_row t k = (next_id t, t @ [(k, next_id t)])"
  by (simp add: intern_row_def)

lemma resolve_hash_intern:
  assumes c: "caches_ok s c" and safe: "append_safe mode s c b"
  obtains c1 where "resolve_hash mode b (s, c) =
      (fst (intern_row (repo_hashes s) b), s\<lparr>repo_hashes := snd (intern_row (repo_hashes s) b)\<rparr>, c1)"
    "caches_ok (s\<lparr>repo_hashes := snd (intern_row (repo_hashes s) b)\<rparr>) c1" "ic_tag c1 = ic_tag c"
    "mode = DeferredAppend \<Longrightarrow> map_option fst (ic_hash_carry c1) = Some b"
proof -
  let ?i = "fst (intern_row (repo_hashes s) b)"
  let ?s = "s\<lparr>repo_hashes := snd (intern_row (repo_hashes s) b)\<rparr>"
  have id: "map_of (repo_hashes ?s) b = Some ?i" by (simp add: intern_row_id)
  have keep: "map_of (repo_hashes s) x = Some i \<Longrightarrow> map_of (repo_hashes ?s) x = Some i" for x i
    by (simp add: intern_row_keeps)
  show thesis
  proof (cases mode)
    case Indexed
    show thesis
    proof (cases "map_of (ic_hash c) b")
      case None
      have "caches_ok ?s (c\<lparr>ic_hash := AList.update b ?i (ic_hash c)\<rparr>)"
        using c keep id by (auto simp: caches_ok_def)
      then show thesis using that [of "c\<lparr>ic_hash := AList.update b ?i (ic_hash c)\<rparr>"] Indexed None
        by (simp add: resolve_hash_def Let_def case_prod_beta)
    next
      case (Some i)
      then have "map_of (repo_hashes s) b = Some i" using c by (simp add: caches_ok_def)
      then show thesis using that [of c] Indexed Some c
        by (simp add: resolve_hash_def intern_row_hit)
    qed
  next
    case DeferredAppend
    show thesis
    proof (cases "map_option fst (ic_hash_carry c) = Some b")
      case True
      then obtain i where i: "ic_hash_carry c = Some (b, i)" by auto
      then have "map_of (repo_hashes s) b = Some i" using c by (simp add: caches_ok_def)
      then show thesis using that [of c] DeferredAppend i c
        by (simp add: resolve_hash_def intern_row_hit)
    next
      case False
      then have m: "map_of (repo_hashes s) b = None" using safe DeferredAppend by (simp add: append_safe_def)
      have "caches_ok ?s (c\<lparr>ic_hash_carry := Some (b, ?i)\<rparr>)" using c keep id by (auto simp: caches_ok_def)
      then show thesis using that [of "c\<lparr>ic_hash_carry := Some (b, ?i)\<rparr>"] DeferredAppend False
        by (auto simp: resolve_hash_def Let_def intern_row_miss [OF m] split: option.split)
    qed
  qed
qed

lemma resolve_tag_intern:
  assumes c: "caches_ok s c"
  obtains c1 where "resolve_tag t (s, c) =
      (fst (intern_row (repo_tags s) t), s\<lparr>repo_tags := snd (intern_row (repo_tags s) t)\<rparr>, c1)"
    "caches_ok (s\<lparr>repo_tags := snd (intern_row (repo_tags s) t)\<rparr>) c1" "ic_hash_carry c1 = ic_hash_carry c"
proof -
  let ?i = "fst (intern_row (repo_tags s) t)"
  let ?s = "s\<lparr>repo_tags := snd (intern_row (repo_tags s) t)\<rparr>"
  have id: "map_of (repo_tags ?s) t = Some ?i" by (simp add: intern_row_id)
  have keep: "map_of (repo_tags s) x = Some i \<Longrightarrow> map_of (repo_tags ?s) x = Some i" for x i
    by (simp add: intern_row_keeps)
  show thesis
  proof (cases "map_of (ic_tag c) t")
    case None
    have "caches_ok ?s (c\<lparr>ic_tag := AList.update t ?i (ic_tag c)\<rparr>)"
      using c keep id by (auto simp: caches_ok_def)
    then show thesis using that [of "c\<lparr>ic_tag := AList.update t ?i (ic_tag c)\<rparr>"] None
      by (simp add: resolve_tag_def Let_def case_prod_beta)
  next
    case (Some i)
    then have "map_of (repo_tags s) t = Some i" using c by (simp add: caches_ok_def)
    then show thesis using that [of c] Some c by (simp add: resolve_tag_def intern_row_hit)
  qed
qed

text \<open>
  One row of a bulk load: with sound caches and a safe hash, in either mode, it is the resolved
  pair write.
\<close>

lemma bulk_one_eq:
  assumes c: "caches_ok s c" and b: "decode_hash C hx = Inr b" and safe: "append_safe mode s c b"
    and p: "intern_pair s b t = (k, s1)"
    and u: "upsert_status k (if del then 1 else 0) (n + 1) (repo_mappings s) = (m, ms)"
  obtains c1 where
    "bulk_one C mode (hx, t, del) (s, c, n, st) =
       (s1\<lparr>repo_mappings := ms\<rparr>, c1, if m = 0 then n else n + 1,
        if m = 0 then st else if del then st\<lparr>bs_deleted := bs_deleted st + 1\<rparr> else st\<lparr>bs_applied := bs_applied st + 1\<rparr>)"
    "caches_ok (s1\<lparr>repo_mappings := ms\<rparr>) c1"
    "mode = DeferredAppend \<Longrightarrow> map_option fst (ic_hash_carry c1) = Some b"
proof -
  let ?s1 = "s\<lparr>repo_hashes := snd (intern_row (repo_hashes s) b)\<rparr>"
  obtain c1 where r1: "resolve_hash mode b (s, c) = (fst (intern_row (repo_hashes s) b), ?s1, c1)"
    "caches_ok ?s1 c1" "mode = DeferredAppend \<Longrightarrow> map_option fst (ic_hash_carry c1) = Some b"
    using resolve_hash_intern [OF c safe] by metis
  obtain c2 where r2: "resolve_tag t (?s1, c1) =
      (fst (intern_row (repo_tags ?s1) t), ?s1\<lparr>repo_tags := snd (intern_row (repo_tags ?s1) t)\<rparr>, c2)"
    "caches_ok (?s1\<lparr>repo_tags := snd (intern_row (repo_tags ?s1) t)\<rparr>) c2" "ic_hash_carry c2 = ic_hash_carry c1"
    using resolve_tag_intern [OF r1(2)] by metis
  have k: "k = (fst (intern_row (repo_hashes s) b), fst (intern_row (repo_tags s) t))"
    "s1 = ?s1\<lparr>repo_tags := snd (intern_row (repo_tags ?s1) t)\<rparr>"
    using p by (simp_all add: intern_pair_def)
  have u': "upsert_status (fst (intern_row (repo_hashes s) b), fst (intern_row (repo_tags s) t))
      (if del then 1 else 0) (n + 1) (repo_mappings s) = (m, ms)"
    using u k(1) by simp
  have ok: "caches_ok (s1\<lparr>repo_mappings := ms\<rparr>) c2" using r2(2) k(2) by (simp add: caches_ok_def)
  have run: "bulk_one C mode (hx, t, del) (s, c, n, st) =
       (s1\<lparr>repo_mappings := ms\<rparr>, c2, if m = 0 then n else n + 1,
        if m = 0 then st else if del then st\<lparr>bs_deleted := bs_deleted st + 1\<rparr> else st\<lparr>bs_applied := bs_applied st + 1\<rparr>)"
    using u' by (simp add: bulk_one_def b r1(1) r2(1) k(2))
  show thesis by (rule that [OF run ok]) (simp add: r2(3) r1(3))
qed

text \<open>
  The rows are fresh runs: rows of one hash are adjacent, and a hash that starts a run was not
  in the store (the source of a fresh seed is ordered by hash).
\<close>

fun fresh_runs :: "crypto \<Rightarrow> byte list set \<Rightarrow> byte list option \<Rightarrow> (ustring \<times> ustring \<times> bool) list \<Rightarrow> bool" where
  "fresh_runs C seen carry [] = True"
| "fresh_runs C seen carry ((hx, t, del) # items) =
     (case decode_hash C hx of
        Inl _ \<Rightarrow> fresh_runs C seen carry items
      | Inr b \<Rightarrow>
          if carry = Some b then fresh_runs C seen carry items
          else b \<notin> seen \<and> fresh_runs C (insert b seen) (Some b) items)"

definition bulk_inv :: "store \<Rightarrow> intern_caches \<Rightarrow> int \<Rightarrow> bool" where
  "bulk_inv s c n \<longleftrightarrow> store_ok s \<and> caches_ok s c \<and> mapping_cursor s \<le> n"

lemma bulk_fold:
  assumes "bulk_inv s c n" "caches_ok s c'"
    and "mode = DeferredAppend \<Longrightarrow> fresh_runs C (fst ` set (repo_hashes s)) (map_option fst (ic_hash_carry c)) items"
  shows "\<exists>s2 c2 n2 st2 c2'. fold (bulk_one C mode) items (s, c, n, st) = (s2, c2, n2, st2) \<and>
    fold (bulk_one C Indexed) items (s, c', n, st) = (s2, c2', n2, st2) \<and>
    bulk_inv s2 c2 n2 \<and> store_adv s s2 \<and> (mapping_cursor s = n \<longrightarrow> mapping_cursor s2 = n2)"
  using assms
proof (induction items arbitrary: s c c' n st)
  case Nil
  then show ?case using store_adv_refl by (simp add: bulk_inv_def)
next
  case (Cons it items)
  obtain hx t del where it: "it = (hx, t, del)" using prod_cases3 by blast
  have s: "store_ok s" "caches_ok s c" "mapping_cursor s \<le> n" using Cons.prems(1) by (simp_all add: bulk_inv_def)
  show ?case
  proof (cases "decode_hash C hx")
    case (Inl e)
    then have "mode = DeferredAppend \<Longrightarrow> fresh_runs C (fst ` set (repo_hashes s)) (map_option fst (ic_hash_carry c)) items"
      using Cons.prems(3) it by simp
    from Cons.IH [OF Cons.prems(1,2) this, of st] show ?thesis by (simp add: it bulk_one_def Inl)
  next
    case (Inr b)
    obtain k s1 where p: "intern_pair s b t = (k, s1)" by fastforce
    obtain m ms where u: "upsert_status k (if del then 1 else 0) (n + 1) (repo_mappings s) = (m, ms)" by fastforce
    let ?s2 = "s1\<lparr>repo_mappings := ms\<rparr>" and ?n2 = "if m = 0 then n else n + 1"
    let ?st2 = "if m = 0 then st else if del then st\<lparr>bs_deleted := bs_deleted st + 1\<rparr> else st\<lparr>bs_applied := bs_applied st + 1\<rparr>"
    have safe: "append_safe mode s c b" "append_safe Indexed s c' b"
    proof -
      have "map_option fst (ic_hash_carry c) = Some b \<or> b \<notin> fst ` set (repo_hashes s)" if "mode = DeferredAppend"
        using Cons.prems(3) [OF that] unfolding it fresh_runs.simps Inr by (simp split: if_split_asm)
      then show "append_safe mode s c b" unfolding append_safe_def map_of_eq_None_iff by blast
    qed (simp add: append_safe_def)
    obtain c1 where c1: "bulk_one C mode it (s, c, n, st) = (?s2, c1, ?n2, ?st2)" "caches_ok ?s2 c1"
      "mode = DeferredAppend \<Longrightarrow> map_option fst (ic_hash_carry c1) = Some b"
      using bulk_one_eq [OF s(2) Inr safe(1) p u] it by metis
    obtain c1' where c1': "bulk_one C Indexed it (s, c', n, st) = (?s2, c1', ?n2, ?st2)" "caches_ok ?s2 c1'"
      using bulk_one_eq [OF Cons.prems(2) Inr safe(2) p u] it by metis
    have m1: "repo_mappings s1 = repo_mappings s" using p by (auto simp: intern_pair_def)
    have adv: "store_adv s ?s2" "mapping_cursor ?s2 = (if m = 0 then mapping_cursor s else n + 1)"
      using pair_upsert_adv [where seq = "n + 1" and status = "if del then 1 else 0" and n = m and ms = ms,
          OF s(1) decode_hash_length [OF Inr] p] s(3) u m1 by (simp_all split: if_splits)
    have inv2: "bulk_inv ?s2 c1 ?n2" using store_adv_ok [OF adv(1)] c1(2) adv(2) s(3) by (simp add: bulk_inv_def)
    have hs: "fst ` set (repo_hashes ?s2) = insert b (fst ` set (repo_hashes s))"
    proof -
      have r: "repo_hashes ?s2 = snd (intern_row (repo_hashes s) b)" using p by (auto simp: intern_pair_def)
      show ?thesis unfolding r
        by (cases "map_of (repo_hashes s) b")
          (auto simp: intern_row_hit intern_row_miss insert_absorb dest!: map_of_SomeD intro: rev_image_eqI)
    qed
    have fr: "fresh_runs C (fst ` set (repo_hashes ?s2)) (map_option fst (ic_hash_carry c1)) items" if d: "mode = DeferredAppend"
    proof (cases "map_option fst (ic_hash_carry c) = Some b")
      case True
      then obtain i where "ic_hash_carry c = Some (b, i)" by auto
      then have "map_of (repo_hashes s) b = Some i" using s(2) by (simp add: caches_ok_def)
      then have "b \<in> fst ` set (repo_hashes s)" by (auto dest!: map_of_SomeD intro: rev_image_eqI)
      then have hs': "fst ` set (repo_hashes ?s2) = fst ` set (repo_hashes s)" unfolding hs by (rule insert_absorb)
      show ?thesis using Cons.prems(3) [OF d] True unfolding hs' c1(3) [OF d] it fresh_runs.simps Inr by simp
    next
      case False
      then show ?thesis using Cons.prems(3) [OF d] unfolding hs c1(3) [OF d] it fresh_runs.simps Inr by simp
    qed
    from Cons.IH [OF inv2 c1'(2) fr, of ?st2] obtain s3 c3 n3 st3 c3' where f:
      "fold (bulk_one C mode) items (?s2, c1, ?n2, ?st2) = (s3, c3, n3, st3)"
      "fold (bulk_one C Indexed) items (?s2, c1', ?n2, ?st2) = (s3, c3', n3, st3)"
      "bulk_inv s3 c3 n3" "store_adv ?s2 s3" "mapping_cursor ?s2 = ?n2 \<longrightarrow> mapping_cursor s3 = n3" by blast
    have "store_adv s s3" by (rule store_adv_trans [OF s(1) adv(1) f(4)])
    moreover have "mapping_cursor s = n \<longrightarrow> mapping_cursor s3 = n3" using f(5) adv(2) by auto
    ultimately show ?thesis using f(1,2,3) c1(1) c1'(1) by simp
  qed
qed

lemma apply_mappings_impl_adv:
  assumes "bulk_inv s c n" and
    "mode = DeferredAppend \<Longrightarrow> fresh_runs C (fst ` set (repo_hashes s)) (map_option fst (ic_hash_carry c)) items"
    and "apply_mappings_impl C ser mode ckpt items (s, c, n) = ((s', c', n'), stats)"
  shows "store_adv s s' \<and> bulk_inv s' c' n' \<and> (mapping_cursor s = n \<longrightarrow> mapping_cursor s' = n')"
proof -
  let ?c = "if mode = Indexed then c\<lparr>ic_hash := []\<rparr> else c"
  have inv: "bulk_inv s ?c n" using assms(1) by (simp add: bulk_inv_def caches_ok_def)
  have "map_option fst (ic_hash_carry ?c) = map_option fst (ic_hash_carry c)" by simp
  then obtain s2 c2 n2 st2 where f: "fold (bulk_one C mode) items (s, ?c, n, \<lparr>bs_applied = 0, bs_deleted = 0\<rparr>) = (s2, c2, n2, st2)"
    "bulk_inv s2 c2 n2" "store_adv s s2" "mapping_cursor s = n \<longrightarrow> mapping_cursor s2 = n2"
    using bulk_fold [OF inv caches_empty_ok, of mode C items "\<lparr>bs_applied = 0, bs_deleted = 0\<rparr>"] assms(2) by auto
  have same: "same_mappings s2 (case ckpt of None \<Rightarrow> s2 | Some ck \<Rightarrow> write_seed_checkpoint ser s2 ck)"
    by (simp split: option.split)
  have s': "s' = (case ckpt of None \<Rightarrow> s2 | Some ck \<Rightarrow> write_seed_checkpoint ser s2 ck)" "c' = c2" "n' = n2"
    using assms(3) f(1) by (auto simp: apply_mappings_impl_def Let_def)
  have adv: "store_adv s s'" using same_mappings_adv [OF f(3) same] by (simp add: s')
  moreover have "mapping_cursor s' = mapping_cursor s2" using same_mappings_cursor [OF same] by (simp add: s')
  moreover have "caches_ok s' c'" using f(2) same unfolding s' by (auto simp: bulk_inv_def caches_ok_def same_mappings_def)
  ultimately show ?thesis using f s' store_adv_ok [OF adv] by (simp add: bulk_inv_def)
qed

lemma apply_mappings_bulk_adv: "store_ok s \<Longrightarrow> store_adv s (fst (apply_mappings_bulk C s items))"
  using apply_mappings_impl_adv [of s caches_empty "mapping_cursor s" Indexed C items "\<lambda>_ :: unit. []" None]
  by (auto simp: apply_mappings_bulk_def apply_mappings_bulk_cached_def bulk_inv_def Let_def split: prod.split)

section \<open>Moderation and replay\<close>

lemma moderator_delete_adv: "store_ok s \<Longrightarrow> store_adv s (fst (moderator_delete_mapping C s h t))"
proof -
  assume s: "store_ok s"
  show ?thesis
  proof (cases "snd (moderator_delete_mapping C s h t)")
    case (Inl e)
    then have "fst (moderator_delete_mapping C s h t) = s"
      by (auto simp: moderator_delete_mapping_def Let_def split: sum.splits option.splits)
    then show ?thesis using store_adv_refl [OF s] by simp
  next
    case (Inr u)
    then obtain k r where r: "map_of (repo_mappings s) k = Some r"
      "same_mappings (s\<lparr>repo_mappings := AList.update k (r\<lparr>mr_status := 1, mr_seq := mapping_cursor s + 1\<rparr>) (repo_mappings s)\<rparr>)
        (fst (moderator_delete_mapping C s h t))"
      by (auto simp: moderator_delete_mapping_def Let_def same_mappings_def split: sum.splits option.splits)
    have "interned s k" using s r(1) unfolding store_ok_def by blast
    then show ?thesis
      using write_row_adv(1) [OF s, of k "r\<lparr>mr_status := 1, mr_seq := mapping_cursor s + 1\<rparr>"] same_mappings_adv r(2)
      by simp
  qed
qed

lemma replay_one_eq:
  assumes "decode_hash C (sr_hash row) = Inr b" and "intern_pair s b (sr_tag row) = (k, s1)"
    and "sr_op row = op_as_str op"
    and "upsert_signed k (op_status op) (n + 1) (sr_origin row) (repo_mappings s) = (m, ms)"
  shows "replay_one C row (s, n, cnt) = (s1\<lparr>repo_mappings := ms\<rparr>, if m = 0 then n else n + 1, cnt + 1)"
proof -
  have k: "k = (fst (intern_row (repo_hashes s) b), fst (intern_row (repo_tags s) (sr_tag row)))"
    "s1 = s\<lparr>repo_hashes := snd (intern_row (repo_hashes s) b), repo_tags := snd (intern_row (repo_tags s) (sr_tag row))\<rparr>"
    using assms(2) by (simp_all add: intern_pair_def)
  show ?thesis using assms(1,3,4) by (cases op) (simp_all add: replay_one_def Let_def case_prod_beta k)
qed

lemma replay_one_skip:
  assumes "\<And>b op. decode_hash C (sr_hash row) = Inr b \<Longrightarrow> sr_op row \<noteq> op_as_str op"
  shows "replay_one C row st = st"
  using assms [of _ Add] assms [of _ Remove]
  by (auto simp: replay_one_def Let_def split: sum.split prod.split)

lemma replay_one_adv:
  assumes "seq_inv s n"
  shows "case replay_one C row (s, n, cnt) of (s', n', cnt') \<Rightarrow> seq_inv s' n' \<and> store_adv s s' \<and> cnt \<le> cnt'"
proof (cases "\<exists>b op. decode_hash C (sr_hash row) = Inr b \<and> sr_op row = op_as_str op")
  case False
  then have "replay_one C row (s, n, cnt) = (s, n, cnt)" by (intro replay_one_skip) blast
  then show ?thesis using assms store_adv_refl by (simp add: seq_inv_def)
next
  case True
  then obtain b op where b: "decode_hash C (sr_hash row) = Inr b" "sr_op row = op_as_str op" by blast
  have s: "store_ok s" "mapping_cursor s = n" using assms by (simp_all add: seq_inv_def)
  obtain k s1 where p: "intern_pair s b (sr_tag row) = (k, s1)" by fastforce
  obtain m ms where u: "upsert_signed k (op_status op) (n + 1) (sr_origin row) (repo_mappings s) = (m, ms)" by fastforce
  have m1: "repo_mappings s1 = repo_mappings s" using p by (auto simp: intern_pair_def)
  have adv: "store_adv s (s1\<lparr>repo_mappings := ms\<rparr>)" "mapping_cursor (s1\<lparr>repo_mappings := ms\<rparr>) = (if m = 0 then n else n + 1)"
    using pair_upsert_adv [where seq = "n + 1" and status = "op_status op" and origin = "sr_origin row" and n = m and ms = ms,
        OF s(1) decode_hash_length [OF b(1)] p _ op_status_01] u m1 s(2) by auto
  show ?thesis unfolding replay_one_eq [OF b(1) p b(2) u]
    using adv store_adv_ok [OF adv(1)] by (simp add: seq_inv_def)
qed

lemma replay_fold_adv:
  assumes "seq_inv s n"
  shows "case fold (replay_one C) rows (s, n, cnt) of (s', n', cnt') \<Rightarrow> seq_inv s' n' \<and> store_adv s s'"
  using assms
proof (induction rows arbitrary: s n cnt)
  case Nil
  then show ?case using store_adv_refl by (simp add: seq_inv_def)
next
  case (Cons row rows)
  obtain s1 n1 c1 where st: "replay_one C row (s, n, cnt) = (s1, n1, c1)" by (metis prod_cases3)
  have 1: "seq_inv s1 n1" "store_adv s s1" using replay_one_adv [OF Cons.prems, where C = C and row = row and cnt = cnt] st by simp_all
  show ?case using Cons.IH [OF 1(1), of c1] 1(2) Cons.prems st store_adv_trans [of s s1]
    by (auto simp: seq_inv_def split: prod.splits)
qed

lemma replay_submissions_adv: "store_ok s \<Longrightarrow> store_adv s (fst (replay_submissions C s))"
  using replay_fold_adv [where s = s and n = "mapping_cursor s" and C = C and rows = "submissions s" and cnt = 0]
  by (auto simp: replay_submissions_def seq_inv_def split: prod.splits)

end
