(* ===== verification/StoreFeed.thy ===== *)
theory StoreFeed
  imports StoreInvariant
begin

text \<open>
  The mapping tables as a change feed (\<open>ChangeFeed\<close>), the current row of a (hash, tag) pair,
  and what each writer does to it.
\<close>

section \<open>The mapping feed\<close>

text \<open>
  The operations that may run between two pulls of a client.  \<open>other\<close> stands for every
  operation of the store that leaves the mapping tables alone (accounts, reports, metadata,
  relations); the rebuild, which clears the tables, is not one of them: it mints a new store
  generation.
\<close>

inductive mapping_step :: "(ustring \<Rightarrow> ustring) \<Rightarrow> crypto \<Rightarrow> store \<Rightarrow> store \<Rightarrow> bool" for lc C where
  submit: "mapping_step lc C s (fst (apply_submission lc C s sub ts))"
| seed: "\<forall>(h, t)\<in>set items. hash_ok h \<Longrightarrow> mapping_step lc C s (fst (seed_mappings C acct s items ts))"
| bulk: "mapping_step lc C s (fst (apply_mappings_bulk C s items))"
| deferred: "caches_ok s c \<Longrightarrow> mapping_cursor s \<le> n \<Longrightarrow>
    fresh_runs C (fst ` set (repo_hashes s)) (map_option fst (ic_hash_carry c)) items \<Longrightarrow>
    mapping_step lc C s (fst (fst (apply_current_mappings_deferred C ser (ckpt :: unit option) items (s, c, n))))"
| moderate: "mapping_step lc C s (fst (moderator_delete_mapping C s h t))"
| replay: "mapping_step lc C s (fst (replay_submissions C s))"
| other: "same_mappings s s' \<Longrightarrow> mapping_step lc C s s'"

inductive_cases mapping_stepE: "mapping_step lc C s s'"

lemma mapping_step_adv: "mapping_step lc C s s' \<Longrightarrow> store_ok s \<Longrightarrow> store_adv s s'"
proof (induction rule: mapping_step.induct)
  case (deferred s c n items ser ckpt)
  obtain s' c' n' st where r: "apply_mappings_impl C ser DeferredAppend ckpt items (s, c, n) = ((s', c', n'), st)"
    by (metis prod_cases4 prod.collapse)
  have "bulk_inv s c n" using deferred by (simp add: bulk_inv_def)
  from apply_mappings_impl_adv [OF this _ r] deferred show ?case
    by (simp add: apply_current_mappings_deferred_def r)
qed (simp_all add: apply_submission_adv seed_mappings_adv apply_mappings_bulk_adv moderator_delete_adv
    replay_submissions_adv same_mappings_adv [OF store_adv_refl])

interpretation mappings: change_feed repo_mappings mr_seq store_ok "mapping_step lc C" for lc C
proof
  show "seqs_pos mr_seq (repo_mappings s)" if "store_ok s" for s using that by (simp add: store_ok_def)
  show "store_ok s'" if "store_ok s" "mapping_step lc C s s'" for s s' lc C
    using mapping_step_adv [OF that(2,1)] by (rule store_adv_ok)
  show "advances mr_seq (repo_mappings s) (repo_mappings s')" if "store_ok s" "mapping_step lc C s s'" for s s' lc C
    using mapping_step_adv [OF that(2,1)] by (simp add: store_adv_def)
qed

lemma mapping_steps_adv: "(mapping_step lc C)\<^sup>*\<^sup>* s s' \<Longrightarrow> store_ok s \<Longrightarrow> store_adv s s'"
proof (induction rule: rtranclp_induct)
  case (step t u)
  then show ?case using mapping_step_adv store_adv_trans store_adv_ok by meson
qed (rule store_adv_refl)

section \<open>The current row of a pair\<close>

definition cur_row :: "store \<Rightarrow> byte list \<Rightarrow> ustring \<Rightarrow> map_row option" where
  "cur_row s h t =
     (case (map_of (repo_hashes s) h, map_of (repo_tags s) t) of
        (Some i, Some j) \<Rightarrow> map_of (repo_mappings s) (i, j)
      | _ \<Rightarrow> None)"

lemma same_mappings_cur_row: "same_mappings s s' \<Longrightarrow> cur_row s' = cur_row s"
  by (simp add: same_mappings_def cur_row_def fun_eq_iff split: option.split)

lemma snd_map_of: "ids_ok t \<Longrightarrow> i \<in> snd ` set t \<Longrightarrow> \<exists>k. map_of t k = Some i"
  by (force simp: ids_ok_def)

lemma row_interned: "store_ok s \<Longrightarrow> map_of (repo_mappings s) k = Some r \<Longrightarrow> interned s k"
  unfolding store_ok_def by blast

text \<open>A row of the old table belongs to the same pair in the new store.\<close>

lemma adv_row_pair:
  assumes s: "store_ok s" and adv: "store_adv s s'"
    and r: "map_of (repo_mappings s) (i, j) = Some r"
    and h: "map_of (repo_hashes s') h = Some i" and t: "map_of (repo_tags s') t = Some j"
  shows "map_of (repo_hashes s) h = Some i \<and> map_of (repo_tags s) t = Some j"
proof -
  have ids: "ids_ok (repo_hashes s)" "ids_ok (repo_tags s)" "ids_ok (repo_hashes s')" "ids_ok (repo_tags s')"
    using s store_adv_ok [OF adv] by (simp_all add: store_ok_def)
  have "interned s (i, j)" by (rule row_interned [OF s r])
  then have "i \<in> snd ` set (repo_hashes s)" "j \<in> snd ` set (repo_tags s)" by (simp_all add: interned_def)
  from this(1) [THEN snd_map_of [OF ids(1)]] this(2) [THEN snd_map_of [OF ids(2)]]
  obtain h' t' where ht: "map_of (repo_hashes s) h' = Some i" "map_of (repo_tags s) t' = Some j" by blast
  then have "map_of (repo_hashes s') h' = Some i" "map_of (repo_tags s') t' = Some j"
    using adv by (simp_all add: store_adv_def)
  then have "h' = h" "t' = t" using ids_ok_inj [OF ids(3) _ h] ids_ok_inj [OF ids(4) _ t] by simp_all
  then show ?thesis using ht by simp
qed

lemma cur_row_intern:
  assumes s: "store_ok s" and adv: "store_adv s s'" and m: "repo_mappings s' = repo_mappings s"
  shows "cur_row s' h t = cur_row s h t"
proof (cases "cur_row s' h t")
  case None
  then show ?thesis using adv by (auto simp: cur_row_def m store_adv_def split: option.splits)
next
  case (Some r)
  then obtain i j where ij: "map_of (repo_hashes s') h = Some i" "map_of (repo_tags s') t = Some j"
    "map_of (repo_mappings s) (i, j) = Some r" by (auto simp: cur_row_def m split: option.splits)
  from adv_row_pair [OF s adv ij(3,1,2)] show ?thesis using Some ij(3) by (simp add: cur_row_def)
qed

lemma cur_row_update:
  assumes "ids_ok (repo_hashes s)" "ids_ok (repo_tags s)"
    and "map_of (repo_hashes s) b = Some (fst k)" "map_of (repo_tags s) tg = Some (snd k)"
  shows "cur_row (s\<lparr>repo_mappings := AList.update k r (repo_mappings s)\<rparr>) h t =
    (if h = b \<and> t = tg then Some r else cur_row s h t)"
proof (cases "h = b \<and> t = tg")
  case True
  then show ?thesis using assms(3,4) by (simp add: cur_row_def)
next
  case False
  have ht: "(i, j) \<noteq> k" if "map_of (repo_hashes s) h = Some i" "map_of (repo_tags s) t = Some j" for i j
  proof
    assume "(i, j) = k"
    then have "map_of (repo_hashes s) h = Some (fst k)" "map_of (repo_tags s) t = Some (snd k)" using that by auto
    then show False using False ids_ok_inj [OF assms(1) _ assms(3)] ids_ok_inj [OF assms(2) _ assms(4)] by blast
  qed
  show ?thesis unfolding if_not_P [OF False]
  proof (cases "map_of (repo_hashes s) h")
    case (Some i)
    then show "cur_row (s\<lparr>repo_mappings := AList.update k r (repo_mappings s)\<rparr>) h t = cur_row s h t"
      using ht by (cases "map_of (repo_tags s) t") (simp_all add: cur_row_def)
  qed (simp add: cur_row_def)
qed

definition row_view :: "map_row \<Rightarrow> int \<times> ustring option" where
  "row_view r = (mr_status r, mr_origin r)"

text \<open>The effect of one resolved signed write on the current rows.\<close>

lemma signed_write_effect:
  assumes s: "store_ok s" and b: "length b = 32" and p: "intern_pair s b tg = (k, s1)"
    and u: "upsert_signed k status (mapping_cursor s + 1) origin (repo_mappings s) = (n, ms)"
    and st: "status = 0 \<or> status = 1"
  obtains r where "row_view r = (status, origin)"
    "n = 0 \<longleftrightarrow> map_option row_view (cur_row s b tg) = Some (status, origin)"
    "if n = 0 then cur_row s b tg = Some r else mr_seq r = mapping_cursor s + 1"
    "mapping_cursor (s1\<lparr>repo_mappings := ms\<rparr>) = (if n = 0 then mapping_cursor s else mapping_cursor s + 1)"
    "\<forall>h t. cur_row (s1\<lparr>repo_mappings := ms\<rparr>) h t = (if h = b \<and> t = tg then Some r else cur_row s h t)"
proof -
  note i = intern_pair_ok [OF s b p]
  have same: "cur_row s1 h t = cur_row s h t" for h t by (rule cur_row_intern [OF s i(1,3)])
  have ids: "ids_ok (repo_hashes s1)" "ids_ok (repo_tags s1)" using store_adv_ok [OF i(1)] by (simp_all add: store_ok_def)
  have cur: "mapping_cursor (s1\<lparr>repo_mappings := ms\<rparr>) = (if n = 0 then mapping_cursor s else mapping_cursor s + 1)"
    by (rule pair_upsert_adv(2) [OF s b p _ st]) (use u i(3) in auto)
  have at: "cur_row s b tg = map_of (repo_mappings s) k" using i(3,4,5) same [of b tg] by (simp add: cur_row_def)
  show thesis
  proof (cases rule: upsert_signed_cases [of "repo_mappings s" k status origin "mapping_cursor s + 1"])
    case (echo r)
    then have n: "n = 0" "ms = repo_mappings s1" using u i(3) by auto
    have "s1\<lparr>repo_mappings := repo_mappings s1\<rparr> = s1" by simp
    then show thesis using that [of r] echo(1-3) n at cur same by (simp add: row_view_def)
  next
    case wrote
    let ?r = "\<lparr>mr_status = status, mr_seq = mapping_cursor s + 1, mr_origin = origin\<rparr>"
    have n: "n = 1" "ms = AList.update k ?r (repo_mappings s1)" using u wrote(2) i(3) by auto
    have "map_option row_view (cur_row s b tg) \<noteq> Some (status, origin)"
      using wrote(1) at by (auto simp: row_view_def)
    then show thesis using that [of ?r] n cur cur_row_update [OF ids i(4,5)] same by (simp add: row_view_def)
  qed
qed

section \<open>Accepted submissions\<close>

text \<open>
  What is documented of the \<open>hex\<close> crate: lower-case digits, decoding inverts encoding, and a
  string with another character (the sentinel) does not decode.
\<close>

definition hex_ok :: "crypto \<Rightarrow> bool" where
  "hex_ok C \<longleftrightarrow> (\<forall>b. hex_encode C b = to_hex b) \<and> (\<forall>b. hex_decode C (to_hex b) = Some b) \<and>
     hex_decode C (lit ''g'') = None"

lemma toy_hex_ok: "hex_ok toy_crypto"
  by (simp add: hex_ok_def toy_crypto_def hex_pairs_to_hex str_len_Cons utf8_width_ascii str_len_def [of "[]"])

lemma decode_own_hash: "hex_ok C \<Longrightarrow> hash_ok h \<Longrightarrow> decode_hash C (to_hex h) = Inr h"
  by (simp add: hex_ok_def decode_hash_def hash_ok_def)

lemma verified_hash:
  "hex_ok C \<Longrightarrow> lower_like lc \<Longrightarrow> verify lc C sub = Inr () \<Longrightarrow>
    \<exists>h. hash_ok h \<and> sub_hash sub = to_hex h \<and> decode_hash C (sub_hash sub) = Inr h"
  using verify_InrD hash_from_own_hex decode_own_hash by metis

lemma banned_ensure [simp]: "is_banned (ensure_account s p ts) q = is_banned s q"
  by (auto simp: is_banned_def ensure_account_def map_add_def split: option.split)

lemma ensure_account_tables [simp]:
  "repo_mappings (ensure_account s p ts) = repo_mappings s" "repo_hashes (ensure_account s p ts) = repo_hashes s"
  "repo_tags (ensure_account s p ts) = repo_tags s" "submissions (ensure_account s p ts) = submissions s"
  "relation_rows (ensure_account s p ts) = relation_rows s" "report_rows (ensure_account s p ts) = report_rows s"
  "repo_meta (ensure_account s p ts) = repo_meta s"
  by (simp_all add: ensure_account_def split: option.split)

lemma ensure_account_cur [simp]: "cur_row (ensure_account s p ts) = cur_row s"
  "mapping_cursor (ensure_account s p ts) = mapping_cursor s"
  by (simp_all add: same_mappings_cur_row same_mappings_cursor)

lemma ensure_account_there: "account (ensure_account s p ts) p \<noteq> None"
  by (auto simp: account_def ensure_account_def map_of_snoc simp del: map_of_append split: option.split)

definition log_row :: "submission \<Rightarrow> int \<Rightarrow> sub_row" where
  "log_row sub ts = \<lparr>sr_op = op_as_str (sub_op sub), sr_hash = sub_hash sub, sr_tag = sub_tag sub,
     sr_author = sub_author sub, sr_signature = sub_signature sub, sr_created_at = ts, sr_origin = sub_origin sub\<rparr>"

lemma submission_tx_effect:
  assumes s: "store_ok s" and d: "decode_hash C (sub_hash sub) = Inr b"
  obtains s' r where "submission_tx C s sub ts = (s', Inr ())" "row_view r = (op_status (sub_op sub), sub_origin sub)"
    "\<forall>h t. cur_row s' h t = (if h = b \<and> t = sub_tag sub then Some r else cur_row s h t)"
    "if map_option row_view (cur_row s b (sub_tag sub)) = Some (op_status (sub_op sub), sub_origin sub)
     then cur_row s b (sub_tag sub) = Some r \<and> mapping_cursor s' = mapping_cursor s
     else mr_seq r = mapping_cursor s + 1 \<and> mapping_cursor s' = mapping_cursor s + 1"
    "submissions s' = submissions s @ [log_row sub ts]" "accounts s' = accounts s"
    "relation_rows s' = relation_rows s" "report_rows s' = report_rows s"
proof -
  obtain k s1 where p: "intern_pair s b (sub_tag sub) = (k, s1)" by fastforce
  obtain n ms where u: "upsert_signed k (op_status (sub_op sub)) (mapping_cursor s + 1) (sub_origin sub) (repo_mappings s) = (n, ms)"
    by fastforce
  obtain r where r: "row_view r = (op_status (sub_op sub), sub_origin sub)"
    "n = 0 \<longleftrightarrow> map_option row_view (cur_row s b (sub_tag sub)) = Some (op_status (sub_op sub), sub_origin sub)"
    "if n = 0 then cur_row s b (sub_tag sub) = Some r else mr_seq r = mapping_cursor s + 1"
    "mapping_cursor (s1\<lparr>repo_mappings := ms\<rparr>) = (if n = 0 then mapping_cursor s else mapping_cursor s + 1)"
    "\<forall>h t. cur_row (s1\<lparr>repo_mappings := ms\<rparr>) h t = (if h = b \<and> t = sub_tag sub then Some r else cur_row s h t)"
    by (rule signed_write_effect [OF s decode_hash_length [OF d] p u op_status_01])
  obtain s2 where s2: "submission_tx C s sub ts = (s2, Inr ())" "same_mappings (s1\<lparr>repo_mappings := ms\<rparr>) s2"
    "submissions s2 = submissions s @ [log_row sub ts]" "accounts s2 = accounts s" "relation_rows s2 = relation_rows s"
    "report_rows s2 = report_rows s"
    unfolding log_row_def using submission_tx_eq [OF d p u] by metis
  note same = same_mappings_cur_row [OF s2(2)] same_mappings_cursor [OF s2(2)]
  have "\<forall>h t. cur_row s2 h t = (if h = b \<and> t = sub_tag sub then Some r else cur_row s h t)" by (simp add: same r(5))
  moreover have "if map_option row_view (cur_row s b (sub_tag sub)) = Some (op_status (sub_op sub), sub_origin sub)
     then cur_row s b (sub_tag sub) = Some r \<and> mapping_cursor s2 = mapping_cursor s
     else mr_seq r = mapping_cursor s + 1 \<and> mapping_cursor s2 = mapping_cursor s + 1"
    using r(2,3,4) same(2) by (auto split: if_splits)
  ultimately show thesis using that [of s2 r] s2 r(1) by blast
qed

lemma apply_submission_accepted:
  "verify lc C sub = Inr () \<Longrightarrow> \<not> is_banned s (sub_author sub) \<Longrightarrow>
    apply_submission lc C s sub ts = submission_tx C (ensure_account s (sub_author sub) ts) sub ts"
  by (simp add: apply_submission_def Let_def)

text \<open>
  C7. What an accepted submission does.  A submission that verifies and whose author is not
  banned succeeds.  Afterwards the submitted pair carries the submitted status and origin, and
  no other (hash, tag) pair has changed.  If the pair already carried both (an echo), its row
  and the repository cursor stay as they were; otherwise the row gets the next sequence number
  and the cursor moves to it.  The submission is appended to the log, and relations and
  reports are untouched.
\<close>

theorem submission_effect:
  assumes "store_ok s" "hex_ok C" "lower_like lc" "verify lc C sub = Inr ()" "\<not> is_banned s (sub_author sub)"
  shows "\<exists>s' h r. apply_submission lc C s sub ts = (s', Inr ()) \<and> sub_hash sub = to_hex h \<and>
    row_view r = (op_status (sub_op sub), sub_origin sub) \<and>
    (\<forall>g t. cur_row s' g t = (if g = h \<and> t = sub_tag sub then Some r else cur_row s g t)) \<and>
    (if map_option row_view (cur_row s h (sub_tag sub)) = Some (op_status (sub_op sub), sub_origin sub)
     then cur_row s h (sub_tag sub) = Some r \<and> mapping_cursor s' = mapping_cursor s
     else mr_seq r = mapping_cursor s + 1 \<and> mapping_cursor s' = mapping_cursor s + 1) \<and>
    submissions s' = submissions s @ [log_row sub ts] \<and> account s' (sub_author sub) \<noteq> None \<and>
    relation_rows s' = relation_rows s \<and> report_rows s' = report_rows s"
proof -
  let ?s = "ensure_account s (sub_author sub) ts"
  obtain h where h: "sub_hash sub = to_hex h" "decode_hash C (sub_hash sub) = Inr h"
    using verified_hash [OF assms(2,3,4)] by blast
  have ok: "store_ok ?s" using ensure_account_adv [OF assms(1)] by (rule store_adv_ok)
  obtain s' r where e:
    "submission_tx C ?s sub ts = (s', Inr ())" "row_view r = (op_status (sub_op sub), sub_origin sub)"
    "\<forall>g t. cur_row s' g t = (if g = h \<and> t = sub_tag sub then Some r else cur_row ?s g t)"
    "if map_option row_view (cur_row ?s h (sub_tag sub)) = Some (op_status (sub_op sub), sub_origin sub)
     then cur_row ?s h (sub_tag sub) = Some r \<and> mapping_cursor s' = mapping_cursor ?s
     else mr_seq r = mapping_cursor ?s + 1 \<and> mapping_cursor s' = mapping_cursor ?s + 1"
    "submissions s' = submissions ?s @ [log_row sub ts]" "accounts s' = accounts ?s"
    "relation_rows s' = relation_rows ?s" "report_rows s' = report_rows ?s"
    by (rule submission_tx_effect [OF ok h(2)])
  note e = e [unfolded ensure_account_cur ensure_account_tables]
  have "account s' (sub_author sub) \<noteq> None"
    using ensure_account_there [of s "sub_author sub" ts] e(6) by (simp add: account_def)
  then show ?thesis unfolding apply_submission_accepted [OF assms(4,5)]
    by (intro exI [of _ s'] exI [of _ h] exI [of _ r] conjI allI e h(1))
qed


text \<open>A signed submission for the witnesses.\<close>

definition toy_sub :: submission where
  "toy_sub = sign_with_origin toy_crypto (replicate 32 7) Add (replicate 32 1)
     \<lparr>namespace = [], subtag = lit ''a''\<rparr> (Some (lit ''tool''))"

lemma toy_sub_fields: "sub_op toy_sub = Add" "sub_hash toy_sub = to_hex (replicate 32 1)" "sub_tag toy_sub = lit ''a''"
  "sub_origin toy_sub = Some (lit ''tool'')"
  by (simp_all add: toy_sub_def sign_with_origin_def Let_def tag_display_def)

lemma toy_sub_verified: "verify to_ascii_lowercase toy_crypto toy_sub = Inr ()"
  unfolding toy_sub_def
proof (rule verify_sign [OF lower_like_ascii toy_crypto_ok])
  show "tag_wf to_ascii_lowercase \<lparr>namespace = [], subtag = lit ''a''\<rparr>"
    by (simp add: tag_wf_def normal_def tag_normalize_def str_eval)
  show "verify_origin (Some (lit ''tool'')) = Inr ()"
    by (simp add: verify_origin_def MAX_ORIGIN_LEN_def str_len_def str_eval)
qed (simp_all add: hash_ok_def)

lemma store_empty_simps [simp]: "\<not> is_banned store_empty p" "cur_row store_empty = (\<lambda>_ _. None)"
  "mapping_cursor store_empty = 0" "submissions store_empty = []"
  by (simp_all add: is_banned_def cur_row_def mapping_cursor_def max_seq_def coalesce_max_def store_empty_def fun_eq_iff)

theorem submission_effect_witness:
  "\<exists>s' r. apply_submission to_ascii_lowercase toy_crypto store_empty toy_sub 5 = (s', Inr ()) \<and>
    cur_row s' (replicate 32 1) (lit ''a'') = Some r \<and> mr_seq r = 1 \<and> mapping_cursor s' = 1"
proof -
  obtain s' h r where e: "apply_submission to_ascii_lowercase toy_crypto store_empty toy_sub 5 = (s', Inr ())"
    "sub_hash toy_sub = to_hex h" "\<forall>g t. cur_row s' g t = (if g = h \<and> t = sub_tag toy_sub then Some r else cur_row store_empty g t)"
    "mr_seq r = 1" "mapping_cursor s' = 1"
    using submission_effect [OF store_empty_ok toy_hex_ok lower_like_ascii toy_sub_verified, of 5] by auto
  have "decode_hash toy_crypto (to_hex h) = decode_hash toy_crypto (to_hex (replicate 32 1))"
    using e(2) by (simp add: toy_sub_fields)
  then have "h = replicate 32 1" using toy_hex_ok by (auto simp: decode_hash_def hex_ok_def split: if_splits)
  then show ?thesis using e by (simp add: toy_sub_fields)
qed

lemma submission_tx_failed: "snd (submission_tx C s sub ts) = Inl e \<Longrightarrow> fst (submission_tx C s sub ts) = s"
  by (auto simp: submission_tx_def Let_def split: sum.splits prod.splits)

text \<open>
  C8. What a rejected submission does not do.  A submission that fails verification leaves the
  whole store as it was; one from a banned author always fails; and a failed submission of any
  kind changes nothing but the table of accounts, where at most the author's row is new, as an
  unbanned contributor.
\<close>

theorem submission_rejected:
  "(case verify lc C sub of
      Inl e \<Rightarrow> apply_submission lc C s sub ts = (s, Inl (Rejected e))
    | Inr _ \<Rightarrow> is_banned s (sub_author sub) \<longrightarrow>
        snd (apply_submission lc C s sub ts) = Inl (AccountBanned (sub_author sub))) \<and>
   (\<forall>e. snd (apply_submission lc C s sub ts) = Inl e \<longrightarrow>
      fst (apply_submission lc C s sub ts) = s \<or>
      fst (apply_submission lc C s sub ts) = ensure_account s (sub_author sub) ts)"
  by (auto simp: apply_submission_def Let_def submission_tx_failed split: sum.split)

theorem submission_rejected_witness:
  "apply_submission to_ascii_lowercase toy_crypto (fst (set_banned (ensure_account store_empty (sub_author toy_sub) 0)
      (sub_author toy_sub) True)) toy_sub 5 =
    (fst (set_banned (ensure_account store_empty (sub_author toy_sub) 0) (sub_author toy_sub) True),
     Inl (AccountBanned (sub_author toy_sub)))"
  (is "apply_submission _ _ ?s _ _ = _")
proof -
  have "is_banned ?s (sub_author toy_sub)" "ensure_account ?s (sub_author toy_sub) 5 = ?s"
    by (simp_all add: is_banned_def set_banned_def ensure_account_def store_empty_def)
  then show ?thesis
    using submission_rejected [where lc = to_ascii_lowercase and C = toy_crypto and sub = toy_sub and s = ?s and ts = 5] by (auto simp: toy_sub_verified prod_eq_iff)
qed

section \<open>Moderator deletion\<close>

lemma cur_row_key:
  "cur_row s h t = Some r \<longleftrightarrow> (\<exists>i j. map_of (repo_hashes s) h = Some i \<and> map_of (repo_tags s) t = Some j \<and>
     map_of (repo_mappings s) (i, j) = Some r)"
  by (cases "map_of (repo_hashes s) h"; cases "map_of (repo_tags s) t") (simp_all add: cur_row_def)

lemma cur_row_cong:
  "repo_hashes s' = repo_hashes s \<Longrightarrow> repo_tags s' = repo_tags s \<Longrightarrow> repo_mappings s' = repo_mappings s \<Longrightarrow> cur_row s' = cur_row s"
  by (rule same_mappings_cur_row) (simp add: same_mappings_def)

text \<open>
  C11. What a moderator deletion does.  It succeeds exactly when the hash is 64 hex digits and
  the pair has a row, current or already deleted; then this pair is marked deleted under the
  next sequence number with its origin kept, so that every client catching up learns of it,
  no other pair changes, the log of submissions is untouched, and of the reports exactly the
  open ones about this pair become closed.  When it fails the store is unchanged.
\<close>

theorem moderator_delete_effect:
  assumes "store_ok s"
  shows "case decode_hash C h of
      Inl e \<Rightarrow> moderator_delete_mapping C s h t = (s, Inl e)
    | Inr b \<Rightarrow>
        (case cur_row s b t of
           None \<Rightarrow> moderator_delete_mapping C s h t = (s, Inl (MappingNotFound h t))
         | Some r \<Rightarrow>
             (\<exists>s'. moderator_delete_mapping C s h t = (s', Inr ()) \<and> mapping_cursor s' = mapping_cursor s + 1 \<and>
                (\<forall>g u. cur_row s' g u =
                   (if g = b \<and> u = t then Some (r\<lparr>mr_status := 1, mr_seq := mapping_cursor s + 1\<rparr>) else cur_row s g u)) \<and>
                submissions s' = submissions s \<and>
                report_rows s' = map (\<lambda>rp. if rp_hash rp = h \<and> rp_tag rp = t \<and> rp_status rp = lit ''open''
                  then rp\<lparr>rp_status := lit ''closed''\<rparr> else rp) (report_rows s)))"
proof (cases "decode_hash C h")
  case (Inl e)
  then show ?thesis by (simp add: moderator_delete_mapping_def)
next
  case (Inr b)
  show ?thesis
  proof (cases "cur_row s b t")
    case None
    then have "moderator_delete_mapping C s h t = (s, Inl (MappingNotFound h t))"
      by (auto simp: moderator_delete_mapping_def Let_def Inr cur_row_def split: option.splits)
    then show ?thesis by (simp add: Inr None)
  next
    case (Some r)
    then obtain i j where ij: "map_of (repo_hashes s) b = Some i" "map_of (repo_tags s) t = Some j"
      "map_of (repo_mappings s) (i, j) = Some r" by (auto simp: cur_row_key)
    let ?r = "r\<lparr>mr_status := 1, mr_seq := mapping_cursor s + 1\<rparr>"
    let ?s = "s\<lparr>repo_mappings := AList.update (i, j) ?r (repo_mappings s)\<rparr>"
    let ?rep = "map (\<lambda>rp. if rp_hash rp = h \<and> rp_tag rp = t \<and> rp_status rp = lit ''open''
      then rp\<lparr>rp_status := lit ''closed''\<rparr> else rp) (report_rows s)"
    have ids: "ids_ok (repo_hashes s)" "ids_ok (repo_tags s)" using assms by (simp_all add: store_ok_def)
    have run: "moderator_delete_mapping C s h t = (?s\<lparr>report_rows := ?rep\<rparr>, Inr ())"
      by (simp add: moderator_delete_mapping_def Inr ij Let_def)
    have same: "same_mappings ?s (?s\<lparr>report_rows := ?rep\<rparr>)" by simp
    have "interned s (i, j)" by (rule row_interned [OF assms ij(3)])
    then have "mapping_cursor ?s = mapping_cursor s + 1" using write_row_adv(2) [OF assms, of "(i, j)" ?r] by simp
    moreover have "cur_row ?s g u = (if g = b \<and> u = t then Some ?r else cur_row s g u)" for g u
      by (rule cur_row_update [OF ids]) (simp_all add: ij)
    ultimately show ?thesis unfolding Inr Some run sum.case option.case
      by (intro exI [of _ "?s\<lparr>report_rows := ?rep\<rparr>"] conjI refl)
        (simp_all only: same_mappings_cur_row [OF same] same_mappings_cursor [OF same], simp_all)
  qed
qed

text \<open>A store with one current mapping, for the witnesses.\<close>

definition toy_store :: store where
  "toy_store = store_empty\<lparr>repo_hashes := [(replicate 32 1, 1)], repo_tags := [(lit ''a'', 1)],
     repo_mappings := [((1, 1), \<lparr>mr_status = 0, mr_seq = 1, mr_origin = None\<rparr>)]\<rparr>"

lemma toy_store_ok: "store_ok toy_store"
  by (simp add: store_ok_def toy_store_def ids_ok_def seqs_pos_def keyed_def interned_def)

lemma toy_store_cur: "cur_row toy_store (replicate 32 1) (lit ''a'') = Some \<lparr>mr_status = 0, mr_seq = 1, mr_origin = None\<rparr>"
  by (simp add: cur_row_def toy_store_def)

lemma toy_hash_decode: "decode_hash toy_crypto (to_hex (replicate 32 1)) = Inr (replicate 32 1)"
  by (rule decode_own_hash [OF toy_hex_ok]) (simp add: hash_ok_def)

theorem moderator_delete_effect_witness:
  "\<exists>s'. moderator_delete_mapping toy_crypto toy_store (to_hex (replicate 32 1)) (lit ''a'') = (s', Inr ()) \<and>
    cur_row s' (replicate 32 1) (lit ''a'') = Some \<lparr>mr_status = 1, mr_seq = mapping_cursor toy_store + 1, mr_origin = None\<rparr>"
  using moderator_delete_effect [OF toy_store_ok, of toy_crypto "to_hex (replicate 32 1)" "lit ''a''"]
  by (auto simp: toy_hash_decode toy_store_cur simp del: replicate.simps lit_Cons)

section \<open>Seeding\<close>

lemma intern_hit_row: "map_of (snd (intern_row t k)) k' = map_of t k' \<or> k' = k"
  by (simp add: intern_row_def map_of_snoc del: map_of_append split: option.split)

lemma cur_row_adv:
  assumes "store_ok s" "store_adv s s'" "cur_row s h t = Some r"
  obtains r' where "cur_row s' h t = Some r'" "r' = r \<or> mapping_cursor s < mr_seq r'"
proof -
  obtain i j where ij: "map_of (repo_hashes s) h = Some i" "map_of (repo_tags s) t = Some j"
    "map_of (repo_mappings s) (i, j) = Some r" using assms(3) by (auto simp: cur_row_key)
  have ids': "map_of (repo_hashes s') h = Some i" "map_of (repo_tags s') t = Some j"
    using assms(2) ij by (simp_all add: store_adv_def)
  have adv: "advances mr_seq (repo_mappings s) (repo_mappings s')" using assms(2) by (simp add: store_adv_def)
  then obtain r' where r': "map_of (repo_mappings s') (i, j) = Some r'" using ij(3) unfolding advances_def by blast
  have "r' = r \<or> mapping_cursor s < mr_seq r'"
    using adv r' ij(3) unfolding advances_def mapping_cursor_def by (metis option.inject)
  then show thesis using that r' ids' by (auto simp: cur_row_key)
qed

lemma status_write_effect:
  assumes s: "store_ok s" and b: "length b = 32" and p: "intern_pair s b tg = (k, s1)"
    and u: "upsert_status k status seq (repo_mappings s) = (n, ms)"
    and seq: "mapping_cursor s < seq" and st: "status = 0 \<or> status = 1"
  obtains r where "mr_status r = status" "mr_origin r = (case cur_row s b tg of None \<Rightarrow> None | Some r' \<Rightarrow> mr_origin r')"
    "n = (if map_option mr_status (cur_row s b tg) = Some status then 0 else 1)"
    "\<forall>h t. cur_row (s1\<lparr>repo_mappings := ms\<rparr>) h t = (if h = b \<and> t = tg then Some r else cur_row s h t)"
proof -
  note i = intern_pair_ok [OF s b p]
  have same: "cur_row s1 h t = cur_row s h t" for h t by (rule cur_row_intern [OF s i(1,3)])
  have ids: "ids_ok (repo_hashes s1)" "ids_ok (repo_tags s1)" using store_adv_ok [OF i(1)] by (simp_all add: store_ok_def)
  have at: "cur_row s b tg = map_of (repo_mappings s) k" using i(3,4,5) same [of b tg] by (simp add: cur_row_def)
  show thesis
  proof (cases rule: upsert_status_cases [of "repo_mappings s" k status seq])
    case (echo r)
    then have "n = 0" "ms = repo_mappings s1" using u i(3) by auto
    moreover have "s1\<lparr>repo_mappings := repo_mappings s1\<rparr> = s1" by simp
    ultimately show thesis using that [of r] echo at same by simp
  next
    case (wrote r)
    then have n: "n = 1" "ms = AList.update k r (repo_mappings s1)" using u i(3) by auto
    have "map_option mr_status (cur_row s b tg) \<noteq> Some status" using wrote(3) at by auto
    then show thesis using that [of r] n wrote(1,4) at cur_row_update [OF ids i(4,5)] same by simp
  qed
qed

lemma seed_one_effect:
  assumes i: "seq_inv s n" and h: "hash_ok h" and st: "seed_one C acct ts (h, t) (s, n, ins, sk) = (s', n', ins', sk')"
  obtains r where "mr_status r = 0"
    "\<forall>g u. cur_row s' g u = (if g = h \<and> u = tag_display t then Some r else cur_row s g u)"
proof -
  have s: "store_ok s" "mapping_cursor s < n + 1" "length h = 32" using i h by (simp_all add: seq_inv_def hash_ok_def)
  obtain k s1 where p: "intern_pair s h (tag_display t) = (k, s1)" by fastforce
  note ip = intern_pair_ok [OF s(1,3) p]
  obtain c ms where u: "upsert_status k 0 (n + 1) (repo_mappings s) = (c, ms)" by fastforce
  obtain r where r: "mr_status r = 0"
    "\<forall>g u. cur_row (s1\<lparr>repo_mappings := ms\<rparr>) g u = (if g = h \<and> u = tag_display t then Some r else cur_row s g u)"
    by (rule status_write_effect [OF s(1,3) p u s(2)]) simp_all
  have "cur_row s' = cur_row (s1\<lparr>repo_mappings := ms\<rparr>)"
  proof (cases "map_option mr_status (map_of (repo_mappings s) k) = Some 0")
    case True
    then have "s' = s1" "ms = repo_mappings s1" using st u ip(3)
      by (auto simp: seed_one_eq [OF p] upsert_status_def)
    then show ?thesis by simp
  next
    case False
    then show ?thesis using st unfolding seed_one_eq [OF p] if_not_P [OF False] u by (intro cur_row_cong) auto
  qed
  then show thesis using that [of r] r by simp
qed

lemma seed_fold_current:
  assumes "seq_inv s n" "\<forall>(h, t)\<in>set items. hash_ok h"
    and "fold (seed_one C acct ts) items (s, n, ins, sk) = (s', n', ins', sk')"
  shows "((\<exists>u. (h, u) \<in> set items \<and> tag_display u = t) \<longrightarrow> map_option mr_status (cur_row s' h t) = Some 0) \<and>
    (\<not> (\<exists>u. (h, u) \<in> set items \<and> tag_display u = t) \<longrightarrow> cur_row s' h t = cur_row s h t) \<and>
    (map_option mr_status (cur_row s h t) = Some 0 \<longrightarrow> map_option mr_status (cur_row s' h t) = Some 0)"
  using assms
proof (induction items arbitrary: s n ins sk)
  case (Cons it items)
  obtain g u where it: "it = (g, u)" by fastforce
  obtain s1 n1 i1 k1 where st: "seed_one C acct ts (g, u) (s, n, ins, sk) = (s1, n1, i1, k1)" by (metis prod_cases4)
  have g: "hash_ok g" using Cons.prems(2) it by simp
  obtain r where r: "mr_status r = 0"
    "\<forall>x v. cur_row s1 x v = (if x = g \<and> v = tag_display u then Some r else cur_row s x v)"
    by (rule seed_one_effect [OF Cons.prems(1) g st])
  have inv: "seq_inv s1 n1"
    using seed_one_adv [OF Cons.prems(1) g, where C = C and acct = acct and ts = ts and t = u and ins = ins and sk = sk] st by simp
  have rest: "\<forall>(h, t)\<in>set items. hash_ok h" using Cons.prems(2) by simp
  have f: "fold (seed_one C acct ts) items (s1, n1, i1, k1) = (s', n', ins', sk')" using Cons.prems(3) it st by simp
  have c1: "cur_row s1 h t = (if h = g \<and> t = tag_display u then Some r else cur_row s h t)" using r(2) by blast
  show ?case using Cons.IH [OF inv rest f] c1 r(1) it by (cases "h = g \<and> t = tag_display u") auto
qed auto

lemma seed_one_again:
  assumes "ids_ok (repo_hashes s)" "map_option mr_status (cur_row s h (tag_display t)) = Some 0"
  shows "seed_one C acct ts (h, t) (s, n, ins, sk) = (s, n, ins, sk + 1)"
proof -
  obtain i j r where ij: "map_of (repo_hashes s) h = Some i" "map_of (repo_tags s) (tag_display t) = Some j"
    "map_of (repo_mappings s) (i, j) = Some r" "mr_status r = 0" using assms(2) by (auto simp: cur_row_key)
  then show ?thesis by (simp add: seed_one_def Let_def intern_row_hit)
qed

lemma seed_fold_again:
  assumes "ids_ok (repo_hashes s)" "\<forall>(h, t)\<in>set items. map_option mr_status (cur_row s h (tag_display t)) = Some 0"
  shows "fold (seed_one C acct ts) items (s, n, ins, sk) = (s, n, ins, sk + length items)"
  using assms(2)
proof (induction items arbitrary: sk)
  case (Cons it items)
  obtain g u where it: "it = (g, u)" by fastforce
  show ?case using Cons by (simp add: it seed_one_again [OF assms(1)])
qed simp

lemma seed_one_accounts: "accounts (fst (seed_one C acct ts it st)) = accounts (fst st)"
  by (auto simp: seed_one_def Let_def split: prod.split)

lemma seed_fold_accounts: "accounts (fst (fold (seed_one C acct ts) items st)) = accounts (fst st)"
  by (induction items arbitrary: st) (simp_all add: seed_one_accounts)

text \<open>
  C12. Operator seeding.  Unless the operator is banned, seeding makes every item's pair
  current and changes no other pair; every item is counted exactly once, as inserted or as
  skipped; and seeding the same items again, at whatever time, inserts nothing and leaves the
  store, its cursor and its log exactly as they are.
\<close>

theorem seed_idempotent:
  assumes s: "store_ok s" and items: "\<forall>(h, t)\<in>set items. hash_ok h" and b: "\<not> is_banned s (public_hex C acct)"
  shows "\<exists>s' sm. seed_mappings C acct s items ts = (s', Inr sm) \<and> ss_total sm = length items \<and>
    ss_inserted sm + ss_skipped sm = length items \<and>
    (\<forall>h t. if \<exists>u. (h, u) \<in> set items \<and> tag_display u = t then map_option mr_status (cur_row s' h t) = Some 0
       else cur_row s' h t = cur_row s h t) \<and>
    seed_mappings C acct s' items ts' =
      (s', Inr \<lparr>ss_inserted = 0, ss_skipped = length items, ss_total = length items\<rparr>)"
proof -
  let ?s = "ensure_account s (public_hex C acct) ts"
  obtain s' n ins sk where f: "fold (seed_one C acct ts) items (?s, mapping_cursor s, 0, 0) = (s', n, ins, sk)"
    by (metis prod_cases4)
  have inv: "seq_inv ?s (mapping_cursor s)"
    using store_adv_ok [OF ensure_account_adv [OF s]] by (simp add: seq_inv_def)
  have adv: "seq_inv s' n" "ins + sk = length items"
    using seed_fold_adv [OF inv items, where C = C and acct = acct and ts = ts and ins = 0 and sk = 0] f by auto
  have cur: "if \<exists>u. (h, u) \<in> set items \<and> tag_display u = t then map_option mr_status (cur_row s' h t) = Some 0
       else cur_row s' h t = cur_row s h t" for h t
    using seed_fold_current [OF inv items f, of h t] by simp
  have acc: "accounts s' = accounts ?s" using seed_fold_accounts [of C acct ts items "(?s, mapping_cursor s, 0, 0)"] f by simp
  have "ensure_account s' (public_hex C acct) ts' = s'"
    using ensure_account_there [of s "public_hex C acct" ts] acc
    by (auto simp: account_def ensure_account_def [of s'])
  moreover have "is_banned s' = is_banned ?s" by (simp add: is_banned_def [abs_def] acc)
  then have "\<not> is_banned s' (public_hex C acct)" using b by simp
  moreover have "fold (seed_one C acct ts') items (s', mapping_cursor s', 0, 0) = (s', mapping_cursor s', 0, length items)"
  proof -
    have ids: "ids_ok (repo_hashes s')" using adv by (simp add: seq_inv_def store_ok_def)
    have "map_option mr_status (cur_row s' h (tag_display t)) = Some 0" if "(h, t) \<in> set items" for h t
      using cur [of h "tag_display t"] that by (auto split: if_splits)
    then have "\<forall>(h, t)\<in>set items. map_option mr_status (cur_row s' h (tag_display t)) = Some 0" by blast
    from seed_fold_again [OF ids this, of C acct ts' "mapping_cursor s'" 0 0] show ?thesis by simp
  qed
  ultimately have "seed_mappings C acct s' items ts' =
      (s', Inr \<lparr>ss_inserted = 0, ss_skipped = length items, ss_total = length items\<rparr>)"
    by (simp add: seed_mappings_def Let_def)
  moreover have "seed_mappings C acct s items ts = (s', Inr \<lparr>ss_inserted = ins, ss_skipped = sk, ss_total = ins + sk\<rparr>)"
    using b f by (simp add: seed_mappings_def Let_def)
  ultimately show ?thesis using adv(2) cur
    by (intro exI [of _ s'] exI [of _ "\<lparr>ss_inserted = ins, ss_skipped = sk, ss_total = ins + sk\<rparr>"]) simp
qed

definition toy_item :: "hash \<times> tag" where
  "toy_item = (replicate 32 1, \<lparr>namespace = [], subtag = lit ''a''\<rparr>)"

theorem seed_idempotent_witness:
  "\<exists>s'. seed_mappings toy_crypto (replicate 32 7) s' [toy_item, toy_item] 9 =
      (s', Inr \<lparr>ss_inserted = 0, ss_skipped = 2, ss_total = 2\<rparr>) \<and>
    map_option mr_status (cur_row s' (replicate 32 1) (lit ''a'')) = Some 0"
proof -
  have "\<forall>(h, t)\<in>set [toy_item, toy_item]. hash_ok h" by (simp add: toy_item_def hash_ok_def)
  from seed_idempotent [OF store_empty_ok this, of toy_crypto "replicate 32 7" 3 9]
  obtain s' where s': "\<forall>h t. if \<exists>u. (h, u) \<in> set [toy_item, toy_item] \<and> tag_display u = t
       then map_option mr_status (cur_row s' h t) = Some 0 else cur_row s' h t = cur_row store_empty h t"
    "seed_mappings toy_crypto (replicate 32 7) s' [toy_item, toy_item] 9 =
      (s', Inr \<lparr>ss_inserted = 0, ss_skipped = 2, ss_total = 2\<rparr>)" by auto
  have "\<exists>u. (replicate 32 1, u) \<in> set [toy_item, toy_item] \<and> tag_display u = lit ''a''"
    by (simp add: toy_item_def tag_display_def)
  then show ?thesis using s' by (metis (no_types, lifting))
qed

section \<open>Bulk ingest\<close>

text \<open>The status the rows ask for: that of the last row of the pair with a sound hash.\<close>

definition bulk_last :: "crypto \<Rightarrow> (ustring \<times> ustring \<times> bool) list \<Rightarrow> byte list \<Rightarrow> ustring \<Rightarrow> int option \<Rightarrow> int option" where
  "bulk_last C items h t = fold (\<lambda>(hx, tg, del) acc.
     if decode_hash C hx = Inr h \<and> tg = t then Some (if del then 1 else 0) else acc) items"

definition after_bulk :: "int option \<Rightarrow> map_row option \<Rightarrow> map_row option \<Rightarrow> bool" where
  "after_bulk want old new \<longleftrightarrow>
     (case want of None \<Rightarrow> new = old
      | Some st \<Rightarrow> map_option row_view new = Some (st, case old of None \<Rightarrow> None | Some r \<Rightarrow> mr_origin r))"

lemma bulk_fold_effect:
  assumes "bulk_inv s c n" "mapping_cursor s = n"
    and "fold (bulk_one C Indexed) items (s, c, n, st) = (s', c', n', st')"
    and "after_bulk want old (cur_row s h t)"
  shows "after_bulk (bulk_last C items h t want) old (cur_row s' h t) \<and> submissions s' = submissions s \<and>
    n' + int (bs_applied st + bs_deleted st) = n + int (bs_applied st' + bs_deleted st')"
  using assms
proof (induction items arbitrary: s c n st want)
  case (Cons it items)
  obtain hx tg del where it: "it = (hx, tg, del)" using prod_cases3 by blast
  have s: "store_ok s" "caches_ok s c" "mapping_cursor s = n" using Cons.prems(1,2) by (simp_all add: bulk_inv_def)
  show ?case
  proof (cases "decode_hash C hx")
    case (Inl e)
    then show ?thesis using Cons.IH [OF Cons.prems(1,2) _ Cons.prems(4)] Cons.prems(3)
      by (simp add: it bulk_one_def bulk_last_def)
  next
    case (Inr b)
    obtain k s1 where p: "intern_pair s b tg = (k, s1)" by fastforce
    let ?st = "if del then 1 else (0 :: int)"
    obtain m ms where u: "upsert_status k ?st (n + 1) (repo_mappings s) = (m, ms)" by fastforce
    note len = decode_hash_length [OF Inr]
    obtain c1 where c1: "bulk_one C Indexed it (s, c, n, st) =
       (s1\<lparr>repo_mappings := ms\<rparr>, c1, if m = 0 then n else n + 1,
        if m = 0 then st else if del then st\<lparr>bs_deleted := bs_deleted st + 1\<rparr> else st\<lparr>bs_applied := bs_applied st + 1\<rparr>)"
      "caches_ok (s1\<lparr>repo_mappings := ms\<rparr>) c1"
      using bulk_one_eq [OF s(2) Inr _ p u] unfolding it by (metis append_safe_def hash_resolve.distinct(1))
    have st01: "?st = 0 \<or> ?st = 1" by simp
    have m1: "repo_mappings s1 = repo_mappings s" "submissions s1 = submissions s" using p by (auto simp: intern_pair_def)
    have adv: "store_adv s (s1\<lparr>repo_mappings := ms\<rparr>)" "mapping_cursor (s1\<lparr>repo_mappings := ms\<rparr>) = (if m = 0 then n else n + 1)"
      using pair_upsert_adv [where seq = "n + 1" and n = m and ms = ms, OF s(1) len p _ st01] u m1 s(3) by auto
    obtain r where r: "mr_status r = ?st" "mr_origin r = (case cur_row s b tg of None \<Rightarrow> None | Some r' \<Rightarrow> mr_origin r')"
      "\<forall>h t. cur_row (s1\<lparr>repo_mappings := ms\<rparr>) h t = (if h = b \<and> t = tg then Some r else cur_row s h t)"
      by (rule status_write_effect [OF s(1) len p u _ st01]) (simp_all add: s(3))
    let ?want = "if decode_hash C hx = Inr h \<and> tg = t then Some ?st else want"
    have inv: "bulk_inv (s1\<lparr>repo_mappings := ms\<rparr>) c1 (if m = 0 then n else n + 1)"
      using store_adv_ok [OF adv(1)] c1(2) adv(2) by (simp add: bulk_inv_def)
    have ab: "after_bulk ?want old (cur_row (s1\<lparr>repo_mappings := ms\<rparr>) h t)"
    proof (cases "h = b \<and> t = tg")
      case True
      then show ?thesis using r Cons.prems(4) Inr
        by (auto simp: after_bulk_def row_view_def split: option.splits)
    next
      case False
      then show ?thesis using r Cons.prems(4) Inr by auto
    qed
    have run: "fold (bulk_one C Indexed) items (s1\<lparr>repo_mappings := ms\<rparr>, c1, if m = 0 then n else n + 1,
        if m = 0 then st else if del then st\<lparr>bs_deleted := bs_deleted st + 1\<rparr> else st\<lparr>bs_applied := bs_applied st + 1\<rparr>) =
      (s', c', n', st')" using Cons.prems(3) c1(1) by simp
    from Cons.IH [OF inv adv(2) run ab] show ?thesis
      using m1(2) by (simp add: it bulk_last_def split: if_splits)
  qed
qed (simp add: bulk_last_def)

text \<open>
  C13. Bulk ingest of mirrored rows.  Afterwards every pair named by a row with a sound hash
  has the status of its last row, with its origin kept; every other pair is as before and rows
  with a corrupt hash have no effect; the cursor advances by exactly the number of rows counted
  as applied or deleted, so echoes cost no sequence numbers; and nothing enters the log of
  signed submissions.
\<close>

theorem bulk_effect:
  assumes "store_ok s" and "apply_mappings_bulk C s items = (s', stats)"
  shows "(\<forall>h t. case bulk_last C items h t None of
        None \<Rightarrow> cur_row s' h t = cur_row s h t
      | Some st \<Rightarrow> map_option row_view (cur_row s' h t) =
          Some (st, case cur_row s h t of None \<Rightarrow> None | Some r \<Rightarrow> mr_origin r)) \<and>
    mapping_cursor s' = mapping_cursor s + int (bs_applied stats + bs_deleted stats) \<and>
    submissions s' = submissions s"
proof -
  let ?c = "caches_empty\<lparr>ic_hash := []\<rparr>" and ?z = "\<lparr>bs_applied = 0, bs_deleted = 0\<rparr>"
  obtain s2 c2 n2 st2 where f: "fold (bulk_one C Indexed) items (s, ?c, mapping_cursor s, ?z) = (s2, c2, n2, st2)"
    by (metis prod_cases4)
  have r: "s' = s2" "stats = st2"
    using assms(2) f by (simp_all add: apply_mappings_bulk_def apply_mappings_bulk_cached_def apply_mappings_impl_def)
  have inv: "bulk_inv s ?c (mapping_cursor s)" using assms(1) by (simp add: bulk_inv_def caches_empty_def caches_ok_def)
  have "bulk_inv s2 c2 n2 \<and> mapping_cursor s2 = n2"
    using bulk_fold [OF inv caches_empty_ok, of Indexed C items ?z] f by auto
  moreover have e: "after_bulk (bulk_last C items h t None) (cur_row s h t) (cur_row s2 h t) \<and> submissions s2 = submissions s \<and>
    n2 + int (bs_applied ?z + bs_deleted ?z) = mapping_cursor s + int (bs_applied st2 + bs_deleted st2)" for h t
    by (rule bulk_fold_effect [OF inv refl f]) (simp add: after_bulk_def)
  ultimately show ?thesis using e unfolding r by (simp add: after_bulk_def)
qed

theorem bulk_effect_witness:
  "map_option row_view (cur_row (fst (apply_mappings_bulk toy_crypto toy_store
      [(to_hex (replicate 32 1), lit ''a'', False), (to_hex (replicate 32 1), lit ''a'', True)]))
      (replicate 32 1) (lit ''a'')) = Some (1, None)"
  (is "map_option _ (cur_row (fst ?r) _ _) = _")
proof -
  have last: "bulk_last toy_crypto [(to_hex (replicate 32 1), lit ''a'', False), (to_hex (replicate 32 1), lit ''a'', True)]
      (replicate 32 1) (lit ''a'') None = Some 1"
    by (simp add: bulk_last_def toy_hash_decode del: replicate.simps lit_Cons)
  have "case bulk_last toy_crypto [(to_hex (replicate 32 1), lit ''a'', False), (to_hex (replicate 32 1), lit ''a'', True)]
        (replicate 32 1) (lit ''a'') None of
        None \<Rightarrow> cur_row (fst ?r) (replicate 32 1) (lit ''a'') = cur_row toy_store (replicate 32 1) (lit ''a'')
      | Some st \<Rightarrow> map_option row_view (cur_row (fst ?r) (replicate 32 1) (lit ''a'')) =
          Some (st, case cur_row toy_store (replicate 32 1) (lit ''a'') of None \<Rightarrow> None | Some r \<Rightarrow> mr_origin r)"
    using bulk_effect [OF toy_store_ok, of toy_crypto _ "fst ?r" "snd ?r"] unfolding prod.collapse by blast
  then show ?thesis unfolding last toy_store_cur by simp
qed

text \<open>
  C14. The append-only fast path of a fresh seed is equivalent to the indexed path.  On a sound
  store and sound caches, when the rows of one hash are adjacent and no run starts a hash that
  the store already has (the order in which the upstream client exports them), the deferred
  load without the unique index ends in the same tables, the same cursor, the same counts and
  the same checkpoint as the indexed load.
\<close>

theorem deferred_equals_indexed:
  assumes "bulk_inv s c n"
    and "fresh_runs C (fst ` set (repo_hashes s)) (map_option fst (ic_hash_carry c)) items"
  shows "\<exists>s' c1 c2 n' stats.
    apply_current_mappings_deferred C ser ckpt items (s, c, n) = ((s', c1, n'), stats) \<and>
    apply_mappings_bulk_cached C ser ckpt items (s, c, n) = ((s', c2, n'), stats) \<and> store_ok s'"
proof -
  let ?z = "\<lparr>bs_applied = 0, bs_deleted = 0\<rparr>"
  have "caches_ok s (c\<lparr>ic_hash := []\<rparr>)" using assms(1) by (simp add: bulk_inv_def caches_ok_def)
  from bulk_fold [OF assms(1) this, of DeferredAppend C items ?z] assms(2)
  obtain s2 c2 n2 st2 c2' where f: "fold (bulk_one C DeferredAppend) items (s, c, n, ?z) = (s2, c2, n2, st2)"
    "fold (bulk_one C Indexed) items (s, c\<lparr>ic_hash := []\<rparr>, n, ?z) = (s2, c2', n2, st2)" by blast
  let ?s = "case ckpt of None \<Rightarrow> s2 | Some ck \<Rightarrow> write_seed_checkpoint ser s2 ck"
  have run: "apply_current_mappings_deferred C ser ckpt items (s, c, n) = ((?s, c2, n2), st2)"
    "apply_mappings_bulk_cached C ser ckpt items (s, c, n) = ((?s, c2', n2), st2)"
    using f by (simp_all add: apply_current_mappings_deferred_def apply_mappings_bulk_cached_def apply_mappings_impl_def)
  have "store_ok ?s"
    using apply_mappings_impl_adv [OF assms(1) _ run(1) [unfolded apply_current_mappings_deferred_def]] assms(2)
    by (simp add: bulk_inv_def)
  with run show ?thesis by blast
qed

theorem deferred_equals_indexed_witness:
  "\<exists>s' c1 c2 n' stats.
    apply_current_mappings_deferred toy_crypto (\<lambda>_ :: unit. []) None
      [(to_hex (replicate 32 2), lit ''a'', False), (to_hex (replicate 32 2), lit ''b'', False)] (toy_store, caches_empty, 1) =
      ((s', c1, n'), stats) \<and>
    apply_mappings_bulk_cached toy_crypto (\<lambda>_ :: unit. []) None
      [(to_hex (replicate 32 2), lit ''a'', False), (to_hex (replicate 32 2), lit ''b'', False)] (toy_store, caches_empty, 1) =
      ((s', c2, n'), stats) \<and> store_ok s'"
proof (rule deferred_equals_indexed)
  have c: "mapping_cursor toy_store = 1" by (simp add: mapping_cursor_def max_seq_def coalesce_max_def toy_store_def)
  show "bulk_inv toy_store caches_empty 1" by (simp add: bulk_inv_def toy_store_ok c)
  have d: "decode_hash toy_crypto (to_hex (replicate 32 2)) = Inr (replicate 32 2)"
    by (rule decode_own_hash [OF toy_hex_ok]) (simp add: hash_ok_def)
  show "fresh_runs toy_crypto (fst ` set (repo_hashes toy_store)) (map_option fst (ic_hash_carry caches_empty))
      [(to_hex (replicate 32 2), lit ''a'', False), (to_hex (replicate 32 2), lit ''b'', False)]"
    by (simp add: d caches_empty_def toy_store_def)
qed

section \<open>Replay\<close>

text \<open>What a log row asserts, and the last assertion about a pair.\<close>

definition asserts :: "crypto \<Rightarrow> sub_row \<Rightarrow> (byte list \<times> ustring \<times> int \<times> ustring option) option" where
  "asserts C row =
     (case decode_hash C (sr_hash row) of
        Inl _ \<Rightarrow> None
      | Inr b \<Rightarrow>
          if sr_op row = lit ''add'' then Some (b, sr_tag row, 0, sr_origin row)
          else if sr_op row = lit ''remove'' then Some (b, sr_tag row, 1, sr_origin row)
          else None)"

definition last_assertion ::
  "crypto \<Rightarrow> sub_row list \<Rightarrow> byte list \<Rightarrow> ustring \<Rightarrow> (int \<times> ustring option) option \<Rightarrow> (int \<times> ustring option) option" where
  "last_assertion C log h t = fold (\<lambda>row acc.
     case asserts C row of
       Some (b, tg, st, og) \<Rightarrow> if b = h \<and> tg = t then Some (st, og) else acc
     | None \<Rightarrow> acc) log"

lemma asserts_cases:
  obtains (none) "asserts C row = None" "\<And>b op. decode_hash C (sr_hash row) = Inr b \<Longrightarrow> sr_op row \<noteq> op_as_str op"
  | (some) b op where "asserts C row = Some (b, sr_tag row, op_status op, sr_origin row)"
      "decode_hash C (sr_hash row) = Inr b" "sr_op row = op_as_str op"
proof (cases "decode_hash C (sr_hash row)")
  case (Inl e)
  then show thesis by (intro none) (simp_all add: asserts_def)
next
  case (Inr b)
  have ne: "lit ''add'' \<noteq> lit ''remove''" by simp
  consider "sr_op row = op_as_str Add" | "sr_op row = op_as_str Remove" | "\<forall>op. sr_op row \<noteq> op_as_str op"
    by (metis op.exhaust)
  then show thesis
  proof cases
    case 1
    then show thesis by (intro some [of b Add]) (simp_all add: asserts_def Inr del: lit_Cons)
  next
    case 2
    then show thesis using ne by (intro some [of b Remove]) (simp_all add: asserts_def Inr del: lit_Cons)
  next
    case 3
    then have "sr_op row \<noteq> lit ''add''" "sr_op row \<noteq> lit ''remove''" by (metis op_as_str.simps)+
    then show thesis using 3 by (intro none) (simp_all add: asserts_def Inr del: lit_Cons)
  qed
qed

lemma replay_fold_effect:
  assumes "seq_inv s n" and "fold (replay_one C) rows (s, n, cnt) = (s', n', cnt')"
  shows "map_option row_view (cur_row s' h t) = last_assertion C rows h t (map_option row_view (cur_row s h t)) \<and>
    cnt' = cnt + length (filter (\<lambda>row. asserts C row \<noteq> None) rows) \<and> submissions s' = submissions s"
  using assms
proof (induction rows arbitrary: s n cnt)
  case (Cons row rows)
  have s: "store_ok s" "mapping_cursor s = n" using Cons.prems(1) by (simp_all add: seq_inv_def)
  show ?case
  proof (cases rule: asserts_cases [of C row])
    case none
    have "replay_one C row (s, n, cnt) = (s, n, cnt)" by (rule replay_one_skip) (use none in blast)
    then show ?thesis using Cons.IH [OF Cons.prems(1)] Cons.prems(2) none(1) by (simp add: last_assertion_def)
  next
    case (some b op)
    obtain k s1 where p: "intern_pair s b (sr_tag row) = (k, s1)" by fastforce
    obtain m ms where u: "upsert_signed k (op_status op) (mapping_cursor s + 1) (sr_origin row) (repo_mappings s) = (m, ms)" by fastforce
    note len = decode_hash_length [OF some(2)]
    obtain r where r: "row_view r = (op_status op, sr_origin row)"
      "\<forall>h t. cur_row (s1\<lparr>repo_mappings := ms\<rparr>) h t = (if h = b \<and> t = sr_tag row then Some r else cur_row s h t)"
      by (rule signed_write_effect [OF s(1) len p u op_status_01])
    have st: "replay_one C row (s, n, cnt) = (s1\<lparr>repo_mappings := ms\<rparr>, if m = 0 then n else n + 1, cnt + 1)"
      by (rule replay_one_eq [OF some(2) p some(3)]) (use u s(2) in simp)
    have inv: "seq_inv (s1\<lparr>repo_mappings := ms\<rparr>) (if m = 0 then n else n + 1)"
      using replay_one_adv [OF Cons.prems(1), where C = C and row = row and cnt = cnt] by (simp add: st)
    have sub: "submissions s1 = submissions s" using p by (auto simp: intern_pair_def)
    from Cons.IH [OF inv, of "cnt + 1"] Cons.prems(2) show ?thesis
      using r some(1) sub by (simp add: st last_assertion_def)
  qed
qed (simp add: last_assertion_def)

lemma clear_ok: "store_ok s \<Longrightarrow> store_ok (clear_mirrored_mappings s)"
  by (simp add: store_ok_def clear_mirrored_mappings_def ids_ok_def seqs_pos_def)

lemma clear_cur [simp]: "cur_row (clear_mirrored_mappings s) h t = None" "submissions (clear_mirrored_mappings s) = submissions s"
  by (simp_all add: cur_row_def clear_mirrored_mappings_def)

lemma replay_effect:
  assumes "store_ok s"
  shows "map_option row_view (cur_row (fst (replay_submissions C s)) h t) =
      last_assertion C (submissions s) h t (map_option row_view (cur_row s h t)) \<and>
    snd (replay_submissions C s) = length (filter (\<lambda>row. asserts C row \<noteq> None) (submissions s)) \<and>
    submissions (fst (replay_submissions C s)) = submissions s"
proof -
  obtain s' n' c' where f: "fold (replay_one C) (submissions s) (s, mapping_cursor s, 0) = (s', n', c')" by (metis prod_cases3)
  have "seq_inv s (mapping_cursor s)" using assms by (simp add: seq_inv_def)
  from replay_fold_effect [OF this f, of h t] show ?thesis by (simp add: replay_submissions_def f)
qed

text \<open>
  C10. Replaying the log.  After a replay every pair that the log asserts has the status and
  origin of its last readable assertion, every other pair is as before, the count is that of
  the readable rows, and the log itself is unchanged.  So a rebuild (clear the mirrored tables,
  reseed, replay) ends with every locally signed decision in force: right after the clear, the
  store is exactly what the log says.
\<close>

theorem replay_restores:
  assumes "store_ok s"
  shows "map_option row_view (cur_row (fst (replay_submissions C s)) h t) =
      last_assertion C (submissions s) h t (map_option row_view (cur_row s h t)) \<and>
    snd (replay_submissions C s) = length (filter (\<lambda>row. asserts C row \<noteq> None) (submissions s)) \<and>
    map_option row_view (cur_row (fst (replay_submissions C (clear_mirrored_mappings s))) h t) =
      last_assertion C (submissions s) h t None \<and>
    submissions (fst (replay_submissions C s)) = submissions s"
  using replay_effect [OF assms, of C h t] replay_effect [OF clear_ok [OF assms], of C h t] by simp

theorem replay_restores_witness:
  "map_option row_view (cur_row (fst (replay_submissions toy_crypto
      (toy_store\<lparr>submissions := [log_row toy_sub 3]\<rparr>))) (replicate 32 1) (lit ''a'')) = Some (0, Some (lit ''tool''))"
proof -
  let ?s = "toy_store\<lparr>submissions := [log_row toy_sub 3]\<rparr>"
  have ok: "store_ok ?s"
    using same_mappings_adv [OF store_adv_refl [OF toy_store_ok]] by (intro store_adv_ok [of toy_store]) simp
  have "asserts toy_crypto (log_row toy_sub 3) = Some (replicate 32 1, lit ''a'', 0, Some (lit ''tool''))"
    by (simp add: asserts_def log_row_def toy_sub_fields toy_hash_decode del: replicate.simps lit_Cons)
  then show ?thesis using replay_restores [OF ok, of toy_crypto "replicate 32 1" "lit ''a''"]
    by (simp add: last_assertion_def del: replicate.simps lit_Cons)
qed

text \<open>A run of submissions, each at its time.\<close>

definition submit_all ::
  "(ustring \<Rightarrow> ustring) \<Rightarrow> crypto \<Rightarrow> (submission \<times> int) list \<Rightarrow> store \<Rightarrow> store" where
  "submit_all lc C subs s = fold (\<lambda>(sub, ts) s. fst (apply_submission lc C s sub ts)) subs s"

lemma op_status_asserts:
  "decode_hash C (sub_hash sub) = Inr b \<Longrightarrow>
    asserts C (log_row sub ts) = Some (b, sub_tag sub, op_status (sub_op sub), sub_origin sub)"
  by (cases "sub_op sub") (simp_all add: asserts_def log_row_def)

definition log_true :: "crypto \<Rightarrow> store \<Rightarrow> bool" where
  "log_true C s \<longleftrightarrow> (\<forall>h t. map_option row_view (cur_row s h t) = last_assertion C (submissions s) h t None)"

lemma submission_log_true:
  assumes s: "store_ok s" and l: "log_true C s"
  shows "log_true C (fst (apply_submission lc C s sub ts))"
proof (cases "snd (apply_submission lc C s sub ts)")
  case (Inl e)
  then have "fst (apply_submission lc C s sub ts) = s \<or>
      fst (apply_submission lc C s sub ts) = ensure_account s (sub_author sub) ts"
    by (auto simp: apply_submission_def Let_def submission_tx_failed split: sum.splits if_splits)
  then show ?thesis using l by (auto simp: log_true_def)
next
  case (Inr u)
  let ?s = "ensure_account s (sub_author sub) ts"
  have ok: "store_ok ?s" using ensure_account_adv [OF s] by (rule store_adv_ok)
  have tx: "apply_submission lc C s sub ts = submission_tx C ?s sub ts"
    using Inr by (auto simp: apply_submission_def Let_def split: sum.splits if_splits)
  obtain b where d: "decode_hash C (sub_hash sub) = Inr b"
    using Inr unfolding tx by (auto simp: submission_tx_def Let_def split: sum.splits)
  obtain s' r where e: "submission_tx C ?s sub ts = (s', Inr ())" "row_view r = (op_status (sub_op sub), sub_origin sub)"
    "\<forall>g t. cur_row s' g t = (if g = b \<and> t = sub_tag sub then Some r else cur_row ?s g t)"
    "submissions s' = submissions ?s @ [log_row sub ts]"
    by (rule submission_tx_effect [OF ok d])
  show ?thesis using l e unfolding tx
    by (auto simp: log_true_def last_assertion_def op_status_asserts [OF d])
qed

lemma submit_all_log_true: "store_ok s \<Longrightarrow> log_true C s \<Longrightarrow> store_ok (submit_all lc C subs s) \<and> log_true C (submit_all lc C subs s)"
proof (induction subs arbitrary: s)
  case (Cons x subs)
  obtain sub ts where x: "x = (sub, ts)" by fastforce
  have "store_ok (fst (apply_submission lc C s sub ts))" "log_true C (fst (apply_submission lc C s sub ts))"
    using store_adv_ok [OF apply_submission_adv [OF Cons.prems(1)]] submission_log_true [OF Cons.prems] by simp_all
  then show ?case using Cons.IH by (simp add: submit_all_def x)
qed (simp add: submit_all_def)

text \<open>
  C9. The log of signed submissions is the truth.  After any run of submissions, accepted or
  rejected, in any order and from any authors, starting from an empty repository, the log's
  last assertion about each pair is its status and origin in the store; so clearing the
  mapping tables and replaying the log gives every pair back exactly.
\<close>

theorem log_is_truth:
  "map_option row_view (cur_row (submit_all lc C subs store_empty) h t) =
      last_assertion C (submissions (submit_all lc C subs store_empty)) h t None \<and>
   map_option row_view (cur_row (fst (replay_submissions C (clear_mirrored_mappings (submit_all lc C subs store_empty)))) h t) =
      map_option row_view (cur_row (submit_all lc C subs store_empty) h t)"
proof -
  let ?s = "submit_all lc C subs store_empty"
  have "log_true C store_empty" by (simp add: log_true_def last_assertion_def)
  then have "store_ok ?s" "log_true C ?s" using submit_all_log_true [OF store_empty_ok] by blast+
  then show ?thesis using replay_effect [OF clear_ok, of ?s C h t] by (simp add: log_true_def)
qed

end
