(* ===== verification/CoreBucket.thy ===== *)
theory CoreBucket
  imports CoreHash
begin

text \<open>
  \<open>crates/core/src/bucket.rs\<close>: prefix buckets.  The lemmas read a hash as the 256-bit
  number its bytes spell and say what the masking and the carry loop do to it; from them
  follows that \<open>bucket_key\<close> and \<open>bucket_upper\<close> are the two ends of an interval that holds
  exactly the hashes that share the prefix.
\<close>

section \<open>Prefix buckets\<close>

definition masked :: "hash \<Rightarrow> nat \<Rightarrow> byte list" where
  "masked h bits0 =
     (let bits = min bits0 256;
          bytes = h;
          full = bits div 8;
          rem = bits mod 8
      in if full < 32 then
           (if 0 < rem then
              (let bytes = bytes[full := (bytes ! full) AND push_bit (8 - rem) 0xFF]
               in take (full + 1) bytes @ map (\<lambda>_. 0) (drop (full + 1) bytes))
            else take full bytes @ map (\<lambda>_. 0) (drop full bytes))
         else bytes)"

definition bucket_key :: "hash \<Rightarrow> nat \<Rightarrow> ustring" where
  "bucket_key h prefix_bits = to_hex (masked h prefix_bits)"

text \<open>
  The carry loop of \<open>bucket_upper\<close>: \<open>n\<close> is \<open>i + 1\<close> for the index \<open>i\<close> of the source
  (\<open>0\<close> when \<open>i\<close> has become negative); \<open>carry\<close> is the source's \<open>u16\<close>.
\<close>

fun carry_loop :: "nat \<Rightarrow> 16 word \<Rightarrow> byte list \<Rightarrow> byte list \<times> 16 word" where
  "carry_loop 0 carry bytes = (bytes, carry)"
| "carry_loop (Suc i) carry bytes =
     (if 0 < carry then
        (let v = ucast (bytes ! i) + carry
         in carry_loop i (drop_bit 8 v) (bytes[i := ucast (v AND 0xFF)]))
      else (bytes, carry))"

definition bucket_upper :: "hash \<Rightarrow> nat \<Rightarrow> ustring" where
  "bucket_upper lo prefix_bits =
     (let bits = min prefix_bits 256
      in if bits = 0 then lit ''g''
         else
           (let bytes = masked lo bits;
                add_bit = 256 - bits;
                idx = 31 - add_bit div 8;
                carry = push_bit (add_bit mod 8) (1 :: 16 word);
                (bytes, carry) = carry_loop (idx + 1) carry bytes
            in if 0 < carry then lit ''g'' else to_hex bytes))"

section \<open>Buckets as intervals of 256-bit numbers\<close>

definition be_val :: "byte list \<Rightarrow> nat" where
  "be_val bs = foldl (\<lambda>a b. a * 256 + unat b) 0 bs"

lemma foldl_be_val: "foldl (\<lambda>a b. a * 256 + unat b) n bs = n * 256 ^ length bs + be_val bs"
proof (induction bs arbitrary: n)
  case (Cons b bs)
  have "be_val (b # bs) = unat b * 256 ^ length bs + be_val bs"
    using Cons [of "unat b"] by (simp add: be_val_def)
  then show ?case using Cons [of "n * 256 + unat b"] by (simp add: algebra_simps)
qed (simp add: be_val_def)

lemma be_val_Nil [simp]: "be_val [] = 0"
  by (simp add: be_val_def)

lemma be_val_Cons: "be_val (b # bs) = unat b * 256 ^ length bs + be_val bs"
  using foldl_be_val [of "unat b" bs] by (simp add: be_val_def)

lemma be_val_append: "be_val (as @ bs) = be_val as * 256 ^ length bs + be_val bs"
  using foldl_be_val [of "be_val as" bs] by (simp add: be_val_def)

lemma unat_byte_le: "unat (b :: byte) \<le> 255"
proof -
  have "unat b < 256" by simp
  then show ?thesis by linarith
qed

lemma be_val_less: "be_val bs < 256 ^ length bs"
proof (induction bs)
  case (Cons b bs)
  have "unat b * 256 ^ length bs + be_val bs < Suc (unat b) * 256 ^ length bs"
    using Cons by simp
  also have "\<dots> \<le> 256 * 256 ^ length bs"
    by (intro mult_right_mono) (simp_all add: unat_byte_le)
  finally show ?case by (simp add: be_val_Cons)
qed simp

lemma be_val_zeros [simp]: "be_val (map (\<lambda>_. 0) xs) = 0" "be_val (replicate n 0) = 0"
  by (induction xs, simp_all add: be_val_Cons) (induction n, simp_all add: be_val_Cons)

lemma be_val_less_iff:
  "length as = length bs \<Longrightarrow> be_val as < be_val bs \<longleftrightarrow> as < bs"
proof (induction as bs rule: list_induct2)
  case (Cons a as b bs)
  have le: "be_val as < 256 ^ length bs" "be_val bs < 256 ^ length bs"
    using be_val_less [of as] be_val_less [of bs] Cons.hyps by simp_all
  show ?case
  proof (cases "unat a" "unat b" rule: linorder_cases)
    case less
    then have "Suc (unat a) * 256 ^ length bs \<le> unat b * 256 ^ length bs"
      by (intro mult_right_mono) simp_all
    then show ?thesis using less le Cons.hyps
      by (simp add: be_val_Cons word_less_nat_alt)
  next
    case equal
    then have "a = b" by (simp add: word_unat_eq_iff)
    then show ?thesis using Cons by (simp add: be_val_Cons)
  next
    case greater
    then have "Suc (unat b) * 256 ^ length bs \<le> unat a * 256 ^ length bs"
      by (intro mult_right_mono) simp_all
    then show ?thesis using greater le Cons.hyps
      by (auto simp add: be_val_Cons word_less_nat_alt)
  qed
qed simp

lemma be_val_inj: "length as = length bs \<Longrightarrow> be_val as = be_val bs \<Longrightarrow> as = bs"
  using be_val_less_iff [of as bs] be_val_less_iff [of bs as] by (metis less_irrefl linorder_neqE)



lemma and_high_bits:
  fixes x :: byte
  assumes "0 < rem" "rem < 8"
  shows "unat (x AND push_bit (8 - rem) 0xFF) = unat x div 2 ^ (8 - rem) * 2 ^ (8 - rem)"
proof -
  have ff: "(0xFF :: byte) = - 1" by simp
  have "x AND push_bit (8 - rem) 0xFF = push_bit (8 - rem) (drop_bit (8 - rem) x)"
    unfolding ff by (rule bit_word_eqI) (auto simp: bit_simps)
  then have "unat (x AND push_bit (8 - rem) 0xFF)
      = take_bit 8 (push_bit (8 - rem) (drop_bit (8 - rem) (unat x)))"
    by (simp only: unsigned_push_bit_eq unat_drop_bit_eq) simp
  also have "\<dots> = unat x div 2 ^ (8 - rem) * 2 ^ (8 - rem)"
  proof -
    have "unat x div 2 ^ (8 - rem) * 2 ^ (8 - rem) \<le> unat x" by (rule div_times_less_eq_dividend)
    also have "unat x < 256" by simp
    finally show ?thesis by (simp add: push_bit_eq_mult drop_bit_eq_div take_bit_eq_mod)
  qed
  finally show ?thesis .
qed

lemma length_masked [simp]: "length (masked h bits) = length h"
  by (auto simp: masked_def Let_def min_def)

lemma div_mult_split:
  fixes a b m :: nat
  assumes "b < m" "k dvd m" "0 < k"
  shows "(a * m + b) div k * k = a * m + b div k * k"
proof -
  obtain q where "m = k * q" using assms(2) by (rule dvdE)
  then have "a * m + b = b + a * q * k" by simp
  then have "(a * m + b) div k = a * q + b div k"
    using assms(3) by (simp only: div_mult_self1)
  then show ?thesis using \<open>m = k * q\<close> by (simp add: algebra_simps)
qed

lemma masked_be_val:
  assumes "hash_ok h"
  shows "be_val (masked h bits0) =
    be_val h div 2 ^ (256 - min bits0 256) * 2 ^ (256 - min bits0 256)"
proof -
  define bits full rem where "bits = min bits0 256" and "full = bits div 8" and "rem = bits mod 8"
  have bits: "bits = 8 * full + rem" "rem < 8" "bits \<le> 256"
    by (simp_all add: bits_def full_def rem_def)
  have len: "length h = 32" using assms by (simp add: hash_ok_def)
  show ?thesis
  proof (cases "full < 32")
    case False
    then have "bits = 256" using bits by simp
    then show ?thesis using False by (simp add: masked_def Let_def flip: bits_def full_def rem_def)
  next
    case full: True
    have h: "h = take full h @ h ! full # drop (Suc full) h"
      using full len by (simp add: id_take_nth_drop)
    have pow: "(256 :: nat) ^ (32 - full) = 256 * 256 ^ (31 - full)"
      using full by (simp flip: power_Suc add: Suc_diff_le)
    have hv: "be_val h = be_val (take full h) * 256 ^ (32 - full) +
        (unat (h ! full) * 256 ^ (31 - full) + be_val (drop (Suc full) h))"
      using full len by (subst h) (simp add: be_val_append be_val_Cons Suc_diff_Suc pow)
    define k where "k = 256 - bits"
    have k: "k = 8 * (31 - full) + (8 - rem)" using bits full by (simp add: k_def)
    have p: "(256::nat) ^ n = 2 ^ (8 * n)" for n by (simp add: power_mult)
    have low: "be_val (drop (Suc full) h) < 256 ^ (31 - full)"
      using be_val_less [of "drop (Suc full) h"] len full by (simp add: Suc_diff_Suc)
    show ?thesis
    proof (cases "0 < rem")
      case rem: True
      have mv: "be_val (masked h bits0) = be_val (take full h) * 256 ^ (32 - full) +
          unat (h ! full) div 2 ^ (8 - rem) * 2 ^ (8 - rem) * 256 ^ (31 - full)"
        using full rem len and_high_bits [OF rem bits(2)]
        by (simp add: masked_def Let_def be_val_append be_val_Cons Suc_diff_Suc take_Suc_conv_app_nth pow
            flip: bits_def full_def rem_def)
      let ?x = "unat (h ! full)" and ?d = "be_val (drop (Suc full) h)" and ?m = "256 ^ (31 - full) :: nat"
      have "?x * ?m + ?d < 256 ^ (32 - full)"
      proof -
        have "?x * ?m + ?d < Suc ?x * ?m" using low by simp
        also have "\<dots> \<le> 256 * ?m" by (intro mult_right_mono) (simp_all add: unat_byte_le)
        also have "\<dots> = 256 ^ (32 - full)" using full by (simp add: Suc_diff_Suc flip: power_Suc)
        finally show ?thesis .
      qed
      moreover have "2 ^ k dvd (256 :: nat) ^ (32 - full)"
        unfolding p using bits full by (intro le_imp_power_dvd) (simp add: k_def)
      ultimately have "be_val h div 2 ^ k * 2 ^ k =
          be_val (take full h) * 256 ^ (32 - full) + (?x * ?m + ?d) div 2 ^ k * 2 ^ k"
        unfolding hv by (intro div_mult_split) simp_all
      moreover have "(?x * ?m + ?d) div 2 ^ k = ?x div 2 ^ (8 - rem)"
      proof -
        have "(2 :: nat) ^ k = ?m * 2 ^ (8 - rem)" unfolding k p by (simp add: power_add)
        then show ?thesis using low by (simp add: div_mult2_eq)
      qed
      ultimately show ?thesis using mv
        by (simp add: k p power_add mult.assoc flip: bits_def k_def)
    next
      case rem: False
      have mv: "be_val (masked h bits0) = be_val (take full h) * 256 ^ (32 - full)"
        using full rem len
        by (simp add: masked_def Let_def be_val_append flip: bits_def full_def rem_def)
      have k': "k = 8 * (32 - full)" using rem bits full by (simp add: k_def)
      have "unat (h ! full) * 256 ^ (31 - full) + be_val (drop (Suc full) h) = be_val (drop full h)"
        using full len by (simp add: be_val_Cons Suc_diff_Suc flip: Cons_nth_drop_Suc)
      moreover have "be_val (drop full h) < 256 ^ (32 - full)"
        using be_val_less [of "drop full h"] len by simp
      ultimately show ?thesis using mv hv by (simp add: k' p flip: bits_def k_def)
    qed
  qed
qed

lemma unat_carry_step:
  fixes c :: "16 word"
  assumes "unat c \<le> 256"
  shows "unat (drop_bit 8 (ucast (b :: byte) + c)) = (unat b + unat c) div 256"
    "unat (ucast ((ucast b + c) AND 0xFF) :: byte) = (unat b + unat c) mod 256"
proof -
  have "unat (ucast b :: 16 word) = take_bit 16 (unat b)" by (simp add: unsigned_ucast_eq)
  also have "\<dots> = unat b" by (intro take_bit_nat_eq_self le_less_trans [OF unat_byte_le]) simp
  finally have b: "unat (ucast b :: 16 word) = unat b" .
  have v: "unat (ucast b + c) = unat b + unat c"
    using assms unat_byte_le [of b] unat_add_lem [of "ucast b" c] by (simp add: b)
  show "unat (drop_bit 8 (ucast b + c)) = (unat b + unat c) div 256"
    by (simp only: unat_drop_bit_eq v) (simp add: drop_bit_eq_div)
  have ff: "(ucast b + c) AND 0xFF = take_bit 8 (ucast b + c)"
    by (simp add: take_bit_eq_mask mask_eq_exp_minus_1)
  have "unat (ucast ((ucast b + c) AND 0xFF) :: byte) = take_bit 8 (take_bit 8 (unat b + unat c))"
    unfolding ff by (simp only: unsigned_ucast_eq unsigned_take_bit_eq v len_num0 len_num1 len_bit0) simp
  then show "unat (ucast ((ucast b + c) AND 0xFF) :: byte) = (unat b + unat c) mod 256"
    by (simp add: take_bit_eq_mod)
qed

lemma carry_loop_val:
  assumes "carry_loop n c bs = (bs', c')" "n \<le> length bs" "unat c \<le> 256"
  shows "be_val (take n bs) + unat c = be_val (take n bs') + unat c' * 256 ^ n \<and>
    drop n bs' = drop n bs \<and> length bs' = length bs"
  using assms
proof (induction n c bs rule: carry_loop.induct)
  case (2 i c bs)
  show ?case
  proof (cases "0 < c")
    case True
    define v where "v = ucast (bs ! i) + c"
    note step = unat_carry_step [OF "2.prems"(3), of "bs ! i", folded v_def]
    define bs1 where "bs1 = bs[i := ucast (v AND 0xFF)]"
    have run: "carry_loop i (drop_bit 8 v) bs1 = (bs', c')"
      using "2.prems"(1) True by (simp add: v_def bs1_def Let_def)
    have small: "unat (drop_bit 8 v) \<le> 256"
      using step(1) "2.prems"(3) unat_byte_le [of "bs ! i"] by simp
    have ih: "be_val (take i bs1) + unat (drop_bit 8 v) = be_val (take i bs') + unat c' * 256 ^ i \<and>
       drop i bs' = drop i bs1 \<and> length bs' = length bs1"
      using "2.IH" [OF True v_def] run small "2.prems"(2) by (simp add: bs1_def)
    have i: "i < length bs" using "2.prems"(2) by simp
    have nth: "bs' ! i = ucast (v AND 0xFF)"
      using ih i hd_drop_conv_nth [of i bs'] hd_drop_conv_nth [of i bs1] by (simp add: bs1_def)
    have t1: "take i bs1 = take i bs" by (simp add: bs1_def)
    have "drop (Suc i) bs' = drop (Suc i) bs"
      using ih by (metis bs1_def drop_Suc drop_update_cancel tl_drop lessI)
    moreover have "be_val (take (Suc i) bs) + unat c =
        256 * (be_val (take i bs) + unat (drop_bit 8 v)) + unat (bs' ! i)"
      using step i by (simp add: nth take_Suc_conv_app_nth be_val_append be_val_Cons)
    moreover have "be_val (take (Suc i) bs') = 256 * be_val (take i bs') + unat (bs' ! i)"
      using ih i by (simp add: bs1_def take_Suc_conv_app_nth be_val_append be_val_Cons)
    ultimately show ?thesis using ih t1 by (simp add: bs1_def algebra_simps)
  next
    case False
    then show ?thesis using "2.prems" by (auto simp: word_gt_0)
  qed
qed simp

lemma less_8_cases:
  assumes "n < (8 :: nat)"
  obtains "n = 0" | "n = 1" | "n = 2" | "n = 3" | "n = 4" | "n = 5" | "n = 6" | "n = 7"
  using assms by linarith

lemma bucket_upper_val:
  assumes "hash_ok lo" and k: "k = 256 - min bits 256" and "0 < bits"
    and v: "v = (be_val lo div 2 ^ k + 1) * 2 ^ k"
  shows "bucket_upper lo bits = lit ''g'' \<and> v = 2 ^ 256 \<or>
    (\<exists>u. hash_ok u \<and> bucket_upper lo bits = to_hex u \<and> be_val u = v)"
proof -
  define m where "m = masked lo (min bits 256)"
  have mv: "be_val m = be_val lo div 2 ^ k * 2 ^ k"
    using masked_be_val [OF assms(1), of "min bits 256"] by (simp add: m_def k)
  have lm: "length m = 32" using assms(1) by (simp add: m_def hash_ok_def)
  define idx where "idx = 31 - k div 8"
  have k8: "k \<le> 255" using assms(3) by (auto simp: k)
  then have kd: "k div 8 \<le> 31" by simp
  then have idx: "31 - idx = k div 8" "idx \<le> 31" by (auto simp: idx_def)
  define c where "c = (push_bit (k mod 8) 1 :: 16 word)"
  have cv: "unat c = 2 ^ (k mod 8)"
  proof -
    have "k mod 8 < 8" by simp
    then show ?thesis unfolding c_def by (elim less_8_cases) simp_all
  qed
  have cs: "unat c \<le> 256"
  proof -
    have "(2::nat) ^ (k mod 8) \<le> 2 ^ 8" by (intro power_increasing) (simp_all add: less_imp_le)
    then show ?thesis by (simp add: cv)
  qed
  obtain u c' where run: "carry_loop (idx + 1) c m = (u, c')" by fastforce
  have res: "be_val (take (idx + 1) m) + unat c = be_val (take (idx + 1) u) + unat c' * 256 ^ (idx + 1)"
      "drop (idx + 1) u = drop (idx + 1) m" "length u = 32"
    using carry_loop_val [OF run _ cs] idx lm by simp_all
  have split: "be_val x = be_val (take (idx + 1) x) * 256 ^ (k div 8) + be_val (drop (idx + 1) x)"
    if "length x = 32" for x
    using be_val_append [of "take (idx + 1) x" "drop (idx + 1) x"] that idx by simp
  have pk: "2 ^ (k mod 8) * 256 ^ (k div 8) = (2 ^ k :: nat)"
  proof -
    have "256 ^ (k div 8) = (2 :: nat) ^ (8 * (k div 8))" by (simp add: power_mult)
    then show ?thesis by (simp flip: power_add)
  qed
  have pi: "256 ^ (idx + 1) * 256 ^ (k div 8) = (2 ^ 256 :: nat)"
  proof -
    have "idx + 1 + k div 8 = 32" using kd by (simp add: idx_def)
    then have "256 ^ (idx + 1) * 256 ^ (k div 8) = (256 :: nat) ^ 32" by (simp only: flip: power_add)
    then show ?thesis by simp
  qed
  have total: "be_val u + unat c' * 2 ^ 256 = v"
  proof -
    have "be_val m + 2 ^ k = be_val u + unat c' * 2 ^ 256"
      unfolding split [OF lm] split [OF res(3)] res(2) pk [symmetric] pi [symmetric] cv [symmetric]
      using res(1) by (simp add: algebra_simps flip: distrib_right)
    then show ?thesis by (simp add: v mv)
  qed
  have up: "bucket_upper lo bits = (if 0 < c' then lit ''g'' else to_hex u)"
    unfolding bucket_upper_def Let_def k [symmetric] m_def [symmetric] idx_def [symmetric]
      c_def [symmetric] run using assms(3) by (simp add: min_def)
  have vle: "v \<le> 2 ^ 256"
  proof -
    have p: "(2::nat) ^ 256 = 2 ^ (256 - k) * 2 ^ k" using k8 by (simp flip: power_add)
    have "(2::nat) ^ 256 = 256 ^ 32" by simp
    then have "be_val lo < 2 ^ (256 - k) * 2 ^ k"
      using be_val_less [of lo] assms(1) p by (simp add: hash_ok_def)
    then have "be_val lo div 2 ^ k < 2 ^ (256 - k)" by (rule less_mult_imp_div_less)
    then show ?thesis unfolding v p by (intro mult_right_mono) simp_all
  qed
  show ?thesis
  proof (cases "0 < c'")
    case True
    then have "1 \<le> unat c'" by (simp add: word_gt_0 Suc_le_eq unat_gt_0)
    then have "1 * 2 ^ 256 \<le> unat c' * 2 ^ 256" by (rule mult_le_mono1)
    then have "2 ^ 256 \<le> v" unfolding total [symmetric] mult_1 by (rule trans_le_add2)
    with vle have "v = 2 ^ 256" by (rule le_antisym)
    then show ?thesis using up True by simp
  next
    case False
    then have "c' = 0" by (simp add: word_gt_0)
    then show ?thesis using total up res(3) by (auto simp: hash_ok_def)
  qed
qed


lemma bucket_key_eq_iff:
  assumes "hash_ok h" "hash_ok g" and k: "k = 256 - min bits 256"
  shows "bucket_key h bits = bucket_key g bits \<longleftrightarrow> be_val h div 2 ^ k = be_val g div 2 ^ k"
proof -
  have len: "length (masked h bits) = length (masked g bits)" using assms by (simp add: hash_ok_def)
  have "bucket_key h bits = bucket_key g bits \<longleftrightarrow> be_val (masked h bits) = be_val (masked g bits)"
    unfolding bucket_key_def to_hex_inj [OF len] using be_val_inj [OF len] by auto
  then show ?thesis using masked_be_val assms by (simp add: k)
qed

lemma to_hex_less_val: "length a = length b \<Longrightarrow> to_hex a < to_hex b \<longleftrightarrow> be_val a < be_val b"
  by (simp add: to_hex_less_iff be_val_less_iff)

lemma to_hex_le_val: "length a = length b \<Longrightarrow> to_hex a \<le> to_hex b \<longleftrightarrow> be_val a \<le> be_val b"
  using to_hex_less_val [of b a] by (simp add: not_less [symmetric])

lemma same_block_iff:
  fixes a b m :: nat
  assumes "0 < m"
  shows "a div m * m \<le> b \<and> b < (a div m + 1) * m \<longleftrightarrow> b div m = a div m"
proof
  assume *: "a div m * m \<le> b \<and> b < (a div m + 1) * m"
  then have "b div m < a div m + 1" by (intro less_mult_imp_div_less) simp
  moreover have "a div m \<le> b div m" using * assms by (simp add: less_eq_div_iff_mult_less_eq)
  ultimately show "b div m = a div m" by simp
next
  assume "b div m = a div m"
  then show "a div m * m \<le> b \<and> b < (a div m + 1) * m"
    using assms by (metis Suc_eq_plus1 div_times_less_eq_dividend dividend_less_div_times mult.commute mult_Suc)
qed

section \<open>Properties\<close>

lemma key_range:
  assumes "hash_ok lo" "hash_ok h"
  shows "bucket_key lo bits \<le> to_hex h \<and> to_hex h < bucket_upper lo bits
    \<longleftrightarrow> bucket_key h bits = bucket_key lo bits"
proof (cases "bits = 0")
  case True
  have "be_val lo < 2 ^ 256" "be_val h < 2 ^ 256"
  proof -
    have "(2::nat) ^ 256 = 256 ^ 32" by simp
    then show "be_val lo < 2 ^ 256" "be_val h < 2 ^ 256"
      using be_val_less [of lo] be_val_less [of h] assms by (simp_all only: hash_ok_def)
  qed
  then have z: "be_val (masked lo 0) = 0" "bucket_key h 0 = bucket_key lo 0"
    using masked_be_val [OF assms(1), of 0] bucket_key_eq_iff [OF assms(2,1), of 256 0] by simp_all
  have "length (masked lo 0) = length h" using assms by (simp add: hash_ok_def)
  then have "bucket_key lo 0 \<le> to_hex h" by (simp add: bucket_key_def to_hex_le_val z)
  then show ?thesis using z True to_hex_less_g by (simp add: bucket_upper_def)
next
  case False
  define k where "k = 256 - min bits 256"
  define v where "v = (be_val lo div 2 ^ k + 1) * 2 ^ k"
  have lenm: "length (masked lo bits) = length h" using assms by (simp add: hash_ok_def)
  have low: "bucket_key lo bits \<le> to_hex h \<longleftrightarrow> be_val lo div 2 ^ k * 2 ^ k \<le> be_val h"
    using masked_be_val [OF assms(1), of bits] by (simp add: bucket_key_def to_hex_le_val [OF lenm] k_def)
  have hv: "be_val h < 2 ^ 256"
  proof -
    have "(2::nat) ^ 256 = 256 ^ 32" by simp
    then show ?thesis using be_val_less [of h] assms by (simp only: hash_ok_def)
  qed
  have up: "to_hex h < bucket_upper lo bits \<longleftrightarrow> be_val h < v"
    using bucket_upper_val [OF assms(1) k_def _ v_def] False hv assms(2) to_hex_less_g
    by (auto simp: to_hex_less_val hash_ok_def)
  show ?thesis
    unfolding low up v_def bucket_key_eq_iff [OF assms(2,1) k_def] by (rule same_block_iff) simp
qed

text \<open>
  C34. A bucket is a range of hex keys: for every prefix width, the half-open interval from
  \<open>bucket_key\<close> to \<open>bucket_upper\<close> holds exactly the hashes that have the same bucket key,
  also for the last bucket, whose upper end is the sentinel, and for width 0.  This is what
  lets the client, the server and the local database exchange a bucket as a range scan.
\<close>

theorem bucket_interval:
  assumes "hash_ok lo" "hash_ok h"
  shows "bucket_key lo bits \<le> to_hex h \<and> to_hex h < bucket_upper lo bits
    \<longleftrightarrow> bucket_key h bits = bucket_key lo bits"
  by (rule key_range [OF assms])

theorem bucket_interval_witness:
  "bucket_key (0x12 # 0x30 # replicate 30 0) 12 \<le> to_hex (0x12 # 0x3F # replicate 30 7) \<and>
    to_hex (0x12 # 0x3F # replicate 30 7) < bucket_upper (0x12 # 0x30 # replicate 30 0) 12"
proof -
  have "bucket_key (0x12 # 0x3F # replicate 30 7) 12 = bucket_key (0x12 # 0x30 # replicate 30 0) 12"
    by code_simp
  moreover have "hash_ok (0x12 # 0x30 # replicate 30 0)" "hash_ok (0x12 # 0x3F # replicate 30 7)"
    by (simp_all add: hash_ok_def)
  ultimately show ?thesis using bucket_interval by blast
qed

text \<open>
  Buckets nest: hashes that share a bucket at a fine width share every coarser bucket,
  so a request at a coarser width covers everything a finer one would return.
\<close>

theorem bucket_nesting:
  assumes "hash_ok h" "hash_ok g" "coarse \<le> fine" "bucket_key h fine = bucket_key g fine"
  shows "bucket_key h coarse = bucket_key g coarse"
proof -
  define f d where "f = 256 - min fine 256" and "d = min fine 256 - min coarse 256"
  have c: "256 - min coarse 256 = f + d" using assms(3) by (auto simp: d_def f_def min_def)
  show ?thesis
    using assms(4) unfolding bucket_key_eq_iff [OF assms(1,2) refl] c f_def [symmetric]
    by (simp add: power_add div_mult2_eq)
qed

theorem bucket_nesting_witness:
  "bucket_key (0x12 # 0x30 # replicate 30 0) 9 = bucket_key (0x12 # 0x3F # replicate 30 7) 9"
proof (rule bucket_nesting [where fine = 12])
  show "hash_ok (0x12 # 0x30 # replicate 30 0)" "hash_ok (0x12 # 0x3F # replicate 30 7)"
    by (simp_all add: hash_ok_def)
  show "bucket_key (0x12 # 0x30 # replicate 30 0) 12 = bucket_key (0x12 # 0x3F # replicate 30 7) 12"
    by code_simp
qed simp

end
