(* ===== verification/StoreRead.thy ===== *)
theory StoreRead
  imports StoreFeed CoreBucket "HOL-Library.Product_Lexorder"
begin

text \<open>
  \<open>crates/server/src/store.rs\<close>, what serves a pull: the snapshot, a bucket, a bucket's delta
  with the response budget, the counts behind the advertised mode, and the parity digest
  (\<open>crates/core/src/parity.rs\<close>).  The join of the three mapping tables on their primary keys
  is \<open>joined\<close>; an \<open>ORDER BY\<close> is a stable sort (SQLite compares blobs and text bytewise, which
  for UTF-8 is the order of the code points).  A \<open>BTreeMap\<close> from hash to vector is an
  association list read through \<open>get_vec\<close>.
\<close>

section \<open>The join\<close>

type_synonym joined_row = "byte list \<times> ustring \<times> map_row"

definition key_of :: "('k \<times> int) list \<Rightarrow> int \<Rightarrow> 'k option" where
  "key_of t i = map_of (map (\<lambda>(k, j). (j, k)) t) i"

definition join_row :: "store \<Rightarrow> (int \<times> int) \<times> map_row \<Rightarrow> joined_row option" where
  "join_row s m =
     (case (key_of (repo_hashes s) (fst (fst m)), key_of (repo_tags s) (snd (fst m))) of
        (Some h, Some t) \<Rightarrow> Some (h, t, snd m)
      | _ \<Rightarrow> None)"

definition joined :: "store \<Rightarrow> joined_row list" where
  "joined s = List.map_filter (join_row s) (repo_mappings s)"

section \<open>Snapshot and buckets\<close>

type_synonym tag_map = "(ustring \<times> origin_tag list) list"

definition push_row :: "crypto \<Rightarrow> joined_row \<Rightarrow> tag_map \<Rightarrow> tag_map" where
  "push_row C row m =
     (case row of (h, t, r) \<Rightarrow> push_entry (hex_encode C h) \<lparr>ot_tag = t, ot_origin = mr_origin r\<rparr> m)"

definition snapshot :: "crypto \<Rightarrow> store \<Rightarrow> tag_map" where
  "snapshot C s = fold (push_row C)
     (sort_key (\<lambda>(h, t, r). (h, t)) (filter (\<lambda>(h, t, r). mr_status r = 0) (joined s))) []"

definition lo_bound :: "crypto \<Rightarrow> ustring \<Rightarrow> byte list" where
  "lo_bound C s = (case hex_decode C s of None \<Rightarrow> [] | Some b \<Rightarrow> if length b = 32 then b else [])"

definition hi_bound :: "crypto \<Rightarrow> ustring \<Rightarrow> byte list" where
  "hi_bound C s = (case hex_decode C s of
       None \<Rightarrow> replicate 33 0xFF
     | Some b \<Rightarrow> if length b = 32 then b else replicate 33 0xFF)"

definition origin_cost :: "ustring option \<Rightarrow> nat" where
  "origin_cost origin = (case origin of None \<Rightarrow> 0 | Some o1 \<Rightarrow> json_escaped_len o1 + 12)"

definition row_cost :: "crypto \<Rightarrow> joined_row \<Rightarrow> nat" where
  "row_cost C row =
     (case row of (h, t, r) \<Rightarrow> approx_row_cost (str_len (hex_encode C h)) (str_len t + origin_cost (mr_origin r)))"

text \<open>The drain loops: charge the row, fail when over budget, else add it to the output.\<close>

fun drain :: "crypto \<Rightarrow> nat \<Rightarrow> (joined_row \<Rightarrow> 'a \<Rightarrow> 'a) \<Rightarrow> nat \<Rightarrow> 'a \<Rightarrow> joined_row list \<Rightarrow> store_error + 'a \<times> nat" where
  "drain C budget push spent out [] = Inr (out, spent)"
| "drain C budget push spent out (row # rows) =
     (let spent = saturating_add_usize spent (row_cost C row)
      in if budget < spent then Inl (BudgetExceeded budget)
         else drain C budget push spent (push row out) rows)"

definition in_range :: "byte list \<Rightarrow> byte list \<Rightarrow> joined_row \<Rightarrow> bool" where
  "in_range lo hi row \<longleftrightarrow> lo \<le> fst row \<and> fst row < hi"

definition bucket :: "crypto \<Rightarrow> store \<Rightarrow> ustring \<Rightarrow> ustring \<Rightarrow> nat \<Rightarrow> store_error + tag_map \<times> nat" where
  "bucket C s lo hi budget =
     drain C budget (push_row C) RESPONSE_ENVELOPE_OVERHEAD []
       (sort_key (\<lambda>(h, t, r). (h, t))
         (filter (\<lambda>row. mr_status (snd (snd row)) = 0 \<and> in_range (lo_bound C lo) (hi_bound C hi) row) (joined s)))"

definition row_change :: "crypto \<Rightarrow> joined_row \<Rightarrow> delta_mapping" where
  "row_change C row =
     (case row of (h, t, r) \<Rightarrow>
        \<lparr>dm_hash = hex_encode C h, dm_tag = t,
         dm_status = (if mr_status r = 1 then Deleted else Current), dm_seq = mr_seq r, dm_origin = mr_origin r\<rparr>)"

definition bucket_delta ::
  "crypto \<Rightarrow> store \<Rightarrow> ustring \<Rightarrow> ustring \<Rightarrow> nat \<Rightarrow> nat \<Rightarrow> store_error + delta_mapping list \<times> nat" where
  "bucket_delta C s lo hi since budget =
     (let since_i = (if int since \<le> 2 ^ 63 - 1 then int since else 2 ^ 63 - 1)
      in drain C budget (\<lambda>row out. out @ [row_change C row]) RESPONSE_ENVELOPE_OVERHEAD []
           (sort_key (\<lambda>(h, t, r). (mr_seq r, h, t))
             (filter (\<lambda>row. in_range (lo_bound C lo) (hi_bound C hi) row \<and> since_i < mr_seq (snd (snd row))) (joined s))))"

section \<open>Counts and the advertised mode\<close>

definition distinct_hash_count :: "store \<Rightarrow> nat" where
  "distinct_hash_count s =
     length (remdups (map (\<lambda>(k, r). fst k) (filter (\<lambda>(k, r). mr_status r = 0) (repo_mappings s))))"

definition distinct_tag_count :: "store \<Rightarrow> nat" where
  "distinct_tag_count s =
     length (remdups (map (\<lambda>(k, r). snd k) (filter (\<lambda>(k, r). mr_status r = 0) (repo_mappings s))))"

definition current_mapping_count :: "store \<Rightarrow> nat" where
  "current_mapping_count s = length (filter (\<lambda>(k, r). mr_status r = 0) (repo_mappings s))"

definition refresh_distinct_hash_count :: "store \<Rightarrow> store \<times> nat option" where
  "refresh_distinct_hash_count s =
     (case read_distinct_hash_count s of
        None \<Rightarrow> (s, None)
      | Some _ \<Rightarrow> (write_distinct_hash_count s (distinct_hash_count s), Some (distinct_hash_count s)))"

text \<open>\<open>u64::ilog2\<close> of a positive number.\<close>

fun ilog2 :: "nat \<Rightarrow> nat" where
  "ilog2 n = (if n < 2 then 0 else Suc (ilog2 (n div 2)))"

declare ilog2.simps [simp del]

definition advise :: "nat \<Rightarrow> nat \<Rightarrow> pull_mode" where
  "advise count k =
     (if k = 0 \<or> count < k then WholeRepo
      else (let bits = ilog2 (count div k) in if bits = 0 then WholeRepo else Bucketed bits))"

section \<open>The parity digest\<close>

text \<open>
  \<open>PairDigest\<close>: the hasher is the list of the bytes it has absorbed, and \<open>finalize\<close> applies
  the BLAKE3 function \<open>b3\<close> to them.
\<close>

record pair_digest =
  pd_hasher :: "byte list"
  pd_count :: nat

definition pd_new :: pair_digest where
  "pd_new = \<lparr>pd_hasher = [], pd_count = 0\<rparr>"

definition u32_le :: "nat \<Rightarrow> byte list" where
  "u32_le n = map (\<lambda>k. of_nat (n div 256 ^ k mod 256)) [0..<4]"

definition pd_update :: "byte list \<Rightarrow> ustring \<Rightarrow> pair_digest \<Rightarrow> pair_digest" where
  "pd_update h t d = d\<lparr>pd_hasher := pd_hasher d @ h @ u32_le (str_len t) @ utf8 t, pd_count := pd_count d + 1\<rparr>"

definition pd_finalize :: "(byte list \<Rightarrow> byte list) \<Rightarrow> pair_digest \<Rightarrow> nat \<times> byte list" where
  "pd_finalize b3 d = (pd_count d, b3 (pd_hasher d))"

text \<open>\<open>Vec::dedup\<close>: drop an element equal to its predecessor.\<close>

definition flush_hash :: "byte list option \<Rightarrow> ustring list \<Rightarrow> pair_digest \<Rightarrow> pair_digest" where
  "flush_hash cur tags d =
     (case cur of None \<Rightarrow> d | Some h \<Rightarrow> fold (pd_update h) (remdups_adj (sort tags)) d)"

fun audit_loop :: "(byte list \<times> ustring) list \<Rightarrow> byte list option \<Rightarrow> ustring list \<Rightarrow> pair_digest \<Rightarrow> store_error + pair_digest" where
  "audit_loop [] cur tags d = Inr (flush_hash cur tags d)"
| "audit_loop ((h, t) # rows) cur tags d =
     (if length h \<noteq> 32 then Inl BlobNot32
      else if cur = Some h then audit_loop rows cur (tags @ [t]) d
      else audit_loop rows (Some h) [t] (flush_hash cur tags d))"

definition audit_band_digest ::
  "(byte list \<Rightarrow> byte list) \<Rightarrow> crypto \<Rightarrow> store \<Rightarrow> ustring \<Rightarrow> nat \<Rightarrow> store_error + nat \<times> byte list" where
  "audit_band_digest b3 C s lo_hex prefix_bits =
     (case hash_from_str lo_hex of
        Inl _ \<Rightarrow> Inl (BadLoHex lo_hex)
      | Inr lo \<Rightarrow>
          (let bits = min prefix_bits 256;
               hi_hex = bucket_upper lo bits
           in case hex_decode C (bucket_key lo bits) of
                None \<Rightarrow> Inl (HashNotHex (bucket_key lo bits))
              | Some lo_blob \<Rightarrow>
                  (case (if hi_hex = lit ''g'' then Some (replicate 33 0xFF) else hex_decode C hi_hex) of
                     None \<Rightarrow> Inl (HashNotHex hi_hex)
                   | Some hi_blob \<Rightarrow>
                       and_then
                         (audit_loop
                           (map (\<lambda>(h, t, r). (h, t)) (sort_key fst
                             (filter (\<lambda>row. mr_status (snd (snd row)) = 0 \<and> mr_origin (snd (snd row)) = None \<and>
                               in_range lo_blob hi_blob row) (joined s))))
                           None [] pd_new)
                         (\<lambda>d. Inr (pd_finalize b3 d)))))"

end
