(* ===== verification/StoreServe.thy ===== *)
theory StoreServe
  imports StoreRead
begin

text \<open>
  What the reads of \<open>StoreRead\<close> promise: the join lists the current rows, the buckets of one width
  partition the snapshot, a delta is exact and within its budget, the persisted count is the true
  one, the parity digest is that of the sorted list of mirrored pairs.
\<close>

section \<open>The join\<close>

lemma key_of_iff: "ids_ok t \<Longrightarrow> key_of t i = Some k \<longleftrightarrow> map_of t k = Some i"
proof -
  assume ok: "ids_ok t"
  have swap: "map fst (map (\<lambda>(k, j). (j, k)) t) = map snd t" by (simp add: case_prod_beta comp_def)
  have d: "distinct (map fst (map (\<lambda>(k, j). (j, k)) t))" "distinct (map fst t)"
    using ok unfolding swap by (simp_all add: ids_ok_def)
  have "key_of t i = Some k \<longleftrightarrow> (i, k) \<in> set (map (\<lambda>(k, j). (j, k)) t)"
    unfolding key_of_def by (rule map_of_eq_Some_iff [OF d(1)])
  also have "\<dots> \<longleftrightarrow> (k, i) \<in> set t" by auto
  also have "\<dots> \<longleftrightarrow> map_of t k = Some i" using map_of_eq_Some_iff [OF d(2)] by simp
  finally show ?thesis .
qed

lemma map_filter_distinct:
  assumes "distinct (map g xs)"
    and "\<And>x y a b. x \<in> set xs \<Longrightarrow> y \<in> set xs \<Longrightarrow> f x = Some a \<Longrightarrow> f y = Some b \<Longrightarrow> e a = e b \<Longrightarrow> g x = g y"
  shows "distinct (map e (List.map_filter f xs))"
  using assms
proof (induction xs)
  case (Cons x xs)
  have "distinct (map g xs)" using Cons.prems(1) by simp
  then have IH: "distinct (map e (List.map_filter f xs))"
    by (rule Cons.IH) (metis Cons.prems(2) list.set_intros(2))
  show ?case
  proof (cases "f x")
    case (Some a)
    have "e a \<noteq> e b" if "b \<in> set (List.map_filter f xs)" for b
    proof
      assume eq: "e a = e b"
      obtain y where y: "y \<in> set xs" "f y = Some b" using \<open>b \<in> set (List.map_filter f xs)\<close> unfolding map_filter_mem by blast
      have "g x = g y" using Cons.prems(2) [OF _ _ Some y(2) eq] y(1) by simp
      then show False using Cons.prems(1) y(1) by (auto simp: image_iff)
    qed
    then show ?thesis using IH Some by (auto simp: List.map_filter_simps)
  qed (simp add: IH List.map_filter_simps)
qed (simp add: List.map_filter_simps)

lemma joined_iff:
  assumes "store_ok s"
  shows "(h, t, r) \<in> set (joined s) \<longleftrightarrow> cur_row s h t = Some r"
proof -
  have ids: "ids_ok (repo_hashes s)" "ids_ok (repo_tags s)" and k: "keyed (repo_mappings s)"
    using assms by (simp_all add: store_ok_def seqs_pos_def)
  have "(h, t, r) \<in> set (joined s) \<longleftrightarrow>
      (\<exists>i j. ((i, j), r) \<in> set (repo_mappings s) \<and> key_of (repo_hashes s) i = Some h \<and> key_of (repo_tags s) j = Some t)"
    unfolding joined_def map_filter_mem join_row_def by (force split: option.splits)
  then show ?thesis unfolding cur_row_key key_of_iff [OF ids(1)] key_of_iff [OF ids(2)] keyed_map_of_iff [OF k] by blast
qed

lemma joined_distinct:
  assumes "store_ok s"
  shows "distinct (map (\<lambda>row. (fst row, fst (snd row))) (joined s))"
  unfolding joined_def
proof (rule map_filter_distinct [where g = fst])
  have ids: "ids_ok (repo_hashes s)" "ids_ok (repo_tags s)" using assms by (simp_all add: store_ok_def)
  show "distinct (map fst (repo_mappings s))" using assms by (simp add: store_ok_def seqs_pos_def keyed_def)
  show "fst x = fst y" if "join_row s x = Some a" "join_row s y = Some b" "(fst a, fst (snd a)) = (fst b, fst (snd b))" for x y a b
    using that key_of_iff [OF ids(1)] key_of_iff [OF ids(2)]
    by (auto simp: join_row_def prod_eq_iff split: option.splits)
qed

lemma joined_cur: "store_ok s \<Longrightarrow> row \<in> set (joined s) \<longleftrightarrow> cur_row s (fst row) (fst (snd row)) = Some (snd (snd row))"
  using joined_iff by (metis prod.collapse)

lemma joined_hash_length: "store_ok s \<Longrightarrow> row \<in> set (joined s) \<Longrightarrow> length (fst row) = 32"
proof -
  assume s: "store_ok s" and "row \<in> set (joined s)"
  then have "cur_row s (fst row) (fst (snd row)) = Some (snd (snd row))" by (simp add: joined_cur)
  then obtain i where "map_of (repo_hashes s) (fst row) = Some i" unfolding cur_row_key by blast
  then have "fst row \<in> fst ` set (repo_hashes s)" by (auto dest!: map_of_SomeD intro: rev_image_eqI)
  then show ?thesis using s unfolding store_ok_def by blast
qed

section \<open>The drain loop\<close>

definition total_cost :: "crypto \<Rightarrow> nat \<Rightarrow> joined_row list \<Rightarrow> nat" where
  "total_cost C spent rows = spent + sum_list (map (row_cost C) rows)"

lemma drain_within:
  assumes "total_cost C spent rows \<le> budget" "budget < 2 ^ 64"
  shows "drain C budget push spent out rows = Inr (fold push rows out, total_cost C spent rows)"
  using assms by (induction rows arbitrary: spent out) (auto simp: total_cost_def saturating_add_usize_def Let_def add.assoc)

lemma drain_over:
  assumes "budget < total_cost C spent rows" "spent \<le> budget" "budget < 2 ^ 64 - 1"
  shows "drain C budget push spent out rows = Inl (BudgetExceeded budget)"
  using assms
proof (induction rows arbitrary: spent out)
  case (Cons row rows)
  show ?case
  proof (cases "budget < saturating_add_usize spent (row_cost C row)")
    case False
    then have "saturating_add_usize spent (row_cost C row) = spent + row_cost C row"
      using Cons.prems(3) by (simp add: saturating_add_usize_def split: split_min)
    then show ?thesis using Cons.IH [of "spent + row_cost C row"] Cons.prems False
      by (simp add: total_cost_def Let_def add.assoc)
  qed (simp add: Let_def)
qed (simp add: total_cost_def)

lemma drain_Inr: "drain C budget push spent out rows = Inr (out', spent') \<Longrightarrow> out' = fold push rows out"
  by (induction rows arbitrary: spent out) (auto simp: Let_def split: if_splits)

lemma fold_push_get: "get_vec (fold (push_row C) rows m) key =
    get_vec m key @ map (\<lambda>(h, t, r). \<lparr>ot_tag = t, ot_origin = mr_origin r\<rparr>) (filter (\<lambda>row. hex_encode C (fst row) = key) rows)"
  by (induction rows arbitrary: m) (auto simp: push_row_def get_vec_push split: prod.split)

lemma fold_push_keyed: "keyed m \<Longrightarrow> keyed (fold (push_row C) rows m)"
  by (induction rows arbitrary: m) (auto simp: push_row_def push_entry_def split: prod.split)

lemma fold_snoc_map: "fold (\<lambda>row out. out @ [f row]) rows out = out @ map f rows"
  by (induction rows arbitrary: out) simp_all

section \<open>Range bounds\<close>

lemma replicate_FF_max: "length h < n \<Longrightarrow> h < replicate n (0xFF :: byte)"
proof (induction n arbitrary: h)
  case (Suc n)
  show ?case
  proof (cases h)
    case Nil
    then show ?thesis by simp
  next
    case (Cons b bs)
    have "b \<le> 0xFF" by (simp add: word_le_nat_alt) (use unat_byte_le [of b] in simp)
    then have "b < 0xFF \<or> b = 0xFF" by auto
    then show ?thesis using Suc.IH [of bs] Suc.prems Cons by auto
  qed
qed simp

lemma length_carry_loop: "length (fst (carry_loop n c bs)) = length bs"
  by (induction n c bs rule: carry_loop.induct) (simp_all add: Let_def)

lemma min_eq_0: "min (n :: nat) 256 = 0 \<longleftrightarrow> n = 0"
  by (simp add: min_def)

lemma bucket_upper_cases:
  assumes "hash_ok lo"
  obtains "bucket_upper lo bits = lit ''g''" | b where "length b = 32" "bucket_upper lo bits = to_hex b"
proof -
  obtain bs c where l: "carry_loop (31 - (256 - min bits 256) div 8 + 1)
      (push_bit ((256 - min bits 256) mod 8) 1) (masked lo (min bits 256)) = (bs, c)" by fastforce
  have "length bs = 32" using length_carry_loop [of "31 - (256 - min bits 256) div 8 + 1"
      "push_bit ((256 - min bits 256) mod 8) 1" "masked lo (min bits 256)"] assms
    unfolding l by (simp add: hash_ok_def)
  moreover have "bucket_upper lo bits = (if bits = 0 \<or> 0 < c then lit ''g'' else to_hex bs)"
    using l min_eq_0 by (cases "bits = 0") (simp_all add: bucket_upper_def Let_def del: carry_loop.simps lit_Cons)
  ultimately show thesis using that by (auto split: if_splits)
qed

lemma bucket_range_iff:
  assumes hx: "hex_ok C" and lo: "hash_ok lo" and h: "hash_ok h"
  shows "lo_bound C (bucket_key lo bits) \<le> h \<and> h < hi_bound C (bucket_upper lo bits)
    \<longleftrightarrow> bucket_key h bits = bucket_key lo bits"
proof -
  have len: "length (masked lo bits) = length h" using lo h by (simp add: hash_ok_def)
  have l: "lo_bound C (bucket_key lo bits) = masked lo bits"
    using hx lo by (simp add: lo_bound_def bucket_key_def hex_ok_def hash_ok_def)
  have low: "masked lo bits \<le> h \<longleftrightarrow> bucket_key lo bits \<le> to_hex h"
    using to_hex_less_iff [OF len] to_hex_inj [OF len] by (auto simp: bucket_key_def order_le_less)
  have up: "h < hi_bound C (bucket_upper lo bits) \<longleftrightarrow> to_hex h < bucket_upper lo bits"
  proof (cases rule: bucket_upper_cases [OF lo, of bits])
    case 1
    have "h < replicate 33 0xFF" using h by (intro replicate_FF_max) (simp add: hash_ok_def)
    then show ?thesis using hx to_hex_less_g [of h] unfolding 1 by (simp add: hi_bound_def hex_ok_def)
  next
    case (2 b)
    then have "length h = length b" using h by (simp add: hash_ok_def)
    then show ?thesis using hx 2 to_hex_less_iff [of h b] by (simp add: hi_bound_def hex_ok_def)
  qed
  show ?thesis unfolding l low up by (rule key_range [OF lo h])
qed

text \<open>The rows of a bucket.\<close>

definition bucket_rows :: "crypto \<Rightarrow> store \<Rightarrow> ustring \<Rightarrow> ustring \<Rightarrow> joined_row list" where
  "bucket_rows C s lo hi = sort_key (\<lambda>(h, t, r). (h, t))
     (filter (\<lambda>row. mr_status (snd (snd row)) = 0 \<and> in_range (lo_bound C lo) (hi_bound C hi) row) (joined s))"

definition delta_rows :: "crypto \<Rightarrow> store \<Rightarrow> ustring \<Rightarrow> ustring \<Rightarrow> int \<Rightarrow> joined_row list" where
  "delta_rows C s lo hi since = sort_key (\<lambda>(h, t, r). (mr_seq r, h, t))
     (filter (\<lambda>row. in_range (lo_bound C lo) (hi_bound C hi) row \<and> since < mr_seq (snd (snd row))) (joined s))"

lemma bucket_drain: "bucket C s lo hi budget = drain C budget (push_row C) RESPONSE_ENVELOPE_OVERHEAD [] (bucket_rows C s lo hi)"
  by (simp add: bucket_def bucket_rows_def)

lemma delta_drain: "bucket_delta C s lo hi since budget =
    drain C budget (\<lambda>row out. out @ [row_change C row]) RESPONSE_ENVELOPE_OVERHEAD []
      (delta_rows C s lo hi (min (int since) (2 ^ 63 - 1)))"
  by (simp add: bucket_delta_def delta_rows_def Let_def min_def)

lemma row_hash_ok: "store_ok s \<Longrightarrow> row \<in> set (joined s) \<Longrightarrow> hash_ok (fst row)"
  by (simp add: joined_hash_length hash_ok_def)

lemma bucket_rows_iff:
  assumes "store_ok s" "hex_ok C" "hash_ok lo"
  shows "row \<in> set (bucket_rows C s (bucket_key lo bits) (bucket_upper lo bits)) \<longleftrightarrow>
    row \<in> set (joined s) \<and> mr_status (snd (snd row)) = 0 \<and> bucket_key (fst row) bits = bucket_key lo bits"
  using bucket_range_iff [OF assms(2,3) row_hash_ok [OF assms(1)], of row] by (auto simp: bucket_rows_def in_range_def)

lemma delta_rows_iff:
  assumes "store_ok s" "hex_ok C" "hash_ok lo"
  shows "row \<in> set (delta_rows C s (bucket_key lo bits) (bucket_upper lo bits) since) \<longleftrightarrow>
    row \<in> set (joined s) \<and> since < mr_seq (snd (snd row)) \<and> bucket_key (fst row) bits = bucket_key lo bits"
  using bucket_range_iff [OF assms(2,3) row_hash_ok [OF assms(1)], of row] by (auto simp: delta_rows_def in_range_def)

section \<open>Snapshot, bucket and delta\<close>

lemma hex_row_eq:
  "store_ok s \<Longrightarrow> hex_ok C \<Longrightarrow> row \<in> set (joined s) \<Longrightarrow> hash_ok h \<Longrightarrow> hex_encode C (fst row) = to_hex h \<longleftrightarrow> fst row = h"
  using to_hex_inj [of "fst row" h] by (simp add: hex_ok_def hash_ok_def joined_hash_length)

lemma filter_sort_cong:
  "(\<And>x. x \<in> set xs \<Longrightarrow> P x \<longleftrightarrow> Q x) \<Longrightarrow> filter P (sort_key k xs) = sort_key k (filter Q xs)"
  by (simp add: filter_sort cong: filter_cong)

definition current_of :: "store \<Rightarrow> byte list \<Rightarrow> joined_row list" where
  "current_of s h = sort_key (\<lambda>(h, t, r). (h, t)) (filter (\<lambda>row. mr_status (snd (snd row)) = 0 \<and> fst row = h) (joined s))"

definition tags_of :: "joined_row list \<Rightarrow> origin_tag list" where
  "tags_of rows = map (\<lambda>(h, t, r). \<lparr>ot_tag = t, ot_origin = mr_origin r\<rparr>) rows"

lemma snapshot_vec:
  assumes "store_ok s" "hex_ok C" "hash_ok h"
  shows "get_vec (snapshot C s) (to_hex h) = tags_of (current_of s h)"
proof -
  have "filter (\<lambda>row. hex_encode C (fst row) = to_hex h)
      (sort_key (\<lambda>(h, t, r). (h, t)) (filter (\<lambda>(h, t, r). mr_status r = 0) (joined s))) = current_of s h"
    unfolding current_of_def filter_sort filter_filter
    by (rule arg_cong [where f = "sort_key _"], rule filter_cong [OF refl])
      (use hex_row_eq [OF assms(1,2) _ assms(3)] in auto)
  then show ?thesis by (simp add: snapshot_def fold_push_get tags_of_def)
qed

lemma bucket_vec:
  assumes "store_ok s" "hex_ok C" "hash_ok lo" "hash_ok h"
  shows "get_vec (fold (push_row C) (bucket_rows C s (bucket_key lo bits) (bucket_upper lo bits)) []) (to_hex h) =
    (if bucket_key h bits = bucket_key lo bits then tags_of (current_of s h) else [])"
proof -
  have "filter (\<lambda>row. hex_encode C (fst row) = to_hex h) (bucket_rows C s (bucket_key lo bits) (bucket_upper lo bits)) =
    (if bucket_key h bits = bucket_key lo bits then current_of s h else [])"
  proof -
    have "filter (\<lambda>row. hex_encode C (fst row) = to_hex h) (bucket_rows C s (bucket_key lo bits) (bucket_upper lo bits)) =
      sort_key (\<lambda>(h, t, r). (h, t)) (filter (\<lambda>row. (mr_status (snd (snd row)) = 0 \<and> fst row = h) \<and>
        bucket_key h bits = bucket_key lo bits) (joined s))"
      unfolding bucket_rows_def filter_sort filter_filter in_range_def
      by (rule arg_cong [where f = "sort_key _"], rule filter_cong [OF refl])
        (use hex_row_eq [OF assms(1,2) _ assms(4)] bucket_range_iff [OF assms(2,3,4), of bits] in auto)
    then show ?thesis by (simp add: current_of_def)
  qed
  then show ?thesis by (simp add: fold_push_get tags_of_def)
qed

lemma current_of_tags:
  assumes "store_ok s"
  shows "\<lparr>ot_tag = t, ot_origin = og\<rparr> \<in> set (tags_of (current_of s h)) \<longleftrightarrow> map_option row_view (cur_row s h t) = Some (0, og)"
proof -
  have "\<lparr>ot_tag = t, ot_origin = og\<rparr> \<in> set (tags_of (current_of s h)) \<longleftrightarrow>
      (\<exists>r. (h, t, r) \<in> set (joined s) \<and> mr_status r = 0 \<and> mr_origin r = og)"
    by (force simp: tags_of_def current_of_def)
  then show ?thesis by (auto simp: joined_iff [OF assms] row_view_def)
qed

lemma current_of_sorted:
  assumes "store_ok s"
  shows "sorted_wrt (<) (map ot_tag (tags_of (current_of s h)))"
proof -
  let ?k = "\<lambda>row :: joined_row. (fst row, fst (snd row))" and ?rows = "current_of s h"
  have key: "(\<lambda>(h, t, r). (h, t)) = ?k" by (simp add: fun_eq_iff)
  have sorted: "sorted (map ?k ?rows)" unfolding current_of_def key by (rule sorted_sort_key)
  have "distinct (map ?k ?rows)"
    using joined_distinct [OF assms] unfolding current_of_def by (simp add: distinct_map inj_on_def)
  moreover have "map ?k ?rows = map (Pair h) (map ot_tag (tags_of ?rows))"
    unfolding tags_of_def map_map by (rule map_cong [OF refl]) (auto simp: current_of_def)
  ultimately show ?thesis using sorted
    by (auto simp: strict_sorted_iff sorted_map distinct_map inj_on_def less_eq_prod_def)
qed

text \<open>
  C25. The whole-repository snapshot and the buckets.  For every hash the snapshot lists exactly
  its current tags with their origins, in ascending order and without repetition; and a bucket
  read that stays within its budget returns, for every hash that falls into the bucket at the
  requested width, exactly the snapshot's list, and nothing for any other hash.  So the buckets
  of one width partition the snapshot.
\<close>

theorem buckets_partition_snapshot:
  assumes "store_ok s" "hex_ok C" "hash_ok lo" "hash_ok h"
    and "bucket C s (bucket_key lo bits) (bucket_upper lo bits) budget = Inr (out, spent)"
  shows "sorted_wrt (<) (map ot_tag (get_vec (snapshot C s) (to_hex h))) \<and>
    (\<forall>t og. \<lparr>ot_tag = t, ot_origin = og\<rparr> \<in> set (get_vec (snapshot C s) (to_hex h)) \<longleftrightarrow>
       map_option row_view (cur_row s h t) = Some (0, og)) \<and>
    get_vec out (to_hex h) =
      (if bucket_key h bits = bucket_key lo bits then get_vec (snapshot C s) (to_hex h) else [])"
  using current_of_sorted [OF assms(1)] current_of_tags [OF assms(1)] bucket_vec [OF assms(1-4), of bits]
    drain_Inr [OF assms(5) [unfolded bucket_drain]]
  by (simp add: snapshot_vec [OF assms(1,2,4)])

lemma delta_rows_sorted:
  assumes "store_ok s"
  shows "sorted_wrt (\<lambda>a b. mr_seq (snd (snd a)) < mr_seq (snd (snd b))) (delta_rows C s lo hi since)"
proof -
  let ?k = "\<lambda>row :: joined_row. (mr_seq (snd (snd row)), fst row, fst (snd row))" and ?rows = "delta_rows C s lo hi since"
  have key: "(\<lambda>(h, t, r). (mr_seq r, h, t)) = ?k" by (simp add: fun_eq_iff)
  have sorted: "sorted (map ?k ?rows)" unfolding delta_rows_def key by (rule sorted_sort_key)
  have sub: "set ?rows \<subseteq> set (joined s)" by (auto simp: delta_rows_def)
  have "distinct (map (\<lambda>row. (fst row, fst (snd row))) ?rows)"
    using joined_distinct [OF assms] unfolding delta_rows_def by (simp add: distinct_map inj_on_def)
  then have "distinct ?rows" by (simp add: distinct_map)
  moreover have "a = b" if "a \<in> set ?rows" "b \<in> set ?rows" "mr_seq (snd (snd a)) = mr_seq (snd (snd b))" for a b
  proof -
    have cur: "cur_row s (fst a) (fst (snd a)) = Some (snd (snd a))" "cur_row s (fst b) (fst (snd b)) = Some (snd (snd b))"
      using that(1,2) sub joined_cur [OF assms] by blast+
    then obtain i j i' j' where k: "map_of (repo_hashes s) (fst a) = Some i" "map_of (repo_tags s) (fst (snd a)) = Some j"
      "map_of (repo_mappings s) (i, j) = Some (snd (snd a))" "map_of (repo_hashes s) (fst b) = Some i'"
      "map_of (repo_tags s) (fst (snd b)) = Some j'" "map_of (repo_mappings s) (i', j') = Some (snd (snd b))"
      unfolding cur_row_key by blast
    have "(i, j) = (i', j')" using assms k(3,6) that(3) unfolding store_ok_def seqs_pos_def by blast
    then have ij: "i' = i" "j' = j" by simp_all
    have "ids_ok (repo_hashes s)" "ids_ok (repo_tags s)" using assms by (simp_all add: store_ok_def)
    then have "fst a = fst b" "fst (snd a) = fst (snd b)" using ids_ok_inj k ij by metis+
    moreover have "snd (snd a) = snd (snd b)" using k(3,6) ij by simp
    ultimately show ?thesis by (simp add: prod_eq_iff)
  qed
  ultimately have "sorted_wrt (<) (map (\<lambda>row. mr_seq (snd (snd row))) ?rows)"
    unfolding strict_sorted_iff using sorted
    by (auto simp: sorted_map distinct_map inj_on_def less_eq_prod_def elim: sorted_wrt_mono_rel [rotated])
  then show ?thesis by (simp add: sorted_wrt_map)
qed

text \<open>
  A bucket's delta.  A delta read that stays within its budget returns exactly one change
  for every pair of the bucket whose row has a number above the client's cursor, tombstones
  included, with that row's status, number and origin, and nothing else; the changes are in
  strictly ascending order of their numbers.
\<close>

theorem bucket_delta_exact:
  assumes "store_ok s" "hex_ok C" "hash_ok lo" "since < 2 ^ 63"
    and "bucket_delta C s (bucket_key lo bits) (bucket_upper lo bits) since budget = Inr (changes, spent)"
  shows "sorted_wrt (\<lambda>a b. dm_seq a < dm_seq b) changes \<and>
    set changes = {\<lparr>dm_hash = to_hex h, dm_tag = t, dm_status = (if mr_status r = 1 then Deleted else Current),
      dm_seq = mr_seq r, dm_origin = mr_origin r\<rparr> | h t r.
      bucket_key h bits = bucket_key lo bits \<and> cur_row s h t = Some r \<and> int since < mr_seq r}"
proof -
  let ?rows = "delta_rows C s (bucket_key lo bits) (bucket_upper lo bits) (int since)"
  have "min (int since) (2 ^ 63 - 1) = int since" using assms(4) by (simp add: min_def)
  then have ch: "changes = map (row_change C) ?rows"
    using drain_Inr [OF assms(5) [unfolded delta_drain]] by (simp add: fold_snoc_map)
  have "sorted_wrt (\<lambda>a b. dm_seq a < dm_seq b) changes"
    unfolding ch sorted_wrt_map using delta_rows_sorted [OF assms(1)]
    by (rule sorted_wrt_mono_rel [rotated]) (simp add: row_change_def case_prod_beta)
  moreover have "set changes = {row_change C (h, t, r) | h t r.
      bucket_key h bits = bucket_key lo bits \<and> cur_row s h t = Some r \<and> int since < mr_seq r}"
  proof -
    have "(h, t, r) \<in> set ?rows \<longleftrightarrow> bucket_key h bits = bucket_key lo bits \<and> cur_row s h t = Some r \<and> int since < mr_seq r" for h t r
      unfolding delta_rows_iff [OF assms(1-3)] joined_cur [OF assms(1)] by auto
    then have "set ?rows = {(h, t, r) | h t r. bucket_key h bits = bucket_key lo bits \<and> cur_row s h t = Some r \<and> int since < mr_seq r}"
      by auto
    then show ?thesis unfolding ch by auto
  qed
  moreover have "row_change C (h, t, r) = \<lparr>dm_hash = to_hex h, dm_tag = t, dm_status = (if mr_status r = 1 then Deleted else Current),
      dm_seq = mr_seq r, dm_origin = mr_origin r\<rparr>" for h t r
    using assms(2) by (simp add: row_change_def hex_ok_def)
  ultimately show ?thesis by simp
qed

section \<open>The budget\<close>

text \<open>
  The serialised length of one change, as \<open>crates/core/src/error.rs\<close> derives it for
  \<open>BUCKET_ROW_OVERHEAD\<close>: 9 + 9 + 27 + 2 bytes of framing, the hash, the escaped tag, the
  decimal number, and 12 bytes around the escaped origin when there is one.
\<close>

definition change_len :: "delta_mapping \<Rightarrow> nat" where
  "change_len c = 9 + str_len (dm_hash c) + 9 + json_escaped_len (dm_tag c) + 27 + str_len (dec (nat (dm_seq c))) + 2 +
     (case dm_origin c of None \<Rightarrow> 0 | Some o1 \<Rightarrow> 12 + json_escaped_len o1)"

lemma length_dec: "0 < k \<Longrightarrow> n < 10 ^ k \<Longrightarrow> length (dec n) \<le> k"
proof (induction n arbitrary: k rule: dec.induct)
  case (1 n)
  show ?case
  proof (cases "n < 10")
    case True
    then show ?thesis using 1 by (subst dec.simps) simp
  next
    case False
    then obtain m where m: "k = Suc m" "0 < m" using 1(2,3) by (cases k; cases "k - 1") auto
    have "n div 10 < 10 ^ m" using 1(3) m(1) by (simp add: less_mult_imp_div_less mult.commute)
    then show ?thesis using 1(1) [OF False m(2)] False m(1) by (subst dec.simps) simp
  qed
qed

lemma str_len_ascii: "(\<And>c. c \<in> set s \<Longrightarrow> c < 128) \<Longrightarrow> str_len s = length s"
  by (induction s) (simp_all add: str_len_Cons utf8_width_ascii str_len_def [of "[]"])

lemma str_len_dec: "str_len (dec n) = length (dec n)"
  by (intro str_len_ascii) (auto simp: is_ascii_digit_def dest: dec_digits)

lemma row_cost_covers:
  assumes "hex_ok C" "0 \<le> mr_seq r" "mr_seq r < 2 ^ 64" "json_escaped_len t = str_len t"
  shows "change_len (row_change C (h, t, r)) \<le> row_cost C (h, t, r)"
proof -
  have "length (dec (nat (mr_seq r))) \<le> 20" using assms(2,3) by (intro length_dec) auto
  then show ?thesis using assms
    by (simp add: change_len_def row_change_def row_cost_def approx_row_cost_def BUCKET_ROW_OVERHEAD_def
        origin_cost_def str_len_dec split: option.split)
qed

lemma delta_rows_seq:
  assumes "store_ok s" "row \<in> set (delta_rows C s lo hi since)"
  shows "0 \<le> mr_seq (snd (snd row))"
proof -
  have "cur_row s (fst row) (fst (snd row)) = Some (snd (snd row))"
    using assms joined_cur by (auto simp: delta_rows_def)
  then obtain k where "map_of (repo_mappings s) k = Some (snd (snd row))" unfolding cur_row_key by blast
  then show ?thesis using assms(1) unfolding store_ok_def seqs_pos_def by (metis less_imp_le)
qed

text \<open>
  The response budget of a delta read.  A read fails with the budget error exactly when the
  envelope and the charges of all its rows exceed the budget, however early the loop stops;
  otherwise the charge returned is that sum.  And when no tag in the answer needs an escape in
  JSON, the charge is an upper bound on the serialised length, so the body never exceeds the
  budget.
\<close>

theorem delta_budget:
  assumes "store_ok s" "hex_ok C" "RESPONSE_ENVELOPE_OVERHEAD \<le> budget" "budget < 2 ^ 64 - 1" "since < 2 ^ 63"
  shows "case bucket_delta C s lo hi since budget of
      Inl e \<Rightarrow> e = BudgetExceeded budget \<and> budget < total_cost C RESPONSE_ENVELOPE_OVERHEAD (delta_rows C s lo hi (int since))
    | Inr (changes, spent) \<Rightarrow> spent = total_cost C RESPONSE_ENVELOPE_OVERHEAD (delta_rows C s lo hi (int since)) \<and> spent \<le> budget \<and>
        ((\<forall>c\<in>set changes. json_escaped_len (dm_tag c) = str_len (dm_tag c) \<and> dm_seq c < 2 ^ 64) \<longrightarrow>
           RESPONSE_ENVELOPE_OVERHEAD + sum_list (map change_len changes) \<le> spent)"
proof -
  let ?rows = "delta_rows C s lo hi (int since)"
  let ?total = "total_cost C RESPONSE_ENVELOPE_OVERHEAD ?rows"
  have since: "min (int since) (2 ^ 63 - 1) = int since" using assms(5) by (simp add: min_def)
  show ?thesis
  proof (cases "?total \<le> budget")
    case False
    then have "bucket_delta C s lo hi since budget = Inl (BudgetExceeded budget)"
      unfolding delta_drain since by (intro drain_over [OF _ assms(3,4)]) simp
    then show ?thesis using False by simp
  next
    case True
    have "budget < 2 ^ 64" using assms(4) by simp
    then have run: "bucket_delta C s lo hi since budget = Inr (map (row_change C) ?rows, ?total)"
      unfolding delta_drain since by (simp add: drain_within [OF True] fold_snoc_map)
    have le: "sum_list (map change_len (map (row_change C) rows)) \<le> sum_list (map (row_cost C) rows)"
      if "\<forall>c\<in>set (map (row_change C) rows). json_escaped_len (dm_tag c) = str_len (dm_tag c) \<and> dm_seq c < 2 ^ 64"
        "set rows \<subseteq> set ?rows" for rows
      using that
    proof (induction rows)
      case (Cons row rows)
      obtain h t r where row: "row = (h, t, r)" using prod_cases3 by blast
      have "change_len (row_change C row) \<le> row_cost C row"
        using Cons.prems delta_rows_seq [OF assms(1), of row C lo hi "int since"] unfolding row
        by (intro row_cost_covers [OF assms(2)]) (simp_all add: row_change_def)
      then show ?case using Cons by simp
    qed simp
    show ?thesis using True le [of ?rows] by (auto simp: run total_cost_def)
  qed
qed

text \<open>
  Without that condition the charge is no bound: a tag is charged at its raw length, but each
  quotation mark or backslash in it takes two bytes of the response.
\<close>

lemma json_quotes: "json_escaped_len (replicate n 34) = 2 * n" "str_len (replicate n 34) = n"
proof -
  show "json_escaped_len (replicate n 34) = 2 * n"
    by (induction n) (simp_all add: json_escaped_len_def utf8_ascii_Cons json_byte_len_def)
  show "str_len (replicate n 34) = n" by (subst str_len_ascii) simp_all
qed

theorem tag_escapes_uncharged:
  "row_cost toy_crypto (replicate 32 1, replicate 100 34, \<lparr>mr_status = 0, mr_seq = 1, mr_origin = None\<rparr>) <
    change_len (row_change toy_crypto (replicate 32 1, replicate 100 34, \<lparr>mr_status = 0, mr_seq = 1, mr_origin = None\<rparr>))"
  using toy_hex_ok
  by (simp add: change_len_def row_change_def row_cost_def approx_row_cost_def BUCKET_ROW_OVERHEAD_def hex_ok_def
      origin_cost_def str_len_dec json_quotes dec.simps del: replicate.simps)

section \<open>The advertised mode\<close>

lemma ilog2_bounds: "0 < n \<Longrightarrow> 2 ^ ilog2 n \<le> n \<and> n < 2 ^ Suc (ilog2 n)"
proof (induction n rule: ilog2.induct)
  case (1 n)
  show ?case
  proof (cases "n < 2")
    case True
    then show ?thesis using 1(2) by (simp add: ilog2.simps [of n])
  next
    case False
    then have "2 ^ ilog2 (n div 2) \<le> n div 2 \<and> n div 2 < 2 * 2 ^ ilog2 (n div 2)" using 1(1) by simp
    then show ?thesis using False by (simp add: ilog2.simps [of n]) linarith
  qed
qed

text \<open>
  The crowd floor.  With a floor of \<open>k > 0\<close> the repository advertises buckets of \<open>b\<close> bits
  exactly when \<open>b\<close> is the largest width at which the average bucket still holds \<open>k\<close> of its
  hashes, and that width is positive; otherwise, and whenever \<open>k\<close> is 0 or the repository holds
  fewer than twice \<open>k\<close> hashes, it advertises the whole repository.
\<close>

theorem advise_crowd_floor:
  "advise count k = Bucketed b \<longleftrightarrow> 0 < k \<and> 0 < b \<and> 2 ^ b * k \<le> count \<and> count < 2 ^ Suc b * k"
proof
  assume "advise count k = Bucketed b"
  then have k: "0 < k" "k \<le> count" and b: "b = ilog2 (count div k)" "0 < b"
    by (auto simp: advise_def Let_def split: if_splits)
  have "0 < count div k" using k by (simp add: div_greater_zero_iff)
  from ilog2_bounds [OF this] have "2 ^ b \<le> count div k" "count div k < 2 ^ Suc b" using b by simp_all
  then have "2 ^ b * k \<le> count" "count < 2 ^ Suc b * k"
    using k(1) by (simp_all only: less_eq_div_iff_mult_less_eq div_less_iff_less_mult)
  then show "0 < k \<and> 0 < b \<and> 2 ^ b * k \<le> count \<and> count < 2 ^ Suc b * k" using k b by simp
next
  assume h: "0 < k \<and> 0 < b \<and> 2 ^ b * k \<le> count \<and> count < 2 ^ Suc b * k"
  then have d: "2 ^ b \<le> count div k" "count div k < 2 ^ Suc b"
    by (simp_all only: less_eq_div_iff_mult_less_eq div_less_iff_less_mult)
  then have pos: "0 < count div k" using less_le_trans [OF _ d(1), of 0] by simp
  from ilog2_bounds [OF pos] have e: "2 ^ ilog2 (count div k) < (2 :: nat) ^ Suc b" "(2 :: nat) ^ b < 2 ^ Suc (ilog2 (count div k))"
    using d by linarith+
  have "ilog2 (count div k) < Suc b" "b < Suc (ilog2 (count div k))"
    by (rule power_less_imp_less_exp [OF _ e(1)], simp, rule power_less_imp_less_exp [OF _ e(2)], simp)
  then have "ilog2 (count div k) = b" by simp
  moreover have "k \<le> count" using pos by (simp add: div_greater_zero_iff)
  ultimately show "advise count k = Bucketed b" using h by (simp add: advise_def Let_def)
qed

section \<open>The persisted count of distinct hashes\<close>

definition current_ids :: "mappings \<Rightarrow> int set" where
  "current_ids t = {i. \<exists>j r. map_of t (i, j) = Some r \<and> mr_status r = 0}"

lemma distinct_hash_count_card:
  assumes "keyed (repo_mappings s)"
  shows "distinct_hash_count s = card (current_ids (repo_mappings s))"
proof -
  have "set (map (\<lambda>(k, r). fst k) (filter (\<lambda>(k, r). mr_status r = 0) (repo_mappings s))) = current_ids (repo_mappings s)"
    using keyed_map_of_iff [OF assms] by (force simp: current_ids_def)
  then show ?thesis by (simp add: distinct_hash_count_def length_remdups_card_conv)
qed

lemma finite_current_ids: "finite (current_ids t)"
proof (rule finite_subset)
  show "current_ids t \<subseteq> (fst \<circ> fst) ` set t" by (force simp: current_ids_def dest: map_of_SomeD)
qed simp

lemma current_count_pos: "keyed t \<Longrightarrow> 0 < current_count i t \<longleftrightarrow> i \<in> current_ids t"
  unfolding current_count_def current_ids_def length_greater_0_conv
  by (force simp: filter_empty_conv keyed_map_of_iff)

lemma current_ids_update: "current_ids (AList.update k r t) - {fst k} = current_ids t - {fst k}"
  by (auto simp: current_ids_def)

lemma card_step:
  assumes "finite A" "finite B" "A - {i} = B - {i}"
  shows "int (card B) = int (card A) + (if i \<in> B then 1 else 0) - (if i \<in> A then 1 else 0)"
proof -
  have "card X = (if i \<in> X then 1 else 0) + card (X - {i})" if "finite X" for X
    using card.remove [OF that, of i] by simp
  note c = this [OF assms(1)] this [OF assms(2)]
  show ?thesis unfolding c assms(3) by simp
qed

lemma read_written_count: "n < 2 ^ 64 \<Longrightarrow> read_distinct_hash_count (write_distinct_hash_count s n) = Some n"
proof -
  assume n: "n < 2 ^ 64"
  have "\<not> is_ws c" if "c \<in> set (dec n)" for c
    using dec_digits [OF that] by (auto simp: is_ws_def is_ascii_digit_def)
  moreover have "hd (dec n) \<in> set (dec n)" "hd (rev (dec n)) \<in> set (dec n)"
    using hd_in_set [of "dec n"] hd_in_set [of "rev (dec n)"] by simp_all
  ultimately have "trim (dec n) = dec n"
    by (simp add: trim_def trim_start_def trim_end_def dropWhile_none)
  then show ?thesis using n
    by (simp add: read_distinct_hash_count_def write_distinct_hash_count_def meta_get_def meta_put_def parse_u64_dec)
qed

lemma read_count_cong: "repo_meta s' = repo_meta s \<Longrightarrow> read_distinct_hash_count s' = read_distinct_hash_count s"
  by (simp add: read_distinct_hash_count_def meta_get_def)

lemma dhc_cong: "repo_mappings s' = repo_mappings s \<Longrightarrow> distinct_hash_count s' = distinct_hash_count s"
  by (simp add: distinct_hash_count_def)

lemma submission_tx_count:
  assumes s: "store_ok s" and r: "read_distinct_hash_count s = Some (distinct_hash_count s)"
    and n: "distinct_hash_count s < 2 ^ 64 - 1"
  shows "read_distinct_hash_count (fst (submission_tx C s sub ts)) = Some (distinct_hash_count (fst (submission_tx C s sub ts)))"
proof (cases "decode_hash C (sub_hash sub)")
  case (Inl e)
  then show ?thesis using r by (simp add: submission_tx_def Let_def)
next
  case (Inr b)
  obtain k s1 where p: "intern_pair s b (sub_tag sub) = (k, s1)" by fastforce
  obtain m ms where u: "upsert_signed k (op_status (sub_op sub)) (mapping_cursor s + 1) (sub_origin sub) (repo_mappings s) = (m, ms)"
    by fastforce
  obtain s2 where s2: "submission_tx C s sub ts = (s2, Inr ())" "same_mappings (s1\<lparr>repo_mappings := ms\<rparr>) s2"
    "repo_meta s2 = repo_meta (if 0 < m then maintain_count (current_count (fst k) (repo_mappings s)) (current_count (fst k) ms) s else s)"
    using submission_tx_eq [OF Inr p u] by metis
  have km: "keyed (repo_mappings s)" using s by (simp add: store_ok_def seqs_pos_def)
  have m2: "repo_mappings s2 = ms" using s2(2) by (simp add: same_mappings_def)
  show ?thesis
  proof (cases "m = 0")
    case True
    then have "ms = repo_mappings s" using u
      by (cases rule: upsert_signed_cases [of "repo_mappings s" k "op_status (sub_op sub)" "sub_origin sub" "mapping_cursor s + 1"]) auto
    then show ?thesis using r True s2(3) m2 by (simp add: s2(1) read_count_cong [of s2 s] dhc_cong [of s2 s])
  next
    case False
    obtain row where ms: "ms = AList.update k row (repo_mappings s)" using u False
      by (cases rule: upsert_signed_cases [of "repo_mappings s" k "op_status (sub_op sub)" "sub_origin sub" "mapping_cursor s + 1"]) auto
    let ?A = "current_ids (repo_mappings s)" and ?B = "current_ids ms" and ?i = "fst k"
    have kms: "keyed ms" using km by (simp add: ms)
    have step: "int (card ?B) = int (card ?A) + (if ?i \<in> ?B then 1 else 0) - (if ?i \<in> ?A then 1 else 0)"
      by (rule card_step) (simp_all add: finite_current_ids ms current_ids_update)
    have cnt: "distinct_hash_count s = card ?A" "distinct_hash_count s2 = card ?B"
      using distinct_hash_count_card km kms m2 by metis+
    have mc: "maintain_count (current_count ?i (repo_mappings s)) (current_count ?i ms) s =
      (if ?i \<in> ?A \<longleftrightarrow> ?i \<in> ?B then s else write_distinct_hash_count s (card ?B))"
    proof -
      have pos: "0 < current_count ?i (repo_mappings s) \<longleftrightarrow> ?i \<in> ?A" "0 < current_count ?i ms \<longleftrightarrow> ?i \<in> ?B"
        using current_count_pos km kms by blast+
      then have z: "current_count ?i (repo_mappings s) = 0 \<longleftrightarrow> ?i \<notin> ?A" "current_count ?i ms = 0 \<longleftrightarrow> ?i \<notin> ?B" by auto
      have "card ?B = (card ?A + 1) mod 2 ^ 64" if "?i \<notin> ?A" "?i \<in> ?B" using step that n cnt(1) by simp
      moreover have "card ?B = card ?A - 1" if "?i \<in> ?A" "?i \<notin> ?B" using step that by simp
      ultimately show ?thesis using r cnt(1) by (auto simp: maintain_count_def Let_def z pos)
    qed
    show ?thesis
    proof (cases "?i \<in> ?A \<longleftrightarrow> ?i \<in> ?B")
      case True
      then have "repo_meta s2 = repo_meta s" "card ?B = card ?A" using s2(3) False mc step by auto
      then show ?thesis using r cnt read_count_cong [of s2 s] by (simp add: s2(1))
    next
      case neq: False
      then have "repo_meta s2 = repo_meta (write_distinct_hash_count s (card ?B))" using s2(3) False mc by simp
      then have "read_distinct_hash_count s2 = read_distinct_hash_count (write_distinct_hash_count s (card ?B))"
        by (rule read_count_cong)
      moreover have "card ?B < 2 ^ 64" using step n cnt(1) by (auto split: if_splits)
      ultimately show ?thesis using cnt(2) by (simp add: s2(1) read_written_count)
    qed
  qed
qed

text \<open>
  C26. The persisted count of distinct hashes.  If the stored count is the true number of hashes
  with a current mapping, it still is after any submission, accepted or not: an addition to a
  bare hash raises it, the removal of a hash's last current tag lowers it, and nothing else
  moves it.
\<close>

theorem persisted_count_exact:
  assumes "store_ok s" "read_distinct_hash_count s = Some (distinct_hash_count s)" "distinct_hash_count s < 2 ^ 64 - 1"
  shows "read_distinct_hash_count (fst (apply_submission lc C s sub ts)) =
    Some (distinct_hash_count (fst (apply_submission lc C s sub ts)))"
proof -
  let ?s = "ensure_account s (sub_author sub) ts"
  have e: "store_ok ?s" "read_distinct_hash_count ?s = Some (distinct_hash_count ?s)" "distinct_hash_count ?s < 2 ^ 64 - 1"
    using store_adv_ok [OF ensure_account_adv [OF assms(1)]] assms(2,3) read_count_cong [of ?s s] dhc_cong [of ?s s] by simp_all
  show ?thesis using assms(2) e(2) submission_tx_count [OF e]
    by (simp add: apply_submission_def Let_def split: sum.split)
qed

text \<open>
  A moderator deletion does not keep it: it removes the last current tag of a hash and leaves
  the stored count one too high.
\<close>

theorem moderator_delete_leaves_count:
  "let s = write_distinct_hash_count toy_store 1;
       (s', r) = moderator_delete_mapping toy_crypto s (to_hex (replicate 32 1)) (lit ''a'')
   in store_ok s \<and> read_distinct_hash_count s = Some (distinct_hash_count s) \<and>
      r = Inr () \<and> read_distinct_hash_count s' = Some 1 \<and> distinct_hash_count s' = 0"
proof -
  define s where "s = write_distinct_hash_count toy_store 1"
  have tables: "repo_hashes s = [(replicate 32 1, 1)]" "repo_tags s = [(lit ''a'', 1)]"
    "repo_mappings s = [((1, 1), \<lparr>mr_status = 0, mr_seq = 1, mr_origin = None\<rparr>)]"
    by (simp_all add: s_def write_distinct_hash_count_def meta_put_def toy_store_def)
  have ok: "store_ok s" unfolding s_def
    using same_mappings_adv [OF store_adv_refl [OF toy_store_ok]] by (intro store_adv_ok [of toy_store]) simp
  have read: "read_distinct_hash_count s = Some 1" unfolding s_def by (rule read_written_count) simp
  have dhc: "distinct_hash_count s = 1" by (simp add: distinct_hash_count_def tables)
  obtain s' r where run: "moderator_delete_mapping toy_crypto s (to_hex (replicate 32 1)) (lit ''a'') = (s', r)" by fastforce
  have after: "r = Inr ()" "repo_meta s' = repo_meta s" "distinct_hash_count s' = 0"
    using run unfolding moderator_delete_mapping_def toy_hash_decode
    by (auto simp: tables Let_def distinct_hash_count_def simp del: replicate.simps lit_Cons)
  show ?thesis unfolding s_def [symmetric] Let_def run
    using ok read dhc after read_count_cong [OF after(2)] by simp
qed

section \<open>The parity digest\<close>

definition feed :: "(byte list \<times> ustring) list \<Rightarrow> pair_digest \<Rightarrow> pair_digest" where
  "feed ps d = fold (\<lambda>(h, t). pd_update h t) ps d"

definition frame_pairs :: "(byte list \<times> ustring) list \<Rightarrow> byte list" where
  "frame_pairs ps = concat (map (\<lambda>(h, t). h @ u32_le (str_len t) @ utf8 t) ps)"

lemma feed_frame: "feed ps d = d\<lparr>pd_hasher := pd_hasher d @ frame_pairs ps, pd_count := pd_count d + length ps\<rparr>"
  by (induction ps arbitrary: d) (auto simp: feed_def frame_pairs_def pd_update_def)

lemma feed_append: "feed (ps @ qs) d = feed qs (feed ps d)"
  by (simp add: feed_def)

lemma sorted_list_eqI:
  "sorted xs \<Longrightarrow> distinct xs \<Longrightarrow> set xs = A \<Longrightarrow> sorted_list_of_set A = xs"
  using sorted_list_of_set_sort_remdups [of xs] by (auto simp: distinct_remdups_id sorted_sort_id)

lemma sorted_dedup: "sorted xs \<Longrightarrow> sorted_wrt (<) (remdups_adj xs)"
  by (induction xs rule: remdups_adj.induct) (auto simp: order_less_le)

lemma flush_feed:
  "flush_hash (Some c) tags d = feed (sorted_list_of_set (Pair c ` set tags)) d"
proof -
  let ?ts = "remdups_adj (sort tags)"
  have d: "sorted_wrt (<) ?ts" by (simp add: sorted_dedup)
  have "sorted_list_of_set (Pair c ` set tags) = map (Pair c) ?ts"
    using d by (intro sorted_list_eqI)
      (auto simp: strict_sorted_iff sorted_map distinct_map inj_on_def less_eq_prod_def)
  moreover have "fold (pd_update c) ts d = feed (map (Pair c) ts) d" for ts
    by (induction ts arbitrary: d) (simp_all add: feed_def)
  ultimately show ?thesis by (simp add: flush_hash_def)
qed

lemma audit_loop_feed:
  assumes "sorted (map fst rows)" "\<forall>(h, t)\<in>set rows. c \<le> h \<and> length h = 32"
  shows "audit_loop rows (Some c) tags d = Inr (feed (sorted_list_of_set (Pair c ` set tags \<union> set rows)) d)"
  using assms
proof (induction rows arbitrary: c tags d)
  case Nil
  then show ?case by (simp add: flush_feed)
next
  case (Cons row rows)
  obtain h t where row: "row = (h, t)" by fastforce
  have h: "c \<le> h" "length h = 32" using Cons.prems(2) row by auto
  have rest: "sorted (map fst rows)" "\<forall>(g, u)\<in>set rows. h \<le> g \<and> length g = 32"
    using Cons.prems row by auto
  show ?case
  proof (cases "c = h")
    case True
    have "Pair c ` set (tags @ [t]) \<union> set rows = Pair c ` set tags \<union> set (row # rows)" by (auto simp: row True)
    then show ?thesis using Cons.IH [of h "tags @ [t]" d] rest h True by (simp add: row)
  next
    case False
    let ?A = "Pair c ` set tags" and ?B = "Pair h ` set [t] \<union> set rows"
    have fin: "finite ?A" "finite ?B" by simp_all
    note sets = set_sorted_list_of_set [OF fin(1)] set_sorted_list_of_set [OF fin(2)]
    have "sorted_list_of_set (?A \<union> ?B) = sorted_list_of_set ?A @ sorted_list_of_set ?B"
    proof (rule sorted_list_eqI)
      show "set (sorted_list_of_set ?A @ sorted_list_of_set ?B) = ?A \<union> ?B" by (simp only: set_append sets)
      have lt: "\<forall>x\<in>?A. \<forall>y\<in>?B. x < y" using h(1) False rest(2) by (auto simp: less_prod_def')
      from lt have le: "\<forall>x\<in>?A. \<forall>y\<in>?B. x \<le> y" by (blast intro: less_imp_le)
      show "sorted (sorted_list_of_set ?A @ sorted_list_of_set ?B)"
        unfolding sorted_append sets
        using le by (intro conjI sorted_sorted_list_of_set)
      show "distinct (sorted_list_of_set ?A @ sorted_list_of_set ?B)"
        unfolding distinct_append sets
        using lt by (intro conjI distinct_sorted_list_of_set) force
    qed
    moreover have "?A \<union> ?B = ?A \<union> set (row # rows)" by (simp add: row)
    ultimately have app: "sorted_list_of_set ?A @ sorted_list_of_set ?B = sorted_list_of_set (?A \<union> set (row # rows))"
      by (simp only:)
    have "audit_loop (row # rows) (Some c) tags d = audit_loop rows (Some h) [t] (flush_hash (Some c) tags d)"
      using False h(2) by (simp add: row)
    also have "\<dots> = Inr (feed (sorted_list_of_set ?B) (flush_hash (Some c) tags d))"
      by (rule Cons.IH [OF rest])
    also have "\<dots> = Inr (feed (sorted_list_of_set (?A \<union> set (row # rows))) d)"
      by (simp only: flush_feed feed_append [symmetric] app)
    finally show ?thesis .
  qed
qed

lemma audit_loop_all:
  assumes "sorted (map fst rows)" "\<forall>(h, t)\<in>set rows. length h = 32"
  shows "audit_loop rows None [] d = Inr (feed (sorted_list_of_set (set rows)) d)"
proof (cases rows)
  case Nil
  then show ?thesis by (simp add: flush_hash_def feed_def)
next
  case (Cons row rest)
  obtain h t where row: "row = (h, t)" by fastforce
  then have "\<forall>(g, u)\<in>set rest. h \<le> g \<and> length g = 32" "sorted (map fst rest)" "length h = 32"
    using assms Cons by auto
  then show ?thesis using audit_loop_feed [of rest h "[t]"] by (simp add: Cons row flush_hash_def)
qed

lemma u32_le_inj: "m < 2 ^ 32 \<Longrightarrow> n < 2 ^ 32 \<Longrightarrow> u32_le m = u32_le n \<Longrightarrow> m = n"
proof -
  assume mn: "m < 2 ^ 32" "n < 2 ^ 32" and eq: "u32_le m = u32_le n"
  have digit: "m div 256 ^ k mod 256 = n div 256 ^ k mod 256" if "k < 4" for k
  proof -
    have "u32_le m ! k = u32_le n ! k" using eq by simp
    then have "(of_nat (m div 256 ^ k mod 256) :: byte) = of_nat (n div 256 ^ k mod 256)"
      using that by (simp add: u32_le_def)
    then have "unat (of_nat (m div 256 ^ k mod 256) :: byte) = unat (of_nat (n div 256 ^ k mod 256) :: byte)" by simp
    then show ?thesis by (simp add: unat_of_nat_byte)
  qed
  have four: "x = x mod 256 + 256 * (x div 256 mod 256) + 65536 * (x div 65536 mod 256) + 16777216 * (x div 16777216 mod 256)"
    if "x < 2 ^ 32" for x :: nat
  proof -
    have lin: "y = a + 256 * b + 65536 * c + 16777216 * w"
      if "y = z * 256 + a" "z = v * 256 + b" "v = w * 256 + c" for y z v w a b c :: nat
      using that by simp
    have e: "x div 256 div 256 = x div 65536" "x div 65536 div 256 = x div 16777216"
      by (simp_all add: div_mult2_eq [symmetric])
    have "x div 16777216 < 256" using that by (simp add: less_mult_imp_div_less)
    then have "x div 16777216 mod 256 = x div 16777216" by (rule mod_less)
    then show ?thesis
      using lin [OF div_mult_mod_eq [of x 256, symmetric] div_mult_mod_eq [of "x div 256" 256, symmetric, unfolded e]
          div_mult_mod_eq [of "x div 65536" 256, symmetric, unfolded e]] by (simp only:)
  qed
  have d: "m mod 256 = n mod 256" "m div 256 mod 256 = n div 256 mod 256"
      "m div 65536 mod 256 = n div 65536 mod 256" "m div 16777216 mod 256 = n div 16777216 mod 256"
    using digit [of 0] digit [of 1] digit [of 2] digit [of 3] by simp_all
  have "m = m mod 256 + 256 * (m div 256 mod 256) + 65536 * (m div 65536 mod 256) + 16777216 * (m div 16777216 mod 256)"
    by (rule four [OF mn(1)])
  also have "\<dots> = n mod 256 + 256 * (n div 256 mod 256) + 65536 * (n div 65536 mod 256) + 16777216 * (n div 16777216 mod 256)"
    by (simp only: d)
  also have "\<dots> = n" by (rule four [OF mn(2), symmetric])
  finally show ?thesis .
qed

definition pair_ok :: "byte list \<times> ustring \<Rightarrow> bool" where
  "pair_ok p \<longleftrightarrow> length (fst p) = 32 \<and> valid_str (snd p) \<and> str_len (snd p) < 2 ^ 32"

lemma frame_pairs_inj:
  "\<forall>p\<in>set ps. pair_ok p \<Longrightarrow> \<forall>p\<in>set qs. pair_ok p \<Longrightarrow> frame_pairs ps = frame_pairs qs \<Longrightarrow> ps = qs"
proof (induction ps arbitrary: qs)
  case Nil
  then show ?case by (cases qs) (auto simp: frame_pairs_def pair_ok_def)
next
  case (Cons p ps)
  obtain h t where p: "p = (h, t)" by fastforce
  have ok: "length h = 32" "valid_str t" "str_len t < 2 ^ 32" using Cons.prems(1) by (simp_all add: p pair_ok_def)
  obtain g u qs' where q: "qs = (g, u) # qs'"
    using Cons.prems(3) ok(1) by (cases qs) (auto simp: frame_pairs_def p)
  have ok': "length g = 32" "valid_str u" "str_len u < 2 ^ 32" using Cons.prems(2) by (simp_all add: q pair_ok_def)
  have eq: "h @ u32_le (str_len t) @ utf8 t @ frame_pairs ps = g @ u32_le (str_len u) @ utf8 u @ frame_pairs qs'"
    using Cons.prems(3) by (simp add: frame_pairs_def p q)
  then have "h = g" and e1: "u32_le (str_len t) @ utf8 t @ frame_pairs ps = u32_le (str_len u) @ utf8 u @ frame_pairs qs'"
    using ok(1) ok'(1) by simp_all
  have "length (u32_le n) = 4" for n by (simp add: u32_le_def)
  then have "u32_le (str_len t) = u32_le (str_len u)" and e2: "utf8 t @ frame_pairs ps = utf8 u @ frame_pairs qs'"
    using e1 by (metis append_eq_append_conv)+
  then have "length (utf8 t) = length (utf8 u)" using u32_le_inj ok(3) ok'(3) by (simp add: length_utf8)
  then have "utf8 t = utf8 u" "frame_pairs ps = frame_pairs qs'" using e2 by simp_all
  then have "t = u" "ps = qs'" using ok(2) ok'(2) utf8_eq_iff Cons.IH Cons.prems(1,2) by (auto simp: q)
  then show ?case using \<open>h = g\<close> by (simp add: p q)
qed

text \<open>
  C27. The parity digest of a band.  It covers exactly the current pairs of the band that came
  from the mirrored corpus (no origin), in the one order that the other side uses too: the
  count is the number of these pairs and the digest is that of their sorted list.  Two stores
  that hold the same such pairs therefore have the same digest, whatever their histories; and
  two lists of pairs have the same hashed bytes only if they are the same list, so a difference
  cannot hide in the framing.
\<close>

theorem audit_digest_exact:
  assumes "store_ok s" "hex_ok C" "hash_from_str lo_hex = Inr lo" "hash_ok lo"
    and "\<forall>p\<in>set ps. pair_ok p" "\<forall>p\<in>set qs. pair_ok p"
  shows "audit_band_digest b3 C s lo_hex bits =
      (let pairs = {(h, t). bucket_key h bits = bucket_key lo bits \<and> map_option row_view (cur_row s h t) = Some (0, None)}
       in Inr (card pairs, b3 (frame_pairs (sorted_list_of_set pairs)))) \<and>
    (frame_pairs ps = frame_pairs qs \<longrightarrow> ps = qs)"
proof -
  let ?pairs = "{(h, t). bucket_key h bits = bucket_key lo bits \<and> map_option row_view (cur_row s h t) = Some (0, None)}"
  let ?lo = "lo_bound C (bucket_key lo bits)" and ?hi = "hi_bound C (bucket_upper lo bits)"
  let ?f = "filter (\<lambda>row. mr_status (snd (snd row)) = 0 \<and> mr_origin (snd (snd row)) = None \<and> in_range ?lo ?hi row) (joined s)"
  let ?rows = "map (\<lambda>(h, t, r). (h, t)) (sort_key fst ?f)"
  have clip: "bucket_key h (min bits 256) = bucket_key h bits" "bucket_upper h (min bits 256) = bucket_upper h bits" for h
    by (simp_all add: bucket_key_def masked_def bucket_upper_def Let_def)
  have lo: "hex_decode C (bucket_key lo bits) = Some ?lo"
    using assms(2,4) by (simp add: lo_bound_def bucket_key_def hex_ok_def hash_ok_def)
  have hi: "(if bucket_upper lo bits = lit ''g'' then Some (replicate 33 0xFF) else hex_decode C (bucket_upper lo bits)) = Some ?hi"
  proof (cases rule: bucket_upper_cases [OF assms(4), of bits])
    case 1
    then show ?thesis using assms(2) by (simp add: hi_bound_def hex_ok_def del: replicate.simps lit_Cons)
  next
    case (2 b)
    then have "bucket_upper lo bits \<noteq> lit ''g''" using to_hex_less_g [of b] by (metis less_irrefl)
    then show ?thesis using 2 assms(2) by (simp add: hi_bound_def hex_ok_def del: lit_Cons)
  qed
  have "row \<in> set ?f \<longleftrightarrow> row \<in> set (joined s) \<and> mr_status (snd (snd row)) = 0 \<and> mr_origin (snd (snd row)) = None \<and>
      bucket_key (fst row) bits = bucket_key lo bits" for row
    using bucket_range_iff [OF assms(2,4) row_hash_ok [OF assms(1)], of row bits] by (auto simp: in_range_def)
  then have "(h, t) \<in> set ?rows \<longleftrightarrow> (\<exists>r. (h, t, r) \<in> set (joined s) \<and> mr_status r = 0 \<and> mr_origin r = None \<and>
      bucket_key h bits = bucket_key lo bits)" for h t by (force simp: image_iff)
  then have "(h, t) \<in> set ?rows \<longleftrightarrow> (h, t) \<in> ?pairs" for h t
    unfolding joined_iff [OF assms(1)] by (auto simp: row_view_def)
  then have set: "set ?rows = ?pairs" by (intro set_eqI) (simp add: split_paired_all)
  have len: "\<forall>(h, t)\<in>set ?rows. length h = 32" using joined_hash_length [OF assms(1)] by force
  have "map fst ?rows = map fst (sort_key fst ?f)" by (simp add: case_prod_beta comp_def)
  then have sorted: "sorted (map fst ?rows)" by (simp only: sorted_sort_key)
  have fin: "finite ?pairs" unfolding set [symmetric] by (rule finite_set)
  have "audit_band_digest b3 C s lo_hex bits = and_then (audit_loop ?rows None [] pd_new) (\<lambda>d. Inr (pd_finalize b3 d))"
    unfolding audit_band_digest_def Let_def assms(3) sum.case clip lo hi option.case by (rule refl)
  also have "\<dots> = Inr (card ?pairs, b3 (frame_pairs (sorted_list_of_set ?pairs)))"
    unfolding audit_loop_all [OF sorted len] set by (simp add: feed_frame pd_finalize_def pd_new_def fin)
  finally have main: "audit_band_digest b3 C s lo_hex bits = Inr (card ?pairs, b3 (frame_pairs (sorted_list_of_set ?pairs)))" .
  show ?thesis unfolding Let_def by (rule conjI [OF main]) (rule impI, rule frame_pairs_inj [OF assms(5,6)])
qed

section \<open>Witnesses\<close>

definition toy_row :: joined_row where
  "toy_row = (replicate 32 1, lit ''a'', \<lparr>mr_status = 0, mr_seq = 1, mr_origin = None\<rparr>)"

lemma toy_joined: "joined toy_store = [toy_row]"
  by (simp add: joined_def toy_store_def join_row_def key_of_def toy_row_def List.map_filter_def)

lemma toy_row_cost: "row_cost toy_crypto toy_row \<le> 1000"
  by (simp add: row_cost_def toy_row_def approx_row_cost_def BUCKET_ROW_OVERHEAD_def toy_crypto_def str_len_to_hex origin_cost_def
      str_len_Cons utf8_width_ascii str_len_def [of "[]"] del: replicate.simps)

lemma toy_cost_le: "set rows \<subseteq> {toy_row} \<Longrightarrow> length rows \<le> 1 \<Longrightarrow>
    total_cost toy_crypto RESPONSE_ENVELOPE_OVERHEAD rows \<le> RESPONSE_ENVELOPE_OVERHEAD + 1000"
  using toy_row_cost by (cases rows) (auto simp: total_cost_def)

lemma toy_bucket_runs:
  "\<exists>out spent. bucket toy_crypto toy_store lo hi 100000 = Inr (out, spent)"
proof -
  have "total_cost toy_crypto RESPONSE_ENVELOPE_OVERHEAD (bucket_rows toy_crypto toy_store lo hi) \<le> RESPONSE_ENVELOPE_OVERHEAD + 1000"
    by (rule toy_cost_le) (auto simp: bucket_rows_def toy_joined)
  also have "\<dots> \<le> 100000" by (simp add: RESPONSE_ENVELOPE_OVERHEAD_def)
  finally show ?thesis unfolding bucket_drain by (simp add: drain_within)
qed

lemma toy_delta_runs:
  "\<exists>changes spent. bucket_delta toy_crypto toy_store lo hi since 100000 = Inr (changes, spent)"
proof -
  have "total_cost toy_crypto RESPONSE_ENVELOPE_OVERHEAD (delta_rows toy_crypto toy_store lo hi i) \<le> RESPONSE_ENVELOPE_OVERHEAD + 1000" for i
    by (rule toy_cost_le) (auto simp: delta_rows_def toy_joined)
  also have "RESPONSE_ENVELOPE_OVERHEAD + 1000 \<le> 100000" by (simp add: RESPONSE_ENVELOPE_OVERHEAD_def)
  finally show ?thesis unfolding delta_drain by (simp add: drain_within)
qed

lemma toy_hash: "hash_ok (replicate 32 1)"
  by (simp add: hash_ok_def)

theorem buckets_partition_snapshot_witness:
  "\<exists>out spent. bucket toy_crypto toy_store (bucket_key (replicate 32 1) 4) (bucket_upper (replicate 32 1) 4) 100000 = Inr (out, spent) \<and>
     get_vec out (to_hex (replicate 32 1)) = get_vec (snapshot toy_crypto toy_store) (to_hex (replicate 32 1)) \<and>
     \<lparr>ot_tag = lit ''a'', ot_origin = None\<rparr> \<in> set (get_vec out (to_hex (replicate 32 1)))"
proof -
  obtain out spent where run: "bucket toy_crypto toy_store (bucket_key (replicate 32 1) 4) (bucket_upper (replicate 32 1) 4) 100000 = Inr (out, spent)"
    using toy_bucket_runs by blast
  show ?thesis
    using buckets_partition_snapshot [OF toy_store_ok toy_hex_ok toy_hash toy_hash run] run
    by (intro exI [of _ out] exI [of _ spent]) (simp add: toy_store_cur row_view_def del: replicate.simps lit_Cons)
qed

theorem bucket_delta_exact_witness:
  "\<exists>changes spent. bucket_delta toy_crypto toy_store (bucket_key (replicate 32 1) 4) (bucket_upper (replicate 32 1) 4) 0 100000 =
       Inr (changes, spent) \<and>
     \<lparr>dm_hash = to_hex (replicate 32 1), dm_tag = lit ''a'', dm_status = Current, dm_seq = 1, dm_origin = None\<rparr> \<in> set changes"
proof -
  obtain changes spent where run: "bucket_delta toy_crypto toy_store (bucket_key (replicate 32 1) 4) (bucket_upper (replicate 32 1) 4) 0 100000 =
       Inr (changes, spent)"
    using toy_delta_runs by blast
  have "set changes = {\<lparr>dm_hash = to_hex h, dm_tag = t, dm_status = (if mr_status r = 1 then Deleted else Current),
      dm_seq = mr_seq r, dm_origin = mr_origin r\<rparr> | h t r.
      bucket_key h 4 = bucket_key (replicate 32 1) 4 \<and> cur_row toy_store h t = Some r \<and> int 0 < mr_seq r}"
    using bucket_delta_exact [OF toy_store_ok toy_hex_ok toy_hash _ run] by simp
  then have "\<lparr>dm_hash = to_hex (replicate 32 1), dm_tag = lit ''a'', dm_status = Current, dm_seq = 1, dm_origin = None\<rparr> \<in> set changes"
    using toy_store_cur
    by (simp only:) (intro CollectI exI [of _ "replicate 32 1"] exI [of _ "lit ''a''"]
        exI [of _ "\<lparr>mr_status = 0, mr_seq = 1, mr_origin = None\<rparr>"], simp del: replicate.simps lit_Cons)
  then show ?thesis using run by blast
qed

theorem delta_budget_witness:
  "\<exists>changes spent. bucket_delta toy_crypto toy_store (lit ''00'') (lit ''g'') 0 100000 = Inr (changes, spent) \<and> spent \<le> 100000"
proof -
  obtain changes spent where run: "bucket_delta toy_crypto toy_store (lit ''00'') (lit ''g'') 0 100000 = Inr (changes, spent)"
    using toy_delta_runs by blast
  have "spent \<le> 100000"
    using delta_budget [OF toy_store_ok toy_hex_ok, of 100000 0 "lit ''00''" "lit ''g''"] unfolding run by (simp add: RESPONSE_ENVELOPE_OVERHEAD_def)
  with run show ?thesis by blast
qed

theorem persisted_count_exact_witness:
  "read_distinct_hash_count (fst (apply_submission to_ascii_lowercase toy_crypto (write_distinct_hash_count toy_store 1) toy_sub 5)) =
     Some (distinct_hash_count (fst (apply_submission to_ascii_lowercase toy_crypto (write_distinct_hash_count toy_store 1) toy_sub 5)))"
proof (rule persisted_count_exact)
  have tables: "repo_mappings (write_distinct_hash_count toy_store 1) = [((1, 1), \<lparr>mr_status = 0, mr_seq = 1, mr_origin = None\<rparr>)]"
    by (simp add: write_distinct_hash_count_def meta_put_def toy_store_def)
  show "store_ok (write_distinct_hash_count toy_store 1)"
    using same_mappings_adv [OF store_adv_refl [OF toy_store_ok]] by (intro store_adv_ok [of toy_store]) simp
  have dhc: "distinct_hash_count (write_distinct_hash_count toy_store 1) = 1"
    by (subst distinct_hash_count_def, subst tables, simp)
  show "read_distinct_hash_count (write_distinct_hash_count toy_store 1) =
      Some (distinct_hash_count (write_distinct_hash_count toy_store 1))"
    unfolding dhc by (rule read_written_count) simp
  show "distinct_hash_count (write_distinct_hash_count toy_store 1) < 2 ^ 64 - 1" by (subst dhc, simp)
qed

theorem audit_digest_exact_witness:
  "audit_band_digest (\<lambda>bytes. bytes) toy_crypto toy_store (to_hex (replicate 32 1)) 4 =
     Inr (1, frame_pairs [(replicate 32 1, lit ''a'')])"
proof -
  have d: "hash_from_str (to_hex (replicate 32 1)) = Inr (replicate 32 1)"
    by (rule hash_from_str_to_hex) (simp add: hash_ok_def)
  have "cur_row toy_store h t = (if h = replicate 32 1 \<and> t = lit ''a'' then Some \<lparr>mr_status = 0, mr_seq = 1, mr_origin = None\<rparr> else None)" for h t
    by (auto simp: cur_row_def toy_store_def)
  then have "{(h, t). bucket_key h 4 = bucket_key (replicate 32 1) 4 \<and> map_option row_view (cur_row toy_store h t) = Some (0, None)} =
      {(replicate 32 1, lit ''a'')}" by (auto simp: row_view_def)
  then show ?thesis
    using audit_digest_exact [OF toy_store_ok toy_hex_ok d toy_hash, of "[]" "[]" "\<lambda>bytes. bytes" 4] by simp
qed

end
