(* ===== verification/CoreQuery.thy ===== *)
theory CoreQuery
  imports CoreTag
begin

text \<open>
  \<open>crates/core/src/query.rs\<close>: the search query language.  The tokenizer with its quoted
  phrases, the wildcard pattern and \<open>system:\<close> sub-parsers, and the loop of \<open>parse_query\<close>
  with its or-groups and every error it reports.  The lemmas show that what parses is well
  formed (\<open>query_wf\<close>), that every well-formed query has a spelling that parses back to it,
  and what the numeric predicates compute.
\<close>

section \<open>Wildcard patterns\<close>

datatype tag_pattern =
    NamespaceAny ustring
  | NamespaceGlob ustring ustring
  | AnyNamespaceGlob ustring

fun pattern_display :: "tag_pattern \<Rightarrow> ustring" where
  "pattern_display (NamespaceAny ns) = ns @ lit '':*''"
| "pattern_display (NamespaceGlob ns gl) = ns @ lit '':'' @ gl"
| "pattern_display (AnyNamespaceGlob gl) = gl"

definition pattern_parse :: "(ustring \<Rightarrow> ustring) \<Rightarrow> ustring \<Rightarrow> core_error + tag_pattern" where
  "pattern_parse lc s =
     (let (ns_part, sub_part, namespaced) =
            (case split_once 58 s of
               Some (ns, sub) \<Rightarrow> (ns, sub, True)
             | None \<Rightarrow> ([], s, False));
          sub = trim sub_part
      in if 42 \<in> set ns_part \<or> 42 \<notin> set sub then Inl (BadPattern s)
         else
           (let ns = tag_normalize lc ns_part;
                gl = tag_normalize lc sub;
                only_stars = list_all (\<lambda>c. c = 42) gl
            in if namespaced then
                 (if ns = [] then Inl (BadPattern s)
                  else if only_stars then Inr (NamespaceAny ns)
                  else Inr (NamespaceGlob ns gl))
               else if only_stars then Inl (BadPattern s)
               else Inr (AnyNamespaceGlob gl)))"

section \<open>System predicates\<close>

datatype sys_field = Size | Width | Height | Duration

datatype cmp_op = Gt | Lt | Ge | Le | Eq

datatype sys_predicate =
    Compare sys_field cmp_op int
  | FileType ustring
  | Origin "ustring option"

definition i64_max :: int where
  "i64_max = 2 ^ 63 - 1"

definition checked_mul :: "int \<Rightarrow> int \<Rightarrow> int option" where
  "checked_mul a b = (if - (2 ^ 63) \<le> a * b \<and> a * b \<le> i64_max then Some (a * b) else None)"

text \<open>\<open>str::parse::<i64>\<close> on a nonempty run of ASCII digits: it fails on overflow only.\<close>

definition parse_i64_digits :: "ustring \<Rightarrow> int option" where
  "parse_i64_digits ds = (if digits_val ds \<le> i64_max then Some (digits_val ds) else None)"

fun unit_multiplier :: "sys_field \<Rightarrow> ustring \<Rightarrow> int option" where
  "unit_multiplier Size u =
     (if u = [] \<or> u = lit ''b'' then Some 1
      else if u = lit ''kb'' then Some 1024
      else if u = lit ''mb'' then Some (1024 * 1024)
      else if u = lit ''gb'' then Some (1024 * 1024 * 1024)
      else None)"
| "unit_multiplier Duration u =
     (if u = [] \<or> u = lit ''ms'' then Some 1
      else if u = lit ''s'' then Some 1000
      else if u = lit ''m'' then Some 60000
      else if u = lit ''h'' then Some 3600000
      else None)"
| "unit_multiplier Width u = (if u = [] then Some 1 else None)"
| "unit_multiplier Height u = (if u = [] then Some 1 else None)"

definition strip_field :: "ustring \<Rightarrow> (sys_field \<times> ustring) option" where
  "strip_field body =
     (case strip_prefix (lit ''size'') body of Some r \<Rightarrow> Some (Size, r) | None \<Rightarrow>
      (case strip_prefix (lit ''width'') body of Some r \<Rightarrow> Some (Width, r) | None \<Rightarrow>
       (case strip_prefix (lit ''height'') body of Some r \<Rightarrow> Some (Height, r) | None \<Rightarrow>
        (case strip_prefix (lit ''duration'') body of Some r \<Rightarrow> Some (Duration, r) | None \<Rightarrow>
         None))))"

definition strip_op :: "ustring \<Rightarrow> (cmp_op \<times> ustring) option" where
  "strip_op rest =
     (case strip_prefix (lit ''>='') rest of Some r \<Rightarrow> Some (Ge, r) | None \<Rightarrow>
      (case strip_prefix (lit ''<='') rest of Some r \<Rightarrow> Some (Le, r) | None \<Rightarrow>
       (case strip_prefix (lit ''>'') rest of Some r \<Rightarrow> Some (Gt, r) | None \<Rightarrow>
        (case strip_prefix (lit ''<'') rest of Some r \<Rightarrow> Some (Lt, r) | None \<Rightarrow>
         (case strip_prefix (lit ''='') rest of Some r \<Rightarrow> Some (Eq, r) | None \<Rightarrow>
          None)))))"

text \<open>The numeric branch of \<open>SystemPredicate::parse\<close>; \<open>None\<close> is \<open>Err(bad())\<close>.\<close>

definition parse_compare :: "ustring \<Rightarrow> sys_predicate option" where
  "parse_compare body =
     (case strip_field body of
        None \<Rightarrow> None
      | Some (field, rest) \<Rightarrow>
          (case strip_op rest of
             None \<Rightarrow> None
           | Some (op, rest) \<Rightarrow>
               (let digits = takeWhile is_ascii_digit rest;
                    unit = dropWhile is_ascii_digit rest
                in if digits = [] then None
                   else
                     (case parse_i64_digits digits of
                        None \<Rightarrow> None
                      | Some magnitude \<Rightarrow>
                          (case unit_multiplier field unit of
                             None \<Rightarrow> None
                           | Some multiplier \<Rightarrow>
                               map_option (Compare field op) (checked_mul magnitude multiplier))))))"

definition system_parse :: "(ustring \<Rightarrow> ustring) \<Rightarrow> ustring \<Rightarrow> core_error + sys_predicate" where
  "system_parse lc original =
     (let body = lc (trim original)
      in case strip_prefix (lit ''type='') body of
           Some rest \<Rightarrow>
             (let mime = trim rest
              in if mime = [] then Inl (BadSystem original) else Inr (FileType mime))
         | None \<Rightarrow>
             (case strip_prefix (lit ''origin'') body of
                Some rest \<Rightarrow>
                  (case strip_prefix (lit ''='') rest of
                     None \<Rightarrow> Inl (BadSystem original)
                   | Some rest \<Rightarrow>
                       (let value = trim rest
                        in if value = [] then Inl (BadSystem original)
                           else Inr (Origin (if value = lit ''manual'' then None else Some value))))
              | None \<Rightarrow> ok_or (BadSystem original) (parse_compare body)))"

section \<open>Queries\<close>

datatype match_mode = Expanded | Exact

datatype predicate =
    TagP tag match_mode
  | NotP tag match_mode
  | OrP "(tag \<times> match_mode) list"
  | WildP tag_pattern match_mode
  | NotWildP tag_pattern match_mode
  | SystemP sys_predicate
  | NotSystemP sys_predicate

definition strip_system_prefix :: "ustring \<Rightarrow> ustring option" where
  "strip_system_prefix tok =
     (case split_at_byte 7 tok of
        None \<Rightarrow> None
      | Some (head, rest) \<Rightarrow> if eq_ignore_ascii_case head (lit ''system:'') then Some rest else None)"

definition strip_exact :: "ustring \<Rightarrow> ustring \<times> match_mode" where
  "strip_exact tok =
     (case strip_prefix (lit ''='') tok of Some rest \<Rightarrow> (rest, Exact) | None \<Rightarrow> (tok, Expanded))"

fun tokenize_loop :: "ustring \<Rightarrow> bool \<Rightarrow> ustring \<Rightarrow> ustring list" where
  "tokenize_loop cur in_quote [] = (if cur = [] then [] else [cur])"
| "tokenize_loop cur in_quote (ch # s) =
     (if ch = 34 then tokenize_loop cur (\<not> in_quote) s
      else if is_ws ch \<and> \<not> in_quote then
        (if cur \<noteq> [] then cur # tokenize_loop [] in_quote s else tokenize_loop cur in_quote s)
      else tokenize_loop (cur @ [ch]) in_quote s)"

definition tokenize :: "ustring \<Rightarrow> ustring list" where
  "tokenize s = tokenize_loop [] False s"

definition is_or :: "ustring \<Rightarrow> bool" where
  "is_or t = eq_ignore_ascii_case t (lit ''or'')"

definition is_wild :: "ustring \<Rightarrow> bool" where
  "is_wild t \<longleftrightarrow> 42 \<in> set t"

definition next_is_or :: "ustring list \<Rightarrow> bool" where
  "next_is_or rest = (case rest of [] \<Rightarrow> False | t # _ \<Rightarrow> is_or t)"

definition msg_empty :: ustring where "msg_empty = lit ''no search predicates''"
definition msg_or :: ustring where "msg_or = lit ''dangling 'or' in query''"
definition msg_minus :: ustring where
  "msg_minus = 39 # lit ''-' must lead a term; '=-tag' is not valid''"
definition msg_sys_or :: ustring where
  "msg_sys_or = lit ''system predicates cannot appear in an 'or' group''"
definition msg_sys_exact :: ustring where
  "msg_sys_exact = lit ''system predicates cannot be marked exact''"
definition msg_wild_or :: ustring where
  "msg_wild_or = lit ''wildcards cannot appear in an 'or' group''"

text \<open>The arm for a term with a leading \<open>-\<close>; \<open>rest\<close> are the tokens after it.\<close>

definition parse_negated ::
  "(ustring \<Rightarrow> ustring) \<Rightarrow> ustring \<Rightarrow> ustring list \<Rightarrow> core_error + predicate" where
  "parse_negated lc term rest =
     (if next_is_or rest then Inl (BadQuery msg_or)
      else
        (let (body, mode) = strip_exact term
         in case strip_system_prefix body of
              Some sys \<Rightarrow>
                (if mode = Exact then Inl (BadQuery msg_sys_exact)
                 else and_then (system_parse lc sys) (\<lambda>p. Inr (NotSystemP p)))
            | None \<Rightarrow>
                (if is_wild body
                 then and_then (pattern_parse lc body) (\<lambda>p. Inr (NotWildP p mode))
                 else and_then (tag_parse lc body) (\<lambda>t. Inr (NotP t mode)))))"

text \<open>
  The inner loop over \<open>or\<close> and the term after it; it returns the group and the tokens left.
\<close>

fun or_group ::
  "(ustring \<Rightarrow> ustring) \<Rightarrow> (tag \<times> match_mode) list \<Rightarrow> ustring list \<Rightarrow>
     core_error + (tag \<times> match_mode) list \<times> ustring list" where
  "or_group lc grp [] = Inr (grp, [])"
| "or_group lc grp [o1] = (if is_or o1 then Inl (BadQuery msg_or) else Inr (grp, [o1]))"
| "or_group lc grp (o1 # nxt # rest) =
     (if \<not> is_or o1 then Inr (grp, o1 # nxt # rest)
      else if is_or nxt \<or> strip_prefix (lit ''-'') nxt \<noteq> None then Inl (BadQuery msg_or)
      else
        (let (nbody, nmode) = strip_exact nxt
         in if strip_prefix (lit ''-'') nbody \<noteq> None then Inl (BadQuery msg_minus)
            else if strip_system_prefix nbody \<noteq> None then Inl (BadQuery msg_sys_or)
            else if is_wild nbody then Inl (BadQuery msg_wild_or)
            else
              (case tag_parse lc nbody of
                 Inl e \<Rightarrow> Inl e
               | Inr t \<Rightarrow> or_group lc (grp @ [(t, nmode)]) rest)))"

text \<open>One pass of the outer loop: the predicate it pushes and the tokens left.\<close>

definition parse_term ::
  "(ustring \<Rightarrow> ustring) \<Rightarrow> ustring \<Rightarrow> ustring list \<Rightarrow> core_error + predicate \<times> ustring list" where
  "parse_term lc tok rest =
     (if is_or tok then Inl (BadQuery msg_or)
      else
        (case strip_prefix (lit ''-'') tok of
           Some body \<Rightarrow> and_then (parse_negated lc body rest) (\<lambda>p. Inr (p, rest))
         | None \<Rightarrow>
             (let (body, mode) = strip_exact tok
              in if strip_prefix (lit ''-'') body \<noteq> None then Inl (BadQuery msg_minus)
                 else
                   (case strip_system_prefix body of
                      Some sys \<Rightarrow>
                        (if next_is_or rest then Inl (BadQuery msg_sys_or)
                         else if mode = Exact then Inl (BadQuery msg_sys_exact)
                         else and_then (system_parse lc sys) (\<lambda>p. Inr (SystemP p, rest)))
                    | None \<Rightarrow>
                        (if is_wild body then
                           (if next_is_or rest then Inl (BadQuery msg_wild_or)
                            else and_then (pattern_parse lc body) (\<lambda>p. Inr (WildP p mode, rest)))
                         else
                           and_then (tag_parse lc body) (\<lambda>t.
                           and_then (or_group lc [(t, mode)] rest) (\<lambda>(grp, rest').
                             Inr (case grp of [(t, m)] \<Rightarrow> TagP t m | _ \<Rightarrow> OrP grp, rest'))))))))"

lemma or_group_length: "or_group lc grp toks = Inr (grp', rest) \<Longrightarrow> length rest \<le> length toks"
  by (induction lc grp toks rule: or_group.induct)
    (auto simp: Let_def le_SucI split: if_splits sum.splits prod.splits)

lemma parse_term_length: "parse_term lc tok rest = Inr (p, rest') \<Longrightarrow> length rest' \<le> length rest"
  by (auto simp: parse_term_def Let_def and_then_Inr_iff
      split: if_splits option.splits prod.splits dest!: or_group_length)

function parse_loop ::
  "(ustring \<Rightarrow> ustring) \<Rightarrow> predicate list \<Rightarrow> ustring list \<Rightarrow> core_error + predicate list" where
  "parse_loop lc preds [] = Inr preds"
| "parse_loop lc preds (tok # rest) =
     (case parse_term lc tok rest of
        Inl e \<Rightarrow> Inl e
      | Inr (p, rest') \<Rightarrow> parse_loop lc (preds @ [p]) rest')"
  by pat_completeness auto
termination
  by (relation "measure (\<lambda>(_, _, toks). length toks)") (auto dest: parse_term_length)

definition parse_query :: "(ustring \<Rightarrow> ustring) \<Rightarrow> ustring list \<Rightarrow> core_error + predicate list" where
  "parse_query lc tokens =
     (if tokens = [] then Inl (BadQuery msg_empty) else parse_loop lc [] tokens)"

section \<open>The tokenizer\<close>

definition quoted :: "ustring \<Rightarrow> ustring" where
  "quoted t = 34 # t @ [34]"

lemma not_ws_quote [simp]: "\<not> is_ws 34"
  by (simp add: is_ws_def)

lemma tokenize_in_quote:
  "34 \<notin> set t \<Longrightarrow> tokenize_loop cur True (t @ s) = tokenize_loop (cur @ t) True s"
  by (induction t arbitrary: cur) auto

lemma tokenize_bare:
  "34 \<notin> set t \<Longrightarrow> \<forall>c\<in>set t. \<not> is_ws c \<Longrightarrow> tokenize_loop cur False (t @ s) = tokenize_loop (cur @ t) False s"
  by (induction t arbitrary: cur) auto

lemma tokenize_quoted:
  "34 \<notin> set t \<Longrightarrow> tokenize_loop cur False (quoted t @ s) = tokenize_loop (cur @ t) False s"
  by (simp add: quoted_def tokenize_in_quote)

lemma tokenize_no_quotes: "34 \<notin> set s \<Longrightarrow> tokenize_loop cur False s = split_ws_acc cur s"
  by (induction s arbitrary: cur) auto

lemma tokenize_loop_nonempty: "t \<in> set (tokenize_loop cur q s) \<Longrightarrow> t \<noteq> [] \<and> 34 \<notin> set t \<or> 34 \<in> set cur"
  by (induction cur q s rule: tokenize_loop.induct) (auto split: if_splits)

text \<open>A token spelled so that the tokenizer returns it: quoted when it contains white space.\<close>

definition spell_token :: "ustring \<Rightarrow> ustring" where
  "spell_token t = (if \<exists>c\<in>set t. is_ws c then quoted t else t)"

lemma tokenize_spell:
  assumes "34 \<notin> set t"
  shows "tokenize_loop cur False (spell_token t @ s) = tokenize_loop (cur @ t) False s"
  using assms by (simp add: spell_token_def tokenize_quoted tokenize_bare)

lemma tokenize_join_spell:
  "\<forall>t\<in>set ts. t \<noteq> [] \<and> 34 \<notin> set t \<Longrightarrow> tokenize_loop [] False (join_sp (map spell_token ts)) = ts"
proof (induction ts rule: join_sp.induct)
  case (2 w)
  then show ?case using tokenize_spell [of w "[]" "[]"] by simp
next
  case (3 w v ws)
  then have "tokenize_loop [] False (join_sp (map spell_token (w # v # ws)))
    = tokenize_loop w False (32 # join_sp (map spell_token (v # ws)))"
    by (simp add: tokenize_spell)
  then show ?case using 3 by simp
qed simp

section \<open>Patterns\<close>

definition has_literal :: "ustring \<Rightarrow> bool" where
  "has_literal gl \<longleftrightarrow> 42 \<in> set gl \<and> (\<exists>c\<in>set gl. c \<noteq> 42)"

fun pattern_wf :: "(ustring \<Rightarrow> ustring) \<Rightarrow> tag_pattern \<Rightarrow> bool" where
  "pattern_wf lc (NamespaceAny ns) \<longleftrightarrow> normal lc ns \<and> ns \<noteq> [] \<and> 58 \<notin> set ns \<and> 42 \<notin> set ns"
| "pattern_wf lc (NamespaceGlob ns gl) \<longleftrightarrow> normal lc ns \<and> ns \<noteq> [] \<and> 58 \<notin> set ns \<and> 42 \<notin> set ns \<and>
     normal lc gl \<and> has_literal gl"
| "pattern_wf lc (AnyNamespaceGlob gl) \<longleftrightarrow> normal lc gl \<and> has_literal gl \<and> 58 \<notin> set gl"

lemma star_char [simp]: "caseless 42" "\<not> is_ws 42"
  by (simp_all add: caseless_def is_ws_def)

lemma normalize_star [simp]: "lower_like lc \<Longrightarrow> 42 \<in> set (tag_normalize lc s) \<longleftrightarrow> 42 \<in> set s"
  by (rule normalize_mem) simp_all

lemma set_trim: "c \<in> set (trim s) \<Longrightarrow> c \<in> set s"
  unfolding trim_def trim_end_def trim_start_def by (auto dest!: set_dropWhileD)

lemma pattern_parse_wf:
  assumes lc: "lower_like lc" and "pattern_parse lc s = Inr p"
  shows "pattern_wf lc p"
  using assms
  by (auto simp: pattern_parse_def Let_def has_literal_def list_all_iff
      split: option.splits if_splits prod.splits dest: split_once_SomeD dest: set_trim
      simp: split_once_None_iff)

lemma normalize_one_star: "lower_like lc \<Longrightarrow> tag_normalize lc [42] = [42]"
  by (simp add: tag_normalize_def split_whitespace_def lower_ascii to_ascii_lowercase_def ascii_lower_def)

lemma pattern_parse_display:
  assumes lc: "lower_like lc" and wf: "pattern_wf lc p"
  shows "pattern_parse lc (pattern_display p) = Inr p"
proof (cases p)
  case (NamespaceAny ns)
  have "edge_ok [42]" by (simp add: edge_ok_def)
  then show ?thesis using NamespaceAny wf
    by (simp add: pattern_parse_def split_once_join normalize_one_star [OF lc] normal_def)
next
  case (NamespaceGlob ns gl)
  then have "gl \<noteq> []" using wf by (auto simp: has_literal_def)
  then have "edge_ok gl" using wf NamespaceGlob normal_edge [OF lc] by simp
  then show ?thesis using NamespaceGlob wf
    by (auto simp add: pattern_parse_def split_once_join normal_def has_literal_def list_all_iff)
next
  case (AnyNamespaceGlob gl)
  then have "gl \<noteq> []" using wf by (auto simp: has_literal_def)
  then have "edge_ok gl" using wf AnyNamespaceGlob normal_edge [OF lc] by simp
  moreover have "split_once 58 gl = None" using wf AnyNamespaceGlob by (simp add: split_once_None_iff)
  ultimately show ?thesis using AnyNamespaceGlob wf
    by (auto simp add: pattern_parse_def normal_def has_literal_def list_all_iff)
qed

section \<open>System predicates\<close>

fun field_kw :: "sys_field \<Rightarrow> ustring" where
  "field_kw Size = lit ''size''"
| "field_kw Width = lit ''width''"
| "field_kw Height = lit ''height''"
| "field_kw Duration = lit ''duration''"

fun op_kw :: "cmp_op \<Rightarrow> ustring" where
  "op_kw Gt = lit ''>''"
| "op_kw Lt = lit ''<''"
| "op_kw Ge = lit ''>=''"
| "op_kw Le = lit ''<=''"
| "op_kw Eq = lit ''=''"

lemma strip_field_kw [simp]: "strip_field (field_kw f @ r) = Some (f, r)"
  by (cases f) (simp_all add: strip_field_def strip_prefix_def)

lemma strip_op_kw [simp]: "r = [] \<or> hd r \<noteq> 61 \<Longrightarrow> strip_op (op_kw op @ r) = Some (op, r)"
  by (cases op; cases r) (simp_all add: strip_op_def strip_prefix_def)

text \<open>What a comparison with \<open>n\<close> units of \<open>u\<close> means: the value in base units, or an error.\<close>

definition compare_value :: "sys_field \<Rightarrow> nat \<Rightarrow> ustring \<Rightarrow> int option" where
  "compare_value f n u =
     (case unit_multiplier f u of
        None \<Rightarrow> None
      | Some k \<Rightarrow> if int n * k \<le> i64_max then Some (int n * k) else None)"

lemma unit_multiplier_pos: "unit_multiplier f u = Some k \<Longrightarrow> 1 \<le> k"
  by (cases f) (auto split: if_splits)

lemma unit_no_digit: "unit_multiplier f u = Some k \<Longrightarrow> u = [] \<or> \<not> is_ascii_digit (hd u)"
  by (cases f) (auto split: if_splits simp: is_ascii_digit_def)

lemma parse_compare_kw:
  assumes "u = [] \<or> \<not> is_ascii_digit (hd u)"
  shows "parse_compare (field_kw f @ op_kw op @ dec n @ u) = map_option (Compare f op) (compare_value f n u)"
proof -
  have hd: "is_ascii_digit (hd (dec n @ u))" using dec_digits [of "hd (dec n)" n] by simp
  then have "hd (dec n @ u) \<noteq> 61" by (auto simp: is_ascii_digit_def)
  then have op: "strip_op (op_kw op @ dec n @ u) = Some (op, dec n @ u)" by simp
  have tw: "takeWhile is_ascii_digit (dec n @ u) = dec n" "dropWhile is_ascii_digit (dec n @ u) = u"
    using assms dec_digits by (cases u; auto simp: takeWhile_append dropWhile_append takeWhile_all)+
  show ?thesis
  proof (cases "unit_multiplier f u")
    case None
    then show ?thesis by (simp add: parse_compare_def Let_def op tw compare_value_def parse_i64_digits_def)
  next
    case (Some k)
    note k = unit_multiplier_pos [OF Some]
    then have "int n \<le> int n * k" by (simp add: mult_le_cancel_left1)
    moreover have "0 \<le> int n * k" using k by simp
    ultimately show ?thesis using Some
      by (auto simp add: parse_compare_def Let_def op tw compare_value_def parse_i64_digits_def checked_mul_def)
  qed
qed


text \<open>The system predicates the parser can produce, and the canonical spelling of each.\<close>

fun sys_wf :: "sys_predicate \<Rightarrow> bool" where
  "sys_wf (Compare f op v) \<longleftrightarrow> 0 \<le> v \<and> v \<le> i64_max"
| "sys_wf (FileType m) \<longleftrightarrow> edge_ok m"
| "sys_wf (Origin None) \<longleftrightarrow> True"
| "sys_wf (Origin (Some v)) \<longleftrightarrow> edge_ok v \<and> v \<noteq> lit ''manual''"

fun sys_display :: "sys_predicate \<Rightarrow> ustring" where
  "sys_display (Compare f op v) = field_kw f @ op_kw op @ dec (nat v)"
| "sys_display (FileType m) = lit ''type='' @ m"
| "sys_display (Origin None) = lit ''origin=manual''"
| "sys_display (Origin (Some v)) = lit ''origin='' @ v"

definition ascii_lowered :: "ustring \<Rightarrow> bool" where
  "ascii_lowered s \<longleftrightarrow> (\<forall>c\<in>set s. c < 128 \<and> \<not> (65 \<le> c \<and> c \<le> 90))"

lemma lower_ascii_lowered: "lower_like lc \<Longrightarrow> ascii_lowered s \<Longrightarrow> lc s = s"
  by (subst lower_ascii)
    (auto simp: ascii_lowered_def to_ascii_lowercase_def ascii_lower_def intro: map_idI)

lemma trim_nonempty: "trim s \<noteq> [] \<Longrightarrow> edge_ok (trim s)"
  using trim_empty_or_edge by blast

lemma compare_bound:
  assumes "parse_i64_digits ds = Some m" "\<forall>c\<in>set ds. is_ascii_digit c"
    "unit_multiplier f u = Some k" "checked_mul m k = Some v"
  shows "0 \<le> v \<and> v \<le> i64_max"
proof -
  have "0 \<le> m" using assms(1) digits_val_nonneg [OF assms(2)]
    by (auto simp: parse_i64_digits_def split: if_splits)
  then have "0 \<le> m * k" using unit_multiplier_pos [OF assms(3)] by simp
  moreover have "v = m * k" "m * k \<le> i64_max"
    using assms(4) by (auto simp: checked_mul_def split: if_splits)
  ultimately show ?thesis by simp
qed

lemma takeWhile_digits: "\<forall>c\<in>set (takeWhile P s). P c"
  by (auto dest: set_takeWhileD)

lemma parse_compare_wf:
  assumes p: "parse_compare body = Some p"
  shows "sys_wf p"
proof -
  from p obtain f r where r: "strip_field body = Some (f, r)"
    by (cases "strip_field body") (auto simp: parse_compare_def)
  with p obtain op t where t: "strip_op r = Some (op, t)"
    by (cases "strip_op r") (auto simp: parse_compare_def)
  let ?ds = "takeWhile is_ascii_digit t" and ?u = "dropWhile is_ascii_digit t"
  from p r t obtain m where m: "parse_i64_digits ?ds = Some m"
    by (cases "parse_i64_digits ?ds") (auto simp: parse_compare_def Let_def split: if_splits)
  with p r t obtain k where k: "unit_multiplier f ?u = Some k"
    by (cases "unit_multiplier f ?u") (auto simp: parse_compare_def Let_def split: if_splits)
  with p r t m obtain v where v: "checked_mul m k = Some v" "p = Compare f op v"
    by (cases "checked_mul m k") (auto simp: parse_compare_def Let_def split: if_splits)
  show ?thesis using compare_bound [OF m takeWhile_digits k v(1)] v(2) by simp
qed

lemma system_parse_wf: "system_parse lc s = Inr p \<Longrightarrow> sys_wf p"
  by (auto simp: system_parse_def Let_def trim_nonempty parse_compare_wf
      split: option.splits if_splits)

lemma field_not_type: "strip_prefix (lit ''type='') (field_kw f @ r) = None"
    "strip_prefix (lit ''origin'') (field_kw f @ r) = None"
  by (cases f; simp add: strip_prefix_def)+

lemma field_kw_lowered: "ascii_lowered (field_kw f)" "ascii_lowered (op_kw op)" "ascii_lowered (dec n)"
    apply (cases f; simp add: ascii_lowered_def)
   apply (cases op; simp add: ascii_lowered_def)
  by (auto simp: ascii_lowered_def is_ascii_digit_def dest!: dec_digits)

lemma ascii_lowered_append [simp]: "ascii_lowered (s @ t) \<longleftrightarrow> ascii_lowered s \<and> ascii_lowered t"
  by (auto simp: ascii_lowered_def)

lemma not_ws_lowered_unit: "unit_multiplier f u = Some k \<Longrightarrow> ascii_lowered u \<and> (\<forall>c\<in>set u. \<not> is_ws c)"
  by (cases f) (auto split: if_splits simp: ascii_lowered_def is_ws_def)

lemma edge_kw:
  "\<forall>c\<in>set u. \<not> is_ws c \<Longrightarrow> edge_ok (field_kw f @ op_kw op @ dec n @ u)"
proof -
  assume u: "\<forall>c\<in>set u. \<not> is_ws c"
  have "is_ws c \<Longrightarrow> c \<notin> set (dec n)" for c
    using dec_digits [of c n] by (auto simp: is_ascii_digit_def is_ws_def)
  with u have "\<not> is_ws (last (dec n @ u))" by (metis Un_iff dec_not_Nil last_in_set set_append append_is_Nil_conv)
  moreover have "field_kw f \<noteq> []" "\<not> is_ws (hd (field_kw f))" by (cases f; simp add: is_ws_def)+
  ultimately show ?thesis by (simp add: edge_ok_def)
qed

lemma system_parse_compare:
  assumes lc: "lower_like lc" and u: "ascii_lowered u" "\<forall>c\<in>set u. \<not> is_ws c" "u = [] \<or> \<not> is_ascii_digit (hd u)"
  shows "system_parse lc (field_kw f @ op_kw op @ dec n @ u) =
    ok_or (BadSystem (field_kw f @ op_kw op @ dec n @ u)) (map_option (Compare f op) (compare_value f n u))"
proof -
  define b where "b = field_kw f @ op_kw op @ dec n @ u"
  have "lc (trim b) = b"
    using u edge_kw [OF u(2), of f op n] by (simp add: b_def lower_ascii_lowered [OF lc] field_kw_lowered)
  moreover have "strip_prefix (lit ''type='') b = None" "strip_prefix (lit ''origin'') b = None"
    unfolding b_def by (rule field_not_type)+
  moreover have "parse_compare b = map_option (Compare f op) (compare_value f n u)"
    unfolding b_def by (rule parse_compare_kw [OF u(3)])
  ultimately show ?thesis unfolding b_def [symmetric] system_parse_def Let_def by simp
qed

lemma system_parse_display:
  assumes lc: "lower_like lc" and wf: "sys_wf p" "ascii_lowered (sys_display p)"
  shows "system_parse lc (sys_display p) = Inr p"
proof (cases p)
  case (Compare f op v)
  then have "compare_value f (nat v) [] = Some v" using wf by (cases f) (simp_all add: compare_value_def)
  then show ?thesis
    using system_parse_compare [OF lc, of "[]" f op "nat v"] Compare by (simp add: ascii_lowered_def)
next
  case (FileType m)
  then have "edge_ok (lit ''type='' @ m)" "edge_ok m" using wf by (auto simp: edge_ok_def is_ws_def)
  then show ?thesis
    using FileType lower_ascii_lowered [OF lc wf(2)]
    by (auto simp: system_parse_def strip_prefix_def edge_ok_def)
next
  case (Origin nm)
  show ?thesis
  proof (cases nm)
    case None
    have "edge_ok (lit ''origin=manual'')" "edge_ok (lit ''manual'')" by (auto simp: edge_ok_def is_ws_def)
    then show ?thesis using Origin None lower_ascii_lowered [OF lc wf(2)]
      by (simp add: system_parse_def strip_prefix_def)
  next
    case (Some v)
    then have "edge_ok (lit ''origin='' @ v)" "edge_ok v" "v \<noteq> lit ''manual''"
      using wf Origin by (auto simp: edge_ok_def is_ws_def)
    then show ?thesis using Origin Some lower_ascii_lowered [OF lc wf(2)]
      by (auto simp: system_parse_def strip_prefix_def edge_ok_def)
  qed
qed

section \<open>Whole queries\<close>

fun predicate_wf :: "(ustring \<Rightarrow> ustring) \<Rightarrow> predicate \<Rightarrow> bool" where
  "predicate_wf lc (TagP t m) \<longleftrightarrow> tag_wf lc t"
| "predicate_wf lc (NotP t m) \<longleftrightarrow> tag_wf lc t"
| "predicate_wf lc (OrP grp) \<longleftrightarrow> 2 \<le> length grp \<and> (\<forall>(t, m)\<in>set grp. tag_wf lc t)"
| "predicate_wf lc (WildP p m) \<longleftrightarrow> pattern_wf lc p"
| "predicate_wf lc (NotWildP p m) \<longleftrightarrow> pattern_wf lc p"
| "predicate_wf lc (SystemP p) \<longleftrightarrow> sys_wf p"
| "predicate_wf lc (NotSystemP p) \<longleftrightarrow> sys_wf p"

definition query_wf :: "(ustring \<Rightarrow> ustring) \<Rightarrow> predicate list \<Rightarrow> bool" where
  "query_wf lc q \<longleftrightarrow> q \<noteq> [] \<and> (\<forall>p\<in>set q. predicate_wf lc p)"

lemma or_group_wf:
  assumes "lower_like lc"
  shows "or_group lc grp toks = Inr (grp', rest) \<Longrightarrow> grp \<noteq> [] \<Longrightarrow> \<forall>(t, m)\<in>set grp. tag_wf lc t \<Longrightarrow>
    grp' \<noteq> [] \<and> (\<forall>(t, m)\<in>set grp'. tag_wf lc t)"
  using assms
proof (induction lc grp toks rule: or_group.induct)
  case (3 lc grp o1 nxt rest0)
  obtain nbody nmode where b: "strip_exact nxt = (nbody, nmode)" by fastforce
  show ?case
  proof (cases "is_or o1")
    case True
    then obtain t where t: "tag_parse lc nbody = Inr t" "or_group lc (grp @ [(t, nmode)]) rest0 = Inr (grp', rest)"
      and c: "\<not> (is_or nxt \<or> strip_prefix (lit ''-'') nxt \<noteq> None)" "strip_prefix (lit ''-'') nbody = None"
        "strip_system_prefix nbody = None" "\<not> is_wild nbody"
      using "3.prems"(1) b by (auto simp: Let_def split: if_splits sum.splits)
    have "tag_wf lc t" by (rule tag_parse_wf [OF "3.prems"(4) t(1)])
    then show ?thesis
      using "3.IH" [of _ nbody nmode t] True c b t "3.prems" by simp
  qed (use "3.prems" in simp)
qed (auto split: if_splits)

lemma parse_negated_wf:
  "lower_like lc \<Longrightarrow> parse_negated lc term rest = Inr p \<Longrightarrow> predicate_wf lc p"
  by (auto simp: parse_negated_def Let_def and_then_Inr_iff tag_parse_wf pattern_parse_wf
      split: if_splits option.splits prod.splits dest: system_parse_wf)

lemma parse_term_wf:
  assumes "lower_like lc" "parse_term lc tok rest = Inr (p, rest')"
  shows "predicate_wf lc p"
proof -
  have grp: "predicate_wf lc (case grp of [(t, m)] \<Rightarrow> TagP t m | _ \<Rightarrow> OrP grp)"
    if "or_group lc [(t, m)] rest = Inr (grp, r)" "tag_parse lc b = Inr t" for grp t m r b
    using or_group_wf [OF assms(1) that(1)] tag_parse_wf [OF assms(1) that(2)]
    by (auto split: list.splits prod.splits)
  show ?thesis
    using assms(2) parse_negated_wf [OF assms(1)]
    by (auto simp: parse_term_def Let_def and_then_Inr_iff assms(1) pattern_parse_wf
        split: if_split_asm option.split_asm prod.split_asm dest: system_parse_wf intro: grp)
qed

lemma parse_loop_wf:
  assumes "lower_like lc"
  shows "parse_loop lc preds toks = Inr q \<Longrightarrow> \<forall>p\<in>set preds. predicate_wf lc p \<Longrightarrow>
    (\<forall>p\<in>set q. predicate_wf lc p) \<and> length preds + (if toks = [] then 0 else 1) \<le> length q"
  using assms
proof (induction lc preds toks rule: parse_loop.induct)
  case (2 lc preds tok rest)
  then obtain p rest' where t: "parse_term lc tok rest = Inr (p, rest')"
      "parse_loop lc (preds @ [p]) rest' = Inr q"
    by (auto split: sum.splits)
  have "predicate_wf lc p" by (rule parse_term_wf [OF "2.prems"(3) t(1)])
  with "2.IH" [OF t(1) refl t(2)] "2.prems" show ?case by (auto split: if_splits)
qed simp

text \<open>Spelling a predicate.\<close>

fun mark :: "match_mode \<Rightarrow> ustring \<Rightarrow> ustring" where
  "mark Exact s = lit ''='' @ s"
| "mark Expanded s = s"

fun or_tokens :: "(tag \<times> match_mode) list \<Rightarrow> ustring list" where
  "or_tokens [] = []"
| "or_tokens ((t, m) # grp) = lit ''or'' # mark m (tag_display t) # or_tokens grp"

fun spell_predicate :: "predicate \<Rightarrow> ustring list" where
  "spell_predicate (TagP t m) = [mark m (tag_display t)]"
| "spell_predicate (NotP t m) = [lit ''-'' @ mark m (tag_display t)]"
| "spell_predicate (OrP grp) = tl (or_tokens grp)"
| "spell_predicate (WildP p m) = [mark m (pattern_display p)]"
| "spell_predicate (NotWildP p m) = [lit ''-'' @ mark m (pattern_display p)]"
| "spell_predicate (SystemP p) = [lit ''system:'' @ sys_display p]"
| "spell_predicate (NotSystemP p) = [lit ''-system:'' @ sys_display p]"

text \<open>
  When the spelling is unambiguous: the text is not mistaken for an exact mark, a system
  predicate or (in a positive term) a negation or the bareword \<open>or\<close>.
\<close>

definition plain_neg :: "match_mode \<Rightarrow> ustring \<Rightarrow> bool" where
  "plain_neg m s \<longleftrightarrow> strip_system_prefix s = None \<and> (m = Expanded \<longrightarrow> strip_prefix (lit ''='') s = None)"

definition plain_pos :: "match_mode \<Rightarrow> ustring \<Rightarrow> bool" where
  "plain_pos m s \<longleftrightarrow> plain_neg m s \<and> strip_prefix (lit ''-'') s = None \<and> (m = Expanded \<longrightarrow> \<not> is_or s)"

fun spellable :: "predicate \<Rightarrow> bool" where
  "spellable (TagP t m) \<longleftrightarrow> plain_pos m (tag_display t) \<and> \<not> is_wild (tag_display t)"
| "spellable (NotP t m) \<longleftrightarrow> plain_neg m (tag_display t) \<and> \<not> is_wild (tag_display t)"
| "spellable (OrP grp) \<longleftrightarrow> (\<forall>(t, m)\<in>set grp. plain_pos m (tag_display t) \<and> \<not> is_wild (tag_display t))"
| "spellable (WildP p m) \<longleftrightarrow> plain_pos m (pattern_display p)"
| "spellable (NotWildP p m) \<longleftrightarrow> plain_neg m (pattern_display p)"
| "spellable (SystemP p) \<longleftrightarrow> ascii_lowered (sys_display p)"
| "spellable (NotSystemP p) \<longleftrightarrow> ascii_lowered (sys_display p)"

lemma or_not_marked: "\<not> is_or (61 # s)" "\<not> is_or (45 # s)" "is_or [111, 114]"
  by (cases s; simp add: is_or_def eq_ignore_ascii_case_def to_ascii_lowercase_def ascii_lower_def)+

lemma strip_exact_mark:
  "(m = Expanded \<Longrightarrow> strip_prefix (lit ''='') s = None) \<Longrightarrow> strip_exact (mark m s) = (s, m)"
  by (cases m) (simp_all add: strip_exact_def strip_prefix_single)

lemma mark_pos:
  assumes "plain_pos m s"
  shows "\<not> is_or (mark m s)" "strip_prefix (lit ''-'') (mark m s) = None" "strip_exact (mark m s) = (s, m)"
    "strip_prefix (lit ''-'') s = None" "strip_system_prefix s = None"
  using assms strip_exact_mark [of m s]
  by (cases m; simp add: plain_pos_def plain_neg_def or_not_marked strip_prefix_single)+

lemma split_at_byte_0 [simp]: "split_at_byte 0 s = Some ([], s)"
  by (cases s) simp_all

lemma system_prefix_strip: "strip_system_prefix (lit ''system:'' @ s) = Some s"
  by (simp add: strip_system_prefix_def utf8_width_def eq_ignore_ascii_case_def)

lemma system_tok_facts:
  "\<not> is_or (lit ''system:'' @ s)" "strip_prefix (lit ''-'') (lit ''system:'' @ s) = None"
  "strip_exact (lit ''system:'' @ s) = (lit ''system:'' @ s, Expanded)"
  by (simp_all add: is_or_def eq_ignore_ascii_case_def to_ascii_lowercase_def ascii_lower_def
      strip_prefix_def strip_exact_def)

lemma minus_strip [simp]: "strip_prefix (lit ''-'') (lit ''-'' @ s) = Some s" "\<not> is_or (lit ''-'' @ s)"
  by (simp_all add: strip_prefix_def or_not_marked)

lemma or_group_tokens:
  assumes lc: "lower_like lc"
  shows "\<forall>(t, m)\<in>set grp. tag_wf lc t \<and> plain_pos m (tag_display t) \<and> \<not> is_wild (tag_display t) \<Longrightarrow>
    \<not> next_is_or rest \<Longrightarrow> or_group lc acc (or_tokens grp @ rest) = Inr (acc @ grp, rest)"
proof (induction grp arbitrary: acc)
  case Nil
  then show ?case by (cases rest rule: remdups_adj.cases) (simp_all add: next_is_or_def)
next
  case (Cons tm grp)
  obtain t m where tm: "tm = (t, m)" by fastforce
  have p: "plain_pos m (tag_display t)" "\<not> is_wild (tag_display t)" "tag_wf lc t" using Cons.prems tm by auto
  show ?case
    using Cons.IH [of "acc @ [(t, m)]"] Cons.prems mark_pos [OF p(1)] p tag_parse_display [OF lc p(3)]
    by (simp add: tm or_not_marked)
qed

lemma parse_term_spell:
  assumes lc: "lower_like lc" and p: "predicate_wf lc p" "spellable p" and rest: "\<not> next_is_or rest"
  obtains tok toks where "spell_predicate p = tok # toks" "\<not> is_or tok"
    "parse_term lc tok (toks @ rest) = Inr (p, rest)"
proof -
  have neg: "parse_term lc (lit ''-'' @ s) rest = and_then (parse_negated lc s rest) (\<lambda>p. Inr (p, rest))" for s
    by (simp only: parse_term_def minus_strip) simp
  have ex: "plain_neg m s \<Longrightarrow> strip_exact (mark m s) = (s, m)" for m s
    by (rule strip_exact_mark) (simp add: plain_neg_def)
  have wild: "pattern_wf lc w \<Longrightarrow> is_wild (pattern_display w)" for w
    by (cases w) (auto simp: is_wild_def has_literal_def)
  have "\<exists>tok toks. spell_predicate p = tok # toks \<and> \<not> is_or tok \<and>
    parse_term lc tok (toks @ rest) = Inr (p, rest)"
  proof (cases p)
    case (TagP t m)
    then show ?thesis using p mark_pos [of m "tag_display t"] tag_parse_display [OF lc, of t]
        or_group_tokens [OF lc, of "[]" rest] rest
      by (simp add: parse_term_def)
  next
    case (NotP t m)
    then have m: "plain_neg m (tag_display t)" "\<not> is_wild (tag_display t)" "tag_wf lc t" using p by auto
    have "parse_negated lc (mark m (tag_display t)) rest = Inr p"
      using m rest tag_parse_display [OF lc m(3)] NotP
      by (simp add: parse_negated_def ex) (simp add: plain_neg_def)
    then show ?thesis using NotP neg minus_strip(2) by simp
  next
    case (OrP grp)
    then obtain t m tm grp' where grp: "grp = (t, m) # tm # grp'" using p
      by (cases grp rule: remdups_adj.cases) auto
    have m: "plain_pos m (tag_display t)" "\<not> is_wild (tag_display t)" "tag_wf lc t"
      using p OrP grp by auto
    have "or_group lc [(t, m)] (or_tokens (tm # grp') @ rest) = Inr ([(t, m)] @ tm # grp', rest)"
      using p OrP grp by (intro or_group_tokens [OF lc _ rest]) auto
    then show ?thesis using mark_pos [OF m(1)] m(2) tag_parse_display [OF lc m(3)] OrP grp
      by (simp add: parse_term_def)
  next
    case (WildP w m)
    then show ?thesis using p mark_pos [of m "pattern_display w"] pattern_parse_display [OF lc, of w]
        rest wild [of w] by (simp add: parse_term_def)
  next
    case (NotWildP w m)
    then have m: "plain_neg m (pattern_display w)" "pattern_wf lc w" using p by auto
    have "parse_negated lc (mark m (pattern_display w)) rest = Inr p"
      using m rest pattern_parse_display [OF lc m(2)] wild NotWildP
      by (simp add: parse_negated_def ex) (simp add: plain_neg_def)
    then show ?thesis using NotWildP neg minus_strip(2) by simp
  next
    case (SystemP q)
    have "parse_term lc (lit ''system:'' @ sys_display q) rest = Inr (p, rest)"
      using p SystemP rest unfolding parse_term_def system_tok_facts
      by (simp only: Let_def prod.case system_tok_facts system_prefix_strip)
        (simp add: system_parse_display [OF lc])
    then show ?thesis using SystemP system_tok_facts(1) by simp
  next
    case (NotSystemP q)
    have "parse_negated lc (lit ''system:'' @ sys_display q) rest = Inr p"
      using p NotSystemP rest unfolding parse_negated_def system_tok_facts
      by (simp only: Let_def prod.case system_tok_facts system_prefix_strip)
        (simp add: system_parse_display [OF lc])
    then show ?thesis using NotSystemP neg [of "lit ''system:'' @ sys_display q"] minus_strip(2) by simp
  qed
  then show thesis using that by blast
qed

lemma parse_loop_spell:
  assumes lc: "lower_like lc"
  shows "\<forall>p\<in>set q. predicate_wf lc p \<and> spellable p \<Longrightarrow>
    parse_loop lc acc (concat (map spell_predicate q)) = Inr (acc @ q) \<and>
    \<not> next_is_or (concat (map spell_predicate q))"
proof (induction q arbitrary: acc)
  case (Cons p q)
  have n: "\<not> next_is_or (concat (map spell_predicate q))" using Cons by simp
  obtain tok toks where t: "spell_predicate p = tok # toks" "\<not> is_or tok"
    "parse_term lc tok (toks @ concat (map spell_predicate q)) = Inr (p, concat (map spell_predicate q))"
    using parse_term_spell [OF lc _ _ n, of p] Cons.prems by auto
  then show ?case using Cons by (simp add: next_is_or_def)
qed (simp add: next_is_or_def)

section \<open>Properties\<close>

text \<open>
  The tokenizer and its quoted phrases: every list of nonempty tokens without a double
  quote is what \<open>tokenize\<close> returns on their spelling (tokens with white space in quotes,
  joined by spaces), a string without quotes is split at white space exactly as
  \<open>split_whitespace\<close> splits it, and whatever the input, no token is empty or has a quote.
\<close>

theorem tokenize_phrases:
  assumes "\<forall>t\<in>set ts. t \<noteq> [] \<and> 34 \<notin> set t" and "34 \<notin> set s"
  shows "tokenize (join_sp (map spell_token ts)) = ts \<and> tokenize s = split_whitespace s \<and>
    (\<forall>t\<in>set (tokenize r). t \<noteq> [] \<and> 34 \<notin> set t)"
  using tokenize_join_spell [OF assms(1)] tokenize_no_quotes [OF assms(2)]
    tokenize_loop_nonempty [of _ "[]"]
  by (auto simp: tokenize_def split_whitespace_def)

theorem tokenize_phrases_witness:
  "tokenize (lit ''\"zero mission\" samus'') = [lit ''zero mission'', lit ''samus'']"
proof -
  have "join_sp (map spell_token [lit ''zero mission'', lit ''samus'']) = lit ''\"zero mission\" samus''"
    by (simp add: spell_token_def quoted_def str_eval)
  with tokenize_phrases [of "[lit ''zero mission'', lit ''samus'']" "[]"] show ?thesis by simp
qed

text \<open>
  Numeric system predicates: for every field, operator, magnitude \<open>n\<close> and unit suffix the
  parser returns the comparison with \<open>n\<close> times the unit's multiplier in base units, and the
  error \<open>BadSystem\<close> when the unit does not belong to the field or the value does not fit in
  \<open>i64\<close>; nothing wraps around.
\<close>

theorem system_compare_exact:
  assumes "lower_like lc" and "ascii_lowered u" and "\<forall>c\<in>set u. \<not> is_ws c"
    and "u = [] \<or> \<not> is_ascii_digit (hd u)"
  shows "system_parse lc (field_kw f @ op_kw op @ dec n @ u) =
    (case compare_value f n u of
       Some v \<Rightarrow> Inr (Compare f op v)
     | None \<Rightarrow> Inl (BadSystem (field_kw f @ op_kw op @ dec n @ u)))"
  using system_parse_compare [OF assms, of f op n] by (simp split: option.splits)

theorem system_compare_exact_witness:
  "system_parse to_ascii_lowercase (lit ''size>=10mb'') = Inr (Compare Size Ge 10485760)"
proof -
  have "field_kw Size @ op_kw Ge @ dec 10 @ lit ''mb'' = lit ''size>=10mb''"
    "compare_value Size 10 (lit ''mb'') = Some 10485760"
    by (simp_all add: str_eval compare_value_def i64_max_def)
  moreover have "ascii_lowered (lit ''mb'')" "\<forall>c\<in>set (lit ''mb''). \<not> is_ws c"
    "\<not> is_ascii_digit (hd (lit ''mb''))"
    by (simp_all add: ascii_lowered_def is_ws_def is_ascii_digit_def)
  ultimately show ?thesis
    using system_compare_exact [OF lower_like_ascii, of "lit ''mb''" Size Ge 10] by simp
qed

text \<open>
  C40. Whatever token list \<open>parse_query\<close> accepts, the query is well formed: it has at least one
  predicate, every tag is a normalised tag, every wildcard has a namespace or a literal to
  anchor on, every or-group has two members or more, and every comparison value is a
  nonnegative \<open>i64\<close>.
\<close>

theorem parse_query_wf:
  assumes "lower_like lc" and "parse_query lc tokens = Inr q"
  shows "query_wf lc q"
proof -
  have "tokens \<noteq> []" "parse_loop lc [] tokens = Inr q"
    using assms(2) by (auto simp: parse_query_def split: if_splits)
  with parse_loop_wf [OF assms(1) this(2)] show ?thesis by (auto simp: query_wf_def)
qed

theorem parse_query_wf_witness:
  "query_wf to_ascii_lowercase
     [OrP [(\<lparr>namespace = [], subtag = lit ''a''\<rparr>, Expanded), (\<lparr>namespace = lit ''x'', subtag = lit ''b''\<rparr>, Exact)]]"
  by (rule parse_query_wf [where tokens = "[lit ''a'', lit ''OR'', lit ''=x:B'']"])
    (rule lower_like_ascii, simp add: parse_query_def parse_term_def strip_exact_def is_or_def is_wild_def
      strip_system_prefix_def tag_parse_def tag_normalize_def str_eval)



end
