(* ===== verification/NetWindow.thy ===== *)
theory NetWindow
  imports NetDomain NetSign
begin

text \<open>
  \<open>crates/netproto/src/lib.rs\<close>, how the pull client cuts a list of bucket keys into requests:
  the cost estimate, the request window, the chunks of a delta pull, the retry backoff.  The
  last section computes the length of the JSON body of a request, against which the estimate is
  measured.
\<close>

section \<open>Constants\<close>

definition MAX_STREAM_LINE_BYTES :: nat where "MAX_STREAM_LINE_BYTES = 8 * 1024 * 1024"
definition RESPONSE_SIZE_CAP :: nat where "RESPONSE_SIZE_CAP = 64 * 1024 * 1024"
definition MERGED_RESPONSE_SIZE_CAP :: nat where "MERGED_RESPONSE_SIZE_CAP = 2 * 1024 * 1024 * 1024"
definition BUCKET_REQUEST_BODY_BUDGET :: nat where "BUCKET_REQUEST_BODY_BUDGET = 56 * 1024"
definition BUCKET_REQUEST_ENVELOPE :: nat where "BUCKET_REQUEST_ENVELOPE = 256"
definition WINDOW_SLOW_MS :: nat where "WINDOW_SLOW_MS = 5000"
definition WINDOW_FAST_MS :: nat where "WINDOW_FAST_MS = 2500"
definition MIN_WINDOW :: nat where "MIN_WINDOW = 32"
definition FLOOR_RETRY_LIMIT :: nat where "FLOOR_RETRY_LIMIT = 3"
definition STREAM_OVERALL_TIMEOUT :: nat where "STREAM_OVERALL_TIMEOUT = 30 * 60 * 1000"
definition usize_MAX :: nat where "usize_MAX = 2 ^ 64 - 1"

text \<open>\<open>Duration::saturating_mul\<close> of the 500 ms base never saturates for a \<open>u32\<close> factor.\<close>

definition retry_backoff :: "nat \<Rightarrow> nat" where
  "retry_backoff attempt = min (500 * (attempt mod 2 ^ 32)) 3000"

section \<open>Windows\<close>

text \<open>\<open>u64::ilog10\<close> of a positive number.\<close>

fun ilog10 :: "nat \<Rightarrow> nat" where
  "ilog10 v = (if v < 10 then 0 else Suc (ilog10 (v div 10)))"

declare ilog10.simps [simp del]

definition decimal_width :: "nat \<Rightarrow> nat" where
  "decimal_width v = (if v = 0 then 1 else ilog10 v + 1)"

definition per_entry :: "ustring list \<Rightarrow> nat list option \<Rightarrow> nat \<Rightarrow> nat" where
  "per_entry buckets since i =
     (let key = str_len (buckets ! i) + 3;
          cursor = (case since of
              None \<Rightarrow> 0
            | Some s \<Rightarrow> if i < length s then decimal_width (s ! i) + 1 else 21)
      in key + cursor)"

text \<open>The loop of \<open>window_end\<close>; \<open>Some i\<close> is the early return.\<close>

function window_scan :: "(nat \<Rightarrow> nat) \<Rightarrow> nat \<Rightarrow> nat \<Rightarrow> nat \<Rightarrow> nat \<Rightarrow> nat \<Rightarrow> nat option" where
  "window_scan cost available start end_cap i used =
     (if i < end_cap then
        (if available < used + cost i \<and> start < i then Some i
         else window_scan cost available start end_cap (i + 1) (used + cost i))
      else None)"
  by pat_completeness auto
termination by (relation "measure (\<lambda>(cost, available, start, end_cap, i, used). end_cap - i)") auto

declare window_scan.simps [simp del]

definition window_end :: "ustring list \<Rightarrow> nat list option \<Rightarrow> nat \<Rightarrow> nat \<Rightarrow> nat \<Rightarrow> nat" where
  "window_end buckets since start budget max_window =
     (let available = budget - BUCKET_REQUEST_ENVELOPE;
          end_cap = min (saturating_add_usize start max_window) (length buckets)
      in case window_scan (per_entry buckets since) available start end_cap start 0 of
           Some i \<Rightarrow> i
         | None \<Rightarrow> max end_cap (start + 1))"

lemma window_scan_range: "window_scan cost available start end_cap i used = Some j \<Longrightarrow> i \<le> j \<and> start < j \<and> j < end_cap"
  by (induction cost available start end_cap i used rule: window_scan.induct)
    (subst (asm) (2) window_scan.simps, auto split: if_splits)

lemma window_end_gt: "start < window_end buckets since start budget max_window"
  by (auto simp: window_end_def Let_def dest: window_scan_range split: option.split)

function chunk_loop :: "ustring list \<Rightarrow> nat list option \<Rightarrow> nat \<Rightarrow> nat \<Rightarrow> (nat \<times> nat) list \<Rightarrow> (nat \<times> nat) list" where
  "chunk_loop buckets since budget start chunks =
     (if start < length buckets then
        (let e = window_end buckets since start budget usize_MAX
         in chunk_loop buckets since budget e (chunks @ [(start, e)]))
      else chunks)"
  by pat_completeness auto
termination
  by (relation "measure (\<lambda>(buckets, since, budget, start, chunks). length buckets - start)")
    (auto intro: diff_less_mono2 window_end_gt)

declare chunk_loop.simps [simp del]

definition bucket_chunks :: "ustring list \<Rightarrow> nat list option \<Rightarrow> nat \<Rightarrow> (nat \<times> nat) list" where
  "bucket_chunks buckets since budget = (if buckets = [] then [(0, 0)] else chunk_loop buckets since budget 0 [])"

text \<open>\<open>buckets[lo..hi]\<close>.\<close>

definition slice_of :: "'a list \<Rightarrow> nat \<Rightarrow> nat \<Rightarrow> 'a list" where
  "slice_of xs lo hi = take (hi - lo) (drop lo xs)"

section \<open>Request bodies\<close>

text \<open>
  The length of the JSON that \<open>serde\<close> writes for a request: the fields in order, a field that
  is \<open>None\<close> (or a \<open>stream\<close> that is false) omitted.
\<close>

definition json_str_len :: "ustring \<Rightarrow> nat" where
  "json_str_len s = json_escaped_len s + 2"

definition json_list_len :: "('a \<Rightarrow> nat) \<Rightarrow> 'a list \<Rightarrow> nat" where
  "json_list_len f xs = 2 + sum_list (map f xs) + (length xs - 1)"

definition request_json_len :: "bucket_request \<Rightarrow> nat" where
  "request_json_len r =
     str_len (lit ''{\"version\":'') + length (dec (br_version r)) +
     str_len (lit '',\"prefix_bits\":'') + length (dec (br_prefix_bits r)) +
     str_len (lit '',\"buckets\":'') + json_list_len json_str_len (br_buckets r) +
     (case br_since r of None \<Rightarrow> 0 | Some s \<Rightarrow> str_len (lit '',\"since\":'') + json_list_len (\<lambda>v. length (dec v)) s) +
     (case br_domain r of None \<Rightarrow> 0 | Some d \<Rightarrow> str_len (lit '',\"domain\":'') + json_str_len d) +
     (if br_stream r then str_len (lit '',\"stream\":true'') else 0) +
     (case br_resume_at r of None \<Rightarrow> 0 | Some k \<Rightarrow> str_len (lit '',\"resume_at\":'') + json_str_len k) +
     str_len (lit ''}'')"

section \<open>Windows fit their budget\<close>

lemma decimal_width_dec: "decimal_width v = length (dec v)"
proof -
  have "0 < v \<Longrightarrow> ilog10 v + 1 = length (dec v)"
  proof (induction v rule: ilog10.induct)
    case (1 v)
    then show ?case by (cases "v < 10") (simp_all add: ilog10.simps [of v] dec.simps [of v])
  qed
  then show ?thesis by (simp add: decimal_width_def dec.simps [of 0])
qed

lemma length_dec_le: "n < 10 ^ k \<Longrightarrow> 0 < k \<Longrightarrow> length (dec n) \<le> k"
proof (induction k arbitrary: n)
  case (Suc k)
  show ?case
  proof (cases "n < 10")
    case False
    then have "n div 10 < 10 ^ k" "0 < k" using Suc.prems(1) by (auto simp: less_mult_imp_div_less mult.commute intro!: gr0I)
    then show ?thesis using Suc.IH [of "n div 10"] False by (simp add: dec.simps [of n])
  qed (simp add: dec.simps [of n])
qed simp

text \<open>What the scan has added up when it stops.\<close>

lemma window_scan_cost:
  assumes "start \<le> i" "used = (\<Sum>j = start..<i. cost j)" "i \<le> end_cap \<or> end_cap \<le> start"
    and "i \<le> Suc start \<or> used \<le> available"
  shows "case window_scan cost available start end_cap i used of
      Some e \<Rightarrow> (e \<le> Suc start \<or> (\<Sum>j = start..<e. cost j) \<le> available) \<and> available < (\<Sum>j = start..<Suc e. cost j)
    | None \<Rightarrow> max end_cap (start + 1) \<le> Suc start \<or> (\<Sum>j = start..<end_cap. cost j) \<le> available"
  using assms
proof (induction cost available start end_cap i used rule: window_scan.induct)
  case (1 cost available start end_cap i used)
  show ?case
  proof (cases "i < end_cap")
    case False
    then show ?thesis using 1(2-) by (auto simp: window_scan.simps [of cost available start end_cap i])
  next
    case True
    show ?thesis
    proof (cases "available < used + cost i \<and> start < i")
      case stop: True
      then show ?thesis using 1(2-) True by (simp add: window_scan.simps [of cost available start end_cap i])
    next
      case False
      have "used + cost i = (\<Sum>j = start..<i + 1. cost j)" using 1(2,3) by simp
      moreover have "i + 1 \<le> Suc start \<or> used + cost i \<le> available" using False 1(2) by auto
      moreover have "window_scan cost available start end_cap i used = window_scan cost available start end_cap (i + 1) (used + cost i)"
        by (subst window_scan.simps) (simp only: True False if_True if_False)
      ultimately show ?thesis using 1(1) [OF True False] 1(2) True by (simp del: sum.op_ivl_Suc)
    qed
  qed
qed

lemma window_end_cost:
  assumes "start < length buckets"
  shows "start < window_end buckets since start budget w \<and> window_end buckets since start budget w \<le> length buckets \<and>
    (window_end buckets since start budget w \<le> Suc start \<or>
      window_end buckets since start budget w \<le> saturating_add_usize start w \<and>
      (\<Sum>j = start..<window_end buckets since start budget w. per_entry buckets since j) \<le> budget - BUCKET_REQUEST_ENVELOPE) \<and>
    (window_end buckets since start budget w < min (saturating_add_usize start w) (length buckets) \<longrightarrow>
      budget - BUCKET_REQUEST_ENVELOPE < (\<Sum>j = start..<Suc (window_end buckets since start budget w). per_entry buckets since j))"
proof -
  let ?cap = "min (saturating_add_usize start w) (length buckets)"
  let ?scan = "window_scan (per_entry buckets since) (budget - BUCKET_REQUEST_ENVELOPE) start ?cap start 0"
  note cost = window_scan_cost [of start start 0 "per_entry buckets since" ?cap "budget - BUCKET_REQUEST_ENVELOPE"]
  have cap: "start \<le> ?cap \<or> ?cap \<le> start" by (rule linear)
  show ?thesis
  proof (cases ?scan)
    case None
    then have e: "window_end buckets since start budget w = max ?cap (start + 1)" by (simp add: window_end_def Let_def)
    show ?thesis using cost cap None assms unfolding e by (auto simp: max_def split: if_splits)
  next
    case (Some i)
    then have e: "window_end buckets since start budget w = i" by (simp add: window_end_def Let_def)
    show ?thesis using cost cap Some window_scan_range [OF Some] unfolding e by simp
  qed
qed

lemma window_end_le: "start < length buckets \<Longrightarrow> window_end buckets since start budget w \<le> length buckets"
  using window_end_cost by blast

lemma window_end_max: "start < length buckets \<Longrightarrow> 0 < w \<Longrightarrow> length buckets < 2 ^ 64 \<Longrightarrow>
    window_end buckets since start budget w \<le> start + w"
  using window_end_cost [of start buckets since budget w] saturating_add_le [of start w] by auto

lemma sum_list_le_map: "(\<And>x. x \<in> set xs \<Longrightarrow> f x \<le> (g x :: nat)) \<Longrightarrow> sum_list (map f xs) \<le> sum_list (map g xs)"
  by (induction xs) (auto intro: add_mono)

lemma json_list_len_le: "json_list_len f xs \<le> sum_list (map (\<lambda>x. f x + 1) xs) + 2"
proof -
  have "sum_list (map (\<lambda>x. f x + 1) xs) = sum_list (map f xs) + length xs" by (induction xs) auto
  then show ?thesis by (simp add: json_list_len_def)
qed

lemma sum_slice: "hi \<le> length xs \<Longrightarrow> lo \<le> hi \<Longrightarrow> sum_list (map f (slice_of xs lo hi)) = (\<Sum>j = lo..<hi. f (xs ! j))"
proof -
  assume "hi \<le> length xs" "lo \<le> hi"
  then have "slice_of xs lo hi = map ((!) xs) [lo..<hi]" by (auto simp: slice_of_def intro!: nth_equalityI)
  then show ?thesis by (simp add: comp_def interv_sum_list_conv_sum_set_nat)
qed

text \<open>
  C24. A request window.  From any start before the end of the key list the window moves forward, stays inside
  the list and within \<open>max_window\<close> keys; unless it holds a single key, the JSON body of its request, with any
  version and width of the wire types, either domain and any continuation key, fits the request budget; and it
  is as large as the estimate allows.
\<close>

theorem window_fits:
  assumes "start < length buckets" "length buckets < 2 ^ 64" "0 < w"
    and "\<forall>k\<in>set buckets. json_escaped_len k = str_len k"
    and "case since of None \<Rightarrow> True | Some s \<Rightarrow> length s = length buckets"
    and "version < 2 ^ 32" "bits < 2 ^ 32" "dm \<in> {None, Some (domain_as_str Blake3), Some (domain_as_str Sha256)}"
    and "case resume of None \<Rightarrow> True | Some k \<Rightarrow> json_escaped_len k \<le> 64"
  shows "let e = window_end buckets since start BUCKET_REQUEST_BODY_BUDGET w in
    start < e \<and> e \<le> length buckets \<and> e \<le> start + w \<and>
    (1 < e - start \<longrightarrow> request_json_len \<lparr>br_version = version, br_prefix_bits = bits, br_buckets = slice_of buckets start e,
       br_since = map_option (\<lambda>s. slice_of s start e) since, br_domain = dm, br_stream = stream, br_resume_at = resume\<rparr>
       \<le> BUCKET_REQUEST_BODY_BUDGET) \<and>
    (e < length buckets \<and> e < start + w \<longrightarrow>
      BUCKET_REQUEST_BODY_BUDGET - BUCKET_REQUEST_ENVELOPE < (\<Sum>j = start..<Suc e. per_entry buckets since j))"
proof -
  define e where "e = window_end buckets since start BUCKET_REQUEST_BODY_BUDGET w"
  note cost = window_end_cost [OF assms(1), of since BUCKET_REQUEST_BODY_BUDGET w, folded e_def]
  have range: "start < e" "e \<le> length buckets" "e \<le> start + w"
    using cost window_end_max [OF assms(1,3,2)] by (simp_all add: e_def)
  have "e < min (saturating_add_usize start w) (length buckets)" if "e < length buckets" "e < start + w"
    using that assms(2) by (simp add: saturating_add_usize_def)
  then have max: "e < length buckets \<and> e < start + w \<longrightarrow>
      BUCKET_REQUEST_BODY_BUDGET - BUCKET_REQUEST_ENVELOPE < (\<Sum>j = start..<Suc e. per_entry buckets since j)"
    using cost by blast
  have fits: "request_json_len \<lparr>br_version = version, br_prefix_bits = bits, br_buckets = slice_of buckets start e,
       br_since = map_option (\<lambda>s. slice_of s start e) since, br_domain = dm, br_stream = stream, br_resume_at = resume\<rparr>
       \<le> BUCKET_REQUEST_BODY_BUDGET" if "1 < e - start"
  proof -
    let ?keys = "\<Sum>j = start..<e. str_len (buckets ! j) + 3"
    let ?curs = "case since of None \<Rightarrow> 0 | Some s \<Rightarrow> \<Sum>j = start..<e. decimal_width (s ! j) + 1"
    have sub: "set (slice_of buckets start e) \<subseteq> set buckets" by (auto simp: slice_of_def dest: in_set_takeD in_set_dropD)
    have "json_list_len json_str_len (slice_of buckets start e) \<le> sum_list (map (\<lambda>k. json_str_len k + 1) (slice_of buckets start e)) + 2"
      by (rule json_list_len_le)
    also have "map (\<lambda>k. json_str_len k + 1) (slice_of buckets start e) = map (\<lambda>k. str_len k + 3) (slice_of buckets start e)"
      using sub assms(4) by (auto simp: json_str_len_def)
    also have "sum_list (map (\<lambda>k. str_len k + 3) (slice_of buckets start e)) = ?keys"
      using range by (intro sum_slice) simp_all
    finally have keys: "json_list_len json_str_len (slice_of buckets start e) \<le> ?keys + 2" .
    have curs: "(case map_option (\<lambda>s. slice_of s start e) since of None \<Rightarrow> 0
        | Some s \<Rightarrow> 9 + json_list_len (\<lambda>v. length (dec v)) s) \<le> ?curs + 11"
    proof (cases since)
      case (Some s)
      have "json_list_len (\<lambda>v. length (dec v)) (slice_of s start e) \<le> sum_list (map (\<lambda>v. length (dec v) + 1) (slice_of s start e)) + 2"
        by (rule json_list_len_le)
      also have "sum_list (map (\<lambda>v. length (dec v) + 1) (slice_of s start e)) = (\<Sum>j = start..<e. length (dec (s ! j)) + 1)"
        using range assms(5) Some by (intro sum_slice) simp_all
      finally show ?thesis by (simp add: Some decimal_width_dec)
    qed simp
    have "(\<Sum>j = start..<e. per_entry buckets since j) = ?keys + ?curs"
    proof (cases since)
      case (Some s)
      then have "length s = length buckets" using assms(5) by simp
      then have "(\<Sum>j = start..<e. per_entry buckets since j) = (\<Sum>j = start..<e. (str_len (buckets ! j) + 3) + (decimal_width (s ! j) + 1))"
        using range by (intro sum.cong) (auto simp: per_entry_def Some)
      then show ?thesis by (simp only: sum.distrib Some option.case)
    qed (simp add: per_entry_def)
    moreover have "\<not> e \<le> Suc start" using that by linarith
    ultimately have total: "?keys + ?curs \<le> 57088"
      using cost by (simp add: BUCKET_REQUEST_BODY_BUDGET_def BUCKET_REQUEST_ENVELOPE_def)
    have "json_escaped_len (domain_as_str d) = 6" for d
      by (cases d) (simp_all add: json_escaped_len_def json_byte_len_def utf8_def utf8_code_def)
    then have dm: "(case dm of None \<Rightarrow> 0 | Some d \<Rightarrow> 10 + json_str_len d) \<le> 18"
      using assms(8) by (auto simp: json_str_len_def simp del: domain_as_str.simps)
    have res: "(case resume of None \<Rightarrow> 0 | Some k \<Rightarrow> 13 + json_str_len k) \<le> 79"
      using assms(9) by (auto simp: json_str_len_def split: option.splits)
    have num: "length (dec version) \<le> 10" "length (dec bits) \<le> 10"
      using assms(6,7) by (auto intro!: length_dec_le)
    have lens: "str_len (lit ''{\"version\":'') = 11" "str_len (lit '',\"prefix_bits\":'') = 15" "str_len (lit '',\"buckets\":'') = 11"
      "str_len (lit '',\"since\":'') = 9" "str_len (lit '',\"domain\":'') = 10" "str_len (lit '',\"stream\":true'') = 14"
      "str_len (lit '',\"resume_at\":'') = 13" "str_len (lit ''}'') = 1"
      by (simp_all add: str_len_Cons utf8_width_ascii str_len_def [of "[]"])
    have "(if stream then 14 else 0 :: nat) \<le> 14" by simp
    then show ?thesis using keys curs total dm res num
      unfolding request_json_len_def bucket_request.simps lens BUCKET_REQUEST_BODY_BUDGET_def by linarith
  qed
  show ?thesis unfolding Let_def e_def [symmetric] using range fits max by blast
qed

lemma chunk_ranges:
  "concat (map (\<lambda>(lo, hi). [lo..<hi]) (bucket_chunks buckets since budget)) = [0..<length buckets] \<and>
    (if buckets = [] then bucket_chunks buckets since budget = [(0, 0)]
     else \<forall>(lo, hi)\<in>set (bucket_chunks buckets since budget). lo < hi)"
proof -
  have "concat (map (\<lambda>(lo, hi). [lo..<hi]) (chunk_loop buckets since budget start chunks)) = [0..<length buckets] \<and>
      (\<forall>(lo, hi)\<in>set (chunk_loop buckets since budget start chunks). lo < hi)"
    if "concat (map (\<lambda>(lo, hi). [lo..<hi]) chunks) = [0..<start]" "start \<le> length buckets" "\<forall>(lo, hi)\<in>set chunks. lo < hi"
    for start chunks
    using that
  proof (induction buckets since budget start chunks rule: chunk_loop.induct)
    case (1 buckets since budget start chunks)
    let ?e = "window_end buckets since start budget usize_MAX"
    show ?case
    proof (cases "start < length buckets")
      case True
      have e: "start < ?e" "?e \<le> length buckets" using window_end_gt window_end_le [OF True] by blast+
      have "[0..<start] @ [start..<?e] = [0..<?e]" using e(1) upt_add_eq_append [of 0 start "?e - start"] by simp
      then have "concat (map (\<lambda>(lo, hi). [lo..<hi]) (chunks @ [(start, ?e)])) = [0..<?e]" using 1(2) by simp
      from 1(1) [OF True refl this e(2)] show ?thesis
        using 1(4) e(1) True by (simp add: chunk_loop.simps [of buckets since budget start] Let_def)
    next
      case False
      then have "chunk_loop buckets since budget start chunks = chunks" by (subst chunk_loop.simps) simp
      then show ?thesis using 1(2-) False by simp
    qed
  qed
  from this [of "[]" 0] show ?thesis by (simp add: bucket_chunks_def)
qed

text \<open>
  The chunks of a delta pull.  They are consecutive, cover the indices of the key list exactly once, and
  each but the single chunk of an empty list makes progress.
\<close>

theorem chunks_cover:
  "concat (map (\<lambda>(lo, hi). [lo..<hi]) (bucket_chunks buckets since budget)) = [0..<length buckets] \<and>
    (if buckets = [] then bucket_chunks buckets since budget = [(0, 0)]
     else \<forall>(lo, hi)\<in>set (bucket_chunks buckets since budget). lo < hi)"
  by (rule chunk_ranges)

text \<open>At the very end of the list \<open>window_end\<close> still returns one more.\<close>

lemma window_end_at_end: "window_end buckets since (length buckets) budget w = length buckets + 1"
  by (simp add: window_end_def Let_def window_scan.simps)

section \<open>Witnesses\<close>

theorem window_fits_witness:
  "window_end [lit ''00'', lit ''80''] (Some [7, 1234]) 0 BUCKET_REQUEST_BODY_BUDGET MIN_WINDOW = 2 \<and>
   request_json_len \<lparr>br_version = PROTOCOL_VERSION, br_prefix_bits = 1, br_buckets = [lit ''00'', lit ''80''],
     br_since = Some [7, 1234], br_domain = Some (lit ''sha256''), br_stream = False, br_resume_at = None\<rparr>
     \<le> BUCKET_REQUEST_BODY_BUDGET"
proof -
  let ?b = "[lit ''00'', lit ''80'']" and ?s = "Some [7, 1234]"
  have len: "\<forall>k\<in>set ?b. json_escaped_len k = str_len k" "\<forall>k\<in>set ?b. str_len k = 2"
    by (simp_all add: json_escaped_len_def json_byte_len_def utf8_def utf8_code_def str_len_Cons utf8_width_ascii str_len_def [of "[]"])
  have cost: "per_entry ?b ?s 0 = 7" "per_entry ?b ?s 1 = 10"
    using len(2) by (simp_all add: per_entry_def decimal_width_def ilog10.simps del: lit_Cons)
  have e: "window_end ?b ?s 0 BUCKET_REQUEST_BODY_BUDGET MIN_WINDOW = 2"
    using cost by (simp add: window_end_def Let_def window_scan.simps saturating_add_usize_def MIN_WINDOW_def
        BUCKET_REQUEST_BODY_BUDGET_def BUCKET_REQUEST_ENVELOPE_def del: lit_Cons)
  have "0 < MIN_WINDOW" by (simp add: MIN_WINDOW_def)
  then show ?thesis
    using window_fits [of 0 ?b MIN_WINDOW ?s PROTOCOL_VERSION 1 "Some (domain_as_str Sha256)" None False] len(1)
    by (simp add: e Let_def slice_of_def PROTOCOL_VERSION_def del: lit_Cons)
qed

theorem chunks_cover_witness:
  "bucket_chunks [lit ''00'', lit ''80''] (Some [7, 1234]) 260 = [(0, 1), (1, 2)] \<and>
   concat (map (\<lambda>(lo, hi). [lo..<hi]) (bucket_chunks [lit ''00'', lit ''80''] (Some [7, 1234]) 260)) = [0, 1]"
proof -
  let ?b = "[lit ''00'', lit ''80'']" and ?s = "Some [7, 1234]"
  have "\<forall>k\<in>set ?b. str_len k = 2" by (simp add: str_len_Cons utf8_width_ascii str_len_def [of "[]"])
  then have cost: "per_entry ?b ?s 0 = 7" "per_entry ?b ?s 1 = 10"
    by (simp_all add: per_entry_def decimal_width_def ilog10.simps del: lit_Cons)
  have e: "window_end ?b ?s 0 260 usize_MAX = 1" "window_end ?b ?s 1 260 usize_MAX = 2"
    using cost by (simp_all add: window_end_def Let_def window_scan.simps saturating_add_usize_def usize_MAX_def
        BUCKET_REQUEST_ENVELOPE_def del: lit_Cons)
  have "bucket_chunks ?b ?s 260 = [(0, 1), (1, 2)]"
    using e by (simp add: bucket_chunks_def chunk_loop.simps Let_def numeral_2_eq_2 del: lit_Cons)
  then show ?thesis using chunks_cover [of ?b ?s 260] by (simp del: lit_Cons add: numeral_2_eq_2)
qed

end
