(* ===== verification/NetPull.thy ===== *)
theory NetPull
  imports NetWindow
begin

text \<open>
  \<open>crates/netproto/src/lib.rs\<close>, the pull client: capped bodies, the bisecting fetch of a window,
  the streamed fetch, the shrink-and-retry loop with its adaptive window, and the delta fetch.

  The network is a record of functions over a world \<open>'w\<close>: what a request returns, what the next
  read of a streamed body returns, the clock, sleeping, and the JSON decoders.  An operation
  threads the world and the list of phases the observer has been told.  The text of an error
  message is not modelled, its cause is; the URL is fixed.
\<close>

section \<open>Responses\<close>

text \<open>
  A response body: the bytes the server sends, and whether reading past them fails.  \<open>ureq\<close>
  returns a response, a status error with the text of its body, or a transport error with its
  message.
\<close>

record http_body =
  body_bytes :: "byte list"
  body_fails :: bool

datatype 'r http_result = HttpOk 'r | HttpStatus nat ustring | HttpTransport ustring

datatype retry_reason = Timeout | Disconnect | Truncation

datatype fetch_error =
    BodyUnreadable
  | ResponseTooLarge nat
  | BodyNotJson
  | WireVersion sign_error
  | StatusRefused nat ustring
  | TransportFailed ustring
  | MergedTooLarge nat
  | BucketOverBudget "ustring option" nat
  | LineUnreadable
  | LineTooLong
  | LineNotUtf8
  | NoHeader
  | BadHeader ustring
  | HeaderError ustring
  | BadLine ustring
  | NotDone
  | StreamFailed ustring
  | StreamTruncated
  | StreamDeadline
  | FloorExhausted nat nat nat nat nat fetch_error

datatype window_error = Retryable retry_reason fetch_error | Fatal fetch_error

record snapshot_reply =
  sn_version :: nat
  sn_cursor :: nat
  sn_tags :: "(ustring \<times> origin_tag list) list"

record mapping_delta =
  md_version :: nat
  md_cursor :: nat
  md_changes :: "delta_mapping list"

datatype stream_line = Row ustring "origin_tag list" | Trailer stream_trailer

datatype pull_phase =
    RequestSent nat nat nat
  | ChunkReceived nat nat nat nat nat nat nat nat
  | RowReceived nat nat
  | WindowRetry nat nat nat nat nat retry_reason

record 'w net =
  net_post :: "bucket_request \<Rightarrow> 'w \<Rightarrow> http_body http_result \<times> 'w"
  net_open :: "bucket_request \<Rightarrow> 'w \<Rightarrow> unit http_result \<times> 'w"
  net_read :: "nat \<Rightarrow> 'w \<Rightarrow> (bool + byte list) \<times> 'w"
  net_now :: "'w \<Rightarrow> nat"
  net_sleep :: "nat \<Rightarrow> 'w \<Rightarrow> 'w"
  json_snapshot :: "byte list \<Rightarrow> snapshot_reply option"
  json_delta :: "byte list \<Rightarrow> mapping_delta option"
  json_header :: "ustring \<Rightarrow> (nat \<times> nat) option"
  json_line :: "ustring \<Rightarrow> stream_line option"
  json_trailer :: "ustring \<Rightarrow> stream_trailer option"
  net_lower :: "ustring \<Rightarrow> ustring"

record 'w io =
  io_world :: 'w
  io_phases :: "pull_phase list"

definition on_phase :: "pull_phase \<Rightarrow> 'w io \<Rightarrow> 'w io" where
  "on_phase p io0 = io0\<lparr>io_phases := io_phases io0 @ [p]\<rparr>"

text \<open>\<open>read_capped_counted\<close>: at most \<open>cap + 1\<close> bytes are read.\<close>

definition read_capped_counted :: "(byte list \<Rightarrow> 'a option) \<Rightarrow> http_body \<Rightarrow> nat \<Rightarrow> fetch_error + 'a \<times> nat" where
  "read_capped_counted json body cap =
     (let buf = take (cap + 1) (body_bytes body)
      in if body_fails body \<and> length buf \<le> cap then Inl BodyUnreadable
         else if cap < length buf then Inl (ResponseTooLarge cap)
         else (case json buf of None \<Rightarrow> Inl BodyNotJson | Some v \<Rightarrow> Inr (v, length buf)))"

definition read_capped :: "(byte list \<Rightarrow> 'a option) \<Rightarrow> http_body \<Rightarrow> nat \<Rightarrow> fetch_error + 'a" where
  "read_capped json body cap =
     (let buf = take (cap + 1) (body_bytes body)
      in if body_fails body \<and> length buf \<le> cap then Inl BodyUnreadable
         else if cap < length buf then Inl (ResponseTooLarge cap)
         else (case json buf of None \<Rightarrow> Inl BodyNotJson | Some v \<Rightarrow> Inr v))"

definition STATUS_ERR_BODY_CAP :: nat where "STATUS_ERR_BODY_CAP = 512"

text \<open>The longest prefix of whole characters within a number of bytes.\<close>

fun char_prefix :: "nat \<Rightarrow> ustring \<Rightarrow> ustring" where
  "char_prefix n [] = []"
| "char_prefix n (c # cs) = (if utf8_width c \<le> n then c # char_prefix (n - utf8_width c) cs else [])"

definition status_body :: "ustring \<Rightarrow> ustring" where
  "status_body raw =
     trim (if STATUS_ERR_BODY_CAP < str_len raw
           then char_prefix STATUS_ERR_BODY_CAP raw @ [0x20, 0x2026] @ lit '' (truncated)'' else raw)"

definition status_err :: "'r http_result \<Rightarrow> fetch_error" where
  "status_err e =
     (case e of
        HttpStatus code raw \<Rightarrow> StatusRefused code (status_body raw)
      | HttpTransport msg \<Rightarrow> TransportFailed msg
      | HttpOk _ \<Rightarrow> BodyUnreadable)"

fun str_contains :: "ustring \<Rightarrow> ustring \<Rightarrow> bool" where
  "str_contains pat [] \<longleftrightarrow> pat = []"
| "str_contains pat (c # cs) \<longleftrightarrow> take (length pat) (c # cs) = pat \<or> str_contains pat cs"

definition classify_ureq :: "('w, 'z) net_scheme \<Rightarrow> 'r http_result \<Rightarrow> window_error" where
  "classify_ureq N e =
     (case e of
        HttpTransport msg0 \<Rightarrow>
          (let msg = net_lower N msg0;
               reason = (if str_contains (lit ''timed out'') msg \<or> str_contains (lit ''10060'') msg then Timeout else Disconnect)
           in Retryable reason (status_err e))
      | _ \<Rightarrow> Fatal (status_err e))"

section \<open>Merging replies\<close>

text \<open>\<open>for (hash, tags) in new \{ old.entry(hash).or_default().extend(tags) \}\<close>.\<close>

definition extend_entry :: "'k \<Rightarrow> 'v list \<Rightarrow> ('k \<times> 'v list) list \<Rightarrow> ('k \<times> 'v list) list" where
  "extend_entry k vs m = AList.update k (get_vec m k @ vs) m"

definition extend_tags :: "('k \<times> 'v list) list \<Rightarrow> ('k \<times> 'v list) list \<Rightarrow> ('k \<times> 'v list) list" where
  "extend_tags new old = fold (\<lambda>(k, vs). extend_entry k vs) new old"

definition tag_total :: "('k \<times> 'v list) list \<Rightarrow> nat" where
  "tag_total m = sum_list (map (\<lambda>(k, vs). length vs) m)"

definition empty_reply :: snapshot_reply where
  "empty_reply = \<lparr>sn_version = PROTOCOL_VERSION, sn_cursor = 2 ^ 64 - 1, sn_tags = []\<rparr>"

definition merge_reply :: "snapshot_reply \<Rightarrow> snapshot_reply \<Rightarrow> snapshot_reply" where
  "merge_reply new old =
     old\<lparr>sn_cursor := min (sn_cursor old) (sn_cursor new), sn_tags := extend_tags (sn_tags new) (sn_tags old)\<rparr>"

definition bucket_req :: "nat \<Rightarrow> ustring list \<Rightarrow> nat list option \<Rightarrow> hash_domain option \<Rightarrow> bool \<Rightarrow> ustring option \<Rightarrow> bucket_request" where
  "bucket_req bits keys since d stream resume =
     \<lparr>br_version = PROTOCOL_VERSION, br_prefix_bits = bits, br_buckets = keys, br_since = since,
      br_domain = map_option domain_as_str d, br_stream = stream, br_resume_at = resume\<rparr>"

section \<open>The bisecting fetch\<close>

type_synonym 'w fetch_state = "snapshot_reply \<times> nat \<times> 'w io"

function fetch_buckets_chunk_bisecting ::
  "('w, 'z) net_scheme \<Rightarrow> nat \<Rightarrow> ustring list \<Rightarrow> hash_domain option \<Rightarrow> nat \<Rightarrow> nat \<Rightarrow> nat \<Rightarrow> nat \<Rightarrow>
     'w fetch_state \<Rightarrow> (window_error + unit) \<times> 'w fetch_state" where
  "fetch_buckets_chunk_bisecting N bits buckets d committed merged_cap lo hi (scratch, scratch_bytes, io0) =
     (case net_post N (bucket_req bits (slice_of buckets lo hi) None d False None) (io_world io0) of
        (HttpOk body, w) \<Rightarrow>
          (let io1 = io0\<lparr>io_world := w\<rparr>
           in case read_capped_counted (json_snapshot N) body RESPONSE_SIZE_CAP of
                Inl e \<Rightarrow> (Inl (Fatal e), (scratch, scratch_bytes, io1))
              | Inr (snapshot, body_len) \<Rightarrow>
                  (case ensure_supported (sn_version snapshot) of
                     Inl e \<Rightarrow> (Inl (Fatal (WireVersion e)), (scratch, scratch_bytes, io1))
                   | Inr _ \<Rightarrow>
                       (let scratch_bytes = saturating_add_usize scratch_bytes body_len
                        in if merged_cap < saturating_add_usize committed scratch_bytes
                           then (Inl (Fatal (MergedTooLarge merged_cap)), (scratch, scratch_bytes, io1))
                           else (Inr (), (merge_reply snapshot scratch, scratch_bytes, io1)))))
      | (HttpStatus code raw, w) \<Rightarrow>
          (let io1 = io0\<lparr>io_world := w\<rparr>
           in if code = 413 then
                (if hi - lo \<le> 1 then
                   (Inl (Fatal (BucketOverBudget (if lo < length buckets then Some (buckets ! lo) else None) bits)),
                    (scratch, scratch_bytes, io1))
                 else
                   (let mid = lo + (hi - lo) div 2
                    in case fetch_buckets_chunk_bisecting N bits buckets d committed merged_cap lo mid (scratch, scratch_bytes, io1) of
                         (Inl e, st) \<Rightarrow> (Inl e, st)
                       | (Inr _, st) \<Rightarrow> fetch_buckets_chunk_bisecting N bits buckets d committed merged_cap mid hi st))
              else (Inl (classify_ureq N (HttpStatus code raw :: http_body http_result)), (scratch, scratch_bytes, io1)))
      | (HttpTransport msg, w) \<Rightarrow>
          (Inl (classify_ureq N (HttpTransport msg :: http_body http_result)), (scratch, scratch_bytes, io0\<lparr>io_world := w\<rparr>)))"
  by pat_completeness auto
termination
  by (relation "measure (\<lambda>(N, bits, buckets, d, committed, merged_cap, lo, hi, st). hi - lo)") auto

declare fetch_buckets_chunk_bisecting.simps [simp del]

section \<open>The streamed fetch\<close>

text \<open>\<open>std::str::from_utf8\<close>: decode one character, and require that it is the one these bytes encode.\<close>

function from_utf8 :: "byte list \<Rightarrow> ustring option" where
  "from_utf8 [] = Some []"
| "from_utf8 (b # bs) =
     (let n = unat b;
          k = (if n < 0xC0 then 0 else if n < 0xE0 then 1 else if n < 0xF0 then 2 else 3);
          lead = (if n < 0x80 then n else if n < 0xE0 then n - 0xC0 else if n < 0xF0 then n - 0xE0 else n - 0xF0);
          c = foldl (\<lambda>c x. c * 64 + unat x mod 64) lead (take k bs)
      in if utf8_code c = map unat (b # take k bs) \<and> scalar c \<and> \<not> (0xD800 \<le> c \<and> c < 0xE000)
         then map_option ((#) c) (from_utf8 (drop k bs)) else None)"
  by pat_completeness auto
termination by (relation "measure length") auto

text \<open>
  \<open>read_stream_line\<close> with the length in bytes of the line returned, which the caller counts.  \<open>net_read n\<close> is
  \<open>read_until\<close> for a newline under \<open>take n\<close>; its error says whether the read timed out.
\<close>

definition strip_eol :: "byte list \<Rightarrow> byte list" where
  "strip_eol buf0 =
     (let buf = (if buf0 \<noteq> [] \<and> last buf0 = 10 then butlast buf0 else buf0)
      in if buf \<noteq> [] \<and> last buf = 13 then butlast buf else buf)"

definition read_stream_line :: "('w, 'z) net_scheme \<Rightarrow> 'w io \<Rightarrow> (window_error + (ustring \<times> nat) option) \<times> 'w io" where
  "read_stream_line N io0 =
     (case net_read N (MAX_STREAM_LINE_BYTES + 1) (io_world io0) of
        (Inl timed_out, w) \<Rightarrow>
          (Inl (Retryable (if timed_out then Timeout else Disconnect) LineUnreadable), io0\<lparr>io_world := w\<rparr>)
      | (Inr buf, w) \<Rightarrow>
          (if buf = [] then Inr None
           else if MAX_STREAM_LINE_BYTES < length buf \<and> last buf \<noteq> 10 then Inl (Fatal LineTooLong)
           else (case from_utf8 (strip_eol buf) of
                   None \<Rightarrow> Inl (Fatal LineNotUtf8)
                 | Some line \<Rightarrow> Inr (Some (line, length (strip_eol buf)))),
           io0\<lparr>io_world := w\<rparr>))"

text \<open>How the row loop of one response ends.\<close>

datatype row_end = RowsDone | RowsMore ustring | RowsEof

partial_function (option) stream_rows ::
  "('w, 'z) net_scheme \<Rightarrow> nat \<Rightarrow> nat \<Rightarrow> nat \<Rightarrow> nat \<Rightarrow> snapshot_reply \<Rightarrow> nat \<Rightarrow> nat \<Rightarrow> 'w io \<Rightarrow>
     ((window_error + row_end) \<times> snapshot_reply \<times> nat \<times> nat \<times> 'w io) option" where
  "stream_rows N deadline committed merged_cap merged_hashes scratch scratch_bytes running_tags io0 =
     (case read_stream_line N io0 of
        (Inl e, io1) \<Rightarrow> Some (Inl e, scratch, scratch_bytes, running_tags, io1)
      | (Inr None, io1) \<Rightarrow> Some (Inr RowsEof, scratch, scratch_bytes, running_tags, io1)
      | (Inr (Some (line, row_bytes)), io1) \<Rightarrow>
          (case json_line N line of
             None \<Rightarrow> Some (Inl (Fatal (BadLine line)), scratch, scratch_bytes, running_tags, io1)
           | Some (Row h t) \<Rightarrow>
               (let scratch_bytes = saturating_add_usize scratch_bytes row_bytes
                in if merged_cap < saturating_add_usize committed scratch_bytes
                   then Some (Inl (Fatal (MergedTooLarge merged_cap)), scratch, scratch_bytes, running_tags, io1)
                   else
                     (let scratch = scratch\<lparr>sn_tags := extend_entry h t (sn_tags scratch)\<rparr>;
                          running_tags = running_tags + length t;
                          io1 = on_phase (RowReceived (merged_hashes + length (sn_tags scratch)) running_tags) io1
                      in if deadline < net_now N (io_world io1)
                         then Some (Inl (Retryable Timeout StreamDeadline), scratch, scratch_bytes, running_tags, io1)
                         else stream_rows N deadline committed merged_cap merged_hashes scratch scratch_bytes running_tags io1))
           | Some (Trailer trailer) \<Rightarrow>
               (case trailer of
                  Done finished \<Rightarrow>
                    Some (if finished then Inr RowsDone else Inl (Fatal NotDone), scratch, scratch_bytes, running_tags, io1)
                | More k \<Rightarrow>
                    Some (if deadline < net_now N (io_world io1) then Inl (Retryable Timeout StreamDeadline) else Inr (RowsMore k),
                          scratch, scratch_bytes, running_tags, io1)
                | Err m \<Rightarrow> Some (Inl (Fatal (StreamFailed m)), scratch, scratch_bytes, running_tags, io1))))"

text \<open>The header line of a response.\<close>

definition stream_header :: "('w, 'z) net_scheme \<Rightarrow> 'w io \<Rightarrow> (window_error + nat) \<times> 'w io" where
  "stream_header N io0 =
     (case read_stream_line N io0 of
        (Inl e, io1) \<Rightarrow> (Inl e, io1)
      | (Inr None, io1) \<Rightarrow> (Inl (Retryable Truncation NoHeader), io1)
      | (Inr (Some (line, _)), io1) \<Rightarrow>
          ((case json_header N line of
              None \<Rightarrow> Inl (Fatal (case json_trailer N line of Some (Err m) \<Rightarrow> HeaderError m | _ \<Rightarrow> BadHeader line))
            | Some (version, cursor) \<Rightarrow>
                (case ensure_supported version of Inl e \<Rightarrow> Inl (Fatal (WireVersion e)) | Inr _ \<Rightarrow> Inr cursor)), io1))"

partial_function (option) stream_loop ::
  "('w, 'z) net_scheme \<Rightarrow> nat \<Rightarrow> ustring list \<Rightarrow> hash_domain option \<Rightarrow> nat \<Rightarrow> nat \<Rightarrow> nat \<Rightarrow> nat \<Rightarrow>
     ustring option \<Rightarrow> snapshot_reply \<Rightarrow> nat \<Rightarrow> nat \<Rightarrow> 'w io \<Rightarrow> ((window_error + unit) \<times> 'w fetch_state) option" where
  "stream_loop N bits keys d deadline committed merged_cap merged_hashes resume_at scratch scratch_bytes running_tags io0 =
     (case net_open N (bucket_req bits keys None d True resume_at) (io_world io0) of
        (HttpStatus code raw, w) \<Rightarrow>
          Some (Inl (classify_ureq N (HttpStatus code raw :: unit http_result)), scratch, scratch_bytes, io0\<lparr>io_world := w\<rparr>)
      | (HttpTransport msg, w) \<Rightarrow>
          Some (Inl (classify_ureq N (HttpTransport msg :: unit http_result)), scratch, scratch_bytes, io0\<lparr>io_world := w\<rparr>)
      | (HttpOk _, w) \<Rightarrow>
          (case stream_header N (io0\<lparr>io_world := w\<rparr>) of
             (Inl e, io1) \<Rightarrow> Some (Inl e, scratch, scratch_bytes, io1)
           | (Inr cursor, io1) \<Rightarrow>
               Option.bind
                 (stream_rows N deadline committed merged_cap merged_hashes
                   (scratch\<lparr>sn_cursor := min (sn_cursor scratch) cursor\<rparr>) scratch_bytes running_tags io1)
                 (\<lambda>(r, scratch, scratch_bytes, running_tags, io2).
                    case r of
                      Inl e \<Rightarrow> Some (Inl e, scratch, scratch_bytes, io2)
                    | Inr RowsDone \<Rightarrow> Some (Inr (), scratch, scratch_bytes, io2)
                    | Inr RowsEof \<Rightarrow> Some (Inl (Retryable Truncation StreamTruncated), scratch, scratch_bytes, io2)
                    | Inr (RowsMore k) \<Rightarrow>
                        stream_loop N bits keys d deadline committed merged_cap merged_hashes (Some k)
                          scratch scratch_bytes running_tags io2)))"

definition fetch_buckets_streaming ::
  "('w, 'z) net_scheme \<Rightarrow> nat \<Rightarrow> ustring list \<Rightarrow> hash_domain option \<Rightarrow> nat \<Rightarrow> nat \<Rightarrow> nat \<Rightarrow> nat \<Rightarrow> nat \<Rightarrow> nat \<Rightarrow>
     'w fetch_state \<Rightarrow> ((window_error + unit) \<times> 'w fetch_state) option" where
  "fetch_buckets_streaming N bits buckets d committed merged_cap merged_hashes merged_tags lo hi st =
     (case st of (scratch, scratch_bytes, io0) \<Rightarrow>
        stream_loop N bits (slice_of buckets lo hi) d (net_now N (io_world io0) + STREAM_OVERALL_TIMEOUT)
          committed merged_cap merged_hashes None scratch scratch_bytes (merged_tags + tag_total (sn_tags scratch)) io0)"

section \<open>The shrink-and-retry loop\<close>

text \<open>One attempt on a window, into an empty scratch reply.\<close>

definition fetch_attempt ::
  "('w, 'z) net_scheme \<Rightarrow> nat \<Rightarrow> ustring list \<Rightarrow> hash_domain option \<Rightarrow> nat \<Rightarrow> bool \<Rightarrow> snapshot_reply \<Rightarrow> nat \<Rightarrow>
     nat \<Rightarrow> nat \<Rightarrow> 'w io \<Rightarrow> ((window_error + unit) \<times> 'w fetch_state) option" where
  "fetch_attempt N bits buckets d merged_cap stream merged cumulative start e io0 =
     (if stream then
        fetch_buckets_streaming N bits buckets d cumulative merged_cap (length (sn_tags merged)) (tag_total (sn_tags merged))
          start e (empty_reply, 0, io0)
      else Some (fetch_buckets_chunk_bisecting N bits buckets d cumulative merged_cap start e (empty_reply, 0, io0)))"

text \<open>
  The state machine of one window.  On success it returns the merged reply and byte count, the time and bytes
  of the attempt, whether it was a retry, and the size and end of the window that worked.
\<close>

record window_result =
  wr_merged :: snapshot_reply
  wr_cumulative :: nat
  wr_request_ms :: nat
  wr_chunk_bytes :: nat
  wr_retried :: bool
  wr_window :: nat
  wr_end :: nat

lemma window_end_le_start: "window_end buckets since start budget w \<le> start + max w 1"
proof (cases "window_scan (per_entry buckets since) (budget - BUCKET_REQUEST_ENVELOPE) start
      (min (saturating_add_usize start w) (length buckets)) start 0")
  case None
  then show ?thesis using saturating_add_le [of start w] by (simp add: window_end_def Let_def)
next
  case (Some i)
  then show ?thesis using saturating_add_le [of start w] window_scan_range [OF Some] by (simp add: window_end_def Let_def)
qed

function retry_loop ::
  "('w, 'z) net_scheme \<Rightarrow> nat \<Rightarrow> ustring list \<Rightarrow> hash_domain option \<Rightarrow> nat \<Rightarrow> bool \<Rightarrow> snapshot_reply \<Rightarrow> nat \<Rightarrow> nat \<Rightarrow>
     nat \<Rightarrow> nat \<Rightarrow> nat \<Rightarrow> nat \<Rightarrow> 'w io \<Rightarrow> ((fetch_error + window_result) \<times> 'w io) option" where
  "retry_loop N bits buckets d merged_cap stream merged cumulative start attempt floor_failures e window_size io0 =
     (let total = length buckets;
          io1 = on_phase (RequestSent start total window_size) io0;
          req_start = net_now N (io_world io1)
      in case fetch_attempt N bits buckets d merged_cap stream merged cumulative start e io1 of
           None \<Rightarrow> None
         | Some (Inr _, scratch, scratch_bytes, io2) \<Rightarrow>
             Some (Inr \<lparr>wr_merged = merge_reply scratch merged,
                        wr_cumulative = saturating_add_usize cumulative scratch_bytes,
                        wr_request_ms = net_now N (io_world io2) - req_start, wr_chunk_bytes = scratch_bytes,
                        wr_retried = (0 < attempt), wr_window = window_size, wr_end = e\<rparr>, io2)
         | Some (Inl (Fatal err), scratch, scratch_bytes, io2) \<Rightarrow> Some (Inl err, io2)
         | Some (Inl (Retryable reason err), scratch, scratch_bytes, io2) \<Rightarrow>
             (if window_size \<le> MIN_WINDOW then
                (let floor_failures = floor_failures + 1;
                     io3 = on_phase (WindowRetry start total window_size window_size attempt reason) io2
                 in if FLOOR_RETRY_LIMIT \<le> floor_failures
                    then Some (Inl (FloorExhausted bits window_size start total (length (sn_tags merged)) err), io3)
                    else retry_loop N bits buckets d merged_cap stream merged cumulative start (attempt + 1) floor_failures e
                           window_size (io3\<lparr>io_world := net_sleep N (retry_backoff (attempt + 1)) (io_world io3)\<rparr>))
              else
                (let w_new = max (window_size div 2) MIN_WINDOW;
                     e' = window_end buckets None start BUCKET_REQUEST_BODY_BUDGET w_new;
                     io3 = on_phase (WindowRetry start total window_size (e' - start) attempt reason) io2
                 in retry_loop N bits buckets d merged_cap stream merged cumulative start (attempt + 1) floor_failures e'
                      (e' - start) (io3\<lparr>io_world := net_sleep N (retry_backoff (attempt + 1)) (io_world io3)\<rparr>))))"
  by pat_completeness auto
termination
proof (relation "measure (\<lambda>(N, bits, buckets, d, merged_cap, stream, merged, cumulative, start, attempt, floor_failures, e,
    window_size, io0). window_size + (FLOOR_RETRY_LIMIT - floor_failures))", goal_cases)
  case (3 N bits buckets d merged_cap stream merged cumulative start attempt floor_failures e window_size)
  have "window_end buckets None start BUCKET_REQUEST_BODY_BUDGET (max (window_size div 2) MIN_WINDOW) - start
      \<le> max (max (window_size div 2) MIN_WINDOW) 1"
    using window_end_le_start [of buckets None start BUCKET_REQUEST_BODY_BUDGET "max (window_size div 2) MIN_WINDOW"] by linarith
  also have "\<dots> < window_size" using 3 by (auto simp: MIN_WINDOW_def)
  finally show ?case using 3 by simp
qed (auto simp: not_le)

declare retry_loop.simps [simp del]

text \<open>
  The rule of the loop: an invariant of the window and the world, kept by every retry, gives the
  postcondition of whatever the loop returns.
\<close>

lemma retry_loop_rule:
  assumes "retry_loop N bits buckets d merged_cap stream merged cumulative start attempt floor_failures e window_size io0 = Some (res, io')"
    and "I e window_size io0"
    and ok: "\<And>(attempt :: nat) e ws io0 scratch sb io2. I e ws io0 \<Longrightarrow>
        fetch_attempt N bits buckets d merged_cap stream merged cumulative start e
          (on_phase (RequestSent start (length buckets) ws) io0) = Some (Inr (), scratch, sb, io2) \<Longrightarrow>
        Q (Inr \<lparr>wr_merged = merge_reply scratch merged, wr_cumulative = saturating_add_usize cumulative sb,
            wr_request_ms = net_now N (io_world io2) - net_now N (io_world io0), wr_chunk_bytes = sb,
            wr_retried = (0 < attempt), wr_window = ws, wr_end = e\<rparr>) io2"
    and fatal: "\<And>e ws io0 err st io2. I e ws io0 \<Longrightarrow>
        fetch_attempt N bits buckets d merged_cap stream merged cumulative start e
          (on_phase (RequestSent start (length buckets) ws) io0) = Some (Inl (Fatal err), fst st, snd st, io2) \<Longrightarrow> Q (Inl err) io2"
    and exhausted: "\<And>e ws io0 reason err st io2 attempt. I e ws io0 \<Longrightarrow>
        fetch_attempt N bits buckets d merged_cap stream merged cumulative start e
          (on_phase (RequestSent start (length buckets) ws) io0) = Some (Inl (Retryable reason err), fst st, snd st, io2) \<Longrightarrow>
        ws \<le> MIN_WINDOW \<Longrightarrow>
        Q (Inl (FloorExhausted bits ws start (length buckets) (length (sn_tags merged)) err))
          (on_phase (WindowRetry start (length buckets) ws ws attempt reason) io2)"
    and again: "\<And>e ws io0 reason err st io2 attempt e' ws'. I e ws io0 \<Longrightarrow>
        fetch_attempt N bits buckets d merged_cap stream merged cumulative start e
          (on_phase (RequestSent start (length buckets) ws) io0) = Some (Inl (Retryable reason err), fst st, snd st, io2) \<Longrightarrow>
        e' = e \<and> ws' = ws \<and> ws \<le> MIN_WINDOW \<or>
          e' = window_end buckets None start BUCKET_REQUEST_BODY_BUDGET (max (ws div 2) MIN_WINDOW) \<and> ws' = e' - start \<and> MIN_WINDOW < ws \<Longrightarrow>
        I e' ws' ((on_phase (WindowRetry start (length buckets) ws ws' attempt reason) io2)
          \<lparr>io_world := net_sleep N (retry_backoff (attempt + 1)) (io_world io2)\<rparr>)"
  shows "Q res io'"
  using assms(1,2)
proof (induction "window_size + (FLOOR_RETRY_LIMIT - floor_failures)" arbitrary: attempt floor_failures e window_size io0
    rule: less_induct)
  case less
  let ?run = "retry_loop N bits buckets d merged_cap stream merged cumulative start"
  let ?io1 = "on_phase (RequestSent start (length buckets) window_size) io0"
  have world: "io_world ?io1 = io_world io0" "io_world (on_phase p io2) = io_world io2" for p and io2 :: "'a io"
    by (simp_all add: on_phase_def)
  note step = less.prems(1) [unfolded retry_loop.simps [of N bits buckets d merged_cap stream merged cumulative start attempt
        floor_failures e window_size io0] Let_def world]
  show ?case
  proof (cases "fetch_attempt N bits buckets d merged_cap stream merged cumulative start e ?io1")
    case None
    then show ?thesis using step by simp
  next
    case (Some a)
    obtain result scratch sb io2 where a: "a = (result, scratch, sb, io2)" by (rule prod_cases4)
    note at = Some [unfolded a]
    show ?thesis
    proof (cases result)
      case (Inr u)
      then have unit: "result = Inr ()" by simp
      note fin = ok [OF less.prems(2) at [unfolded unit], of attempt]
      have "res = Inr \<lparr>wr_merged = merge_reply scratch merged, wr_cumulative = saturating_add_usize cumulative sb,
            wr_request_ms = net_now N (io_world io2) - net_now N (io_world io0), wr_chunk_bytes = sb,
            wr_retried = (0 < attempt), wr_window = window_size, wr_end = e\<rparr>" "io' = io2" using step unfolding at unit by auto
      then show ?thesis using fin by (simp only:)
    next
      case (Inl w)
      show ?thesis
      proof (cases w)
        case (Fatal err)
        then show ?thesis using step at Inl fatal [OF less.prems(2), of err "(scratch, sb)" io2] by auto
      next
        case (Retryable reason err)
        note at2 = at [unfolded Inl Retryable]
        note next_inv = again [OF less.prems(2), of reason err "(scratch, sb)" io2, simplified, OF at2]
        show ?thesis
        proof (cases "window_size \<le> MIN_WINDOW")
          case True
          show ?thesis
          proof (cases "FLOOR_RETRY_LIMIT \<le> floor_failures + 1")
            case limit: True
            then show ?thesis using step at2 True exhausted [OF less.prems(2), of reason err "(scratch, sb)" io2] by auto
          next
            case False
            have "?run (attempt + 1) (floor_failures + 1) e window_size
                ((on_phase (WindowRetry start (length buckets) window_size window_size attempt reason) io2)
                  \<lparr>io_world := net_sleep N (retry_backoff (attempt + 1)) (io_world io2)\<rparr>) = Some (res, io')"
              using step at2 True False by simp
            then show ?thesis using False True next_inv by (intro less.hyps) auto
          qed
        next
          case False
          let ?w = "max (window_size div 2) MIN_WINDOW"
          let ?e = "window_end buckets None start BUCKET_REQUEST_BODY_BUDGET ?w"
          have "?run (attempt + 1) floor_failures ?e (?e - start)
              ((on_phase (WindowRetry start (length buckets) window_size (?e - start) attempt reason) io2)
                \<lparr>io_world := net_sleep N (retry_backoff (attempt + 1)) (io_world io2)\<rparr>) = Some (res, io')"
            using step at2 False by simp
          moreover have "?e - start < window_size"
            using window_end_le_start [of buckets None start BUCKET_REQUEST_BODY_BUDGET ?w] False by (auto simp: MIN_WINDOW_def)
          ultimately show ?thesis using False next_inv by (intro less.hyps) auto
        qed
      qed
    qed
  qed
qed

lemma retry_loop_end:
  "retry_loop N bits buckets d merged_cap stream merged cumulative start attempt floor_failures e window_size io0 =
      Some (Inr r, io') \<Longrightarrow> start < e \<Longrightarrow> start < wr_end r"
  by (drule retry_loop_rule [where I = "\<lambda>e ws io. start < e" and Q = "\<lambda>res io. \<forall>r. res = Inr r \<longrightarrow> start < wr_end r"])
    (auto simp: window_end_gt)

text \<open>The loop returns whenever every attempt does.\<close>

lemma retry_loop_returns:
  assumes "\<And>e io0. fetch_attempt N bits buckets d merged_cap stream merged cumulative start e io0 \<noteq> None"
  shows "retry_loop N bits buckets d merged_cap stream merged cumulative start attempt floor_failures e window_size io0 \<noteq> None"
proof (induction "window_size + (FLOOR_RETRY_LIMIT - floor_failures)" arbitrary: attempt floor_failures e window_size io0
    rule: less_induct)
  case less
  have "window_end buckets None start BUCKET_REQUEST_BODY_BUDGET (max (window_size div 2) MIN_WINDOW) - start < window_size"
    if "\<not> window_size \<le> MIN_WINDOW"
    using window_end_le_start [of buckets None start BUCKET_REQUEST_BODY_BUDGET "max (window_size div 2) MIN_WINDOW"] that
    by (auto simp: MIN_WINDOW_def)
  then show ?case
    using assms less.hyps
    by (subst retry_loop.simps) (auto simp: Let_def split: option.split prod.split sum.split window_error.split)
qed

section \<open>The adaptive walk\<close>

text \<open>The next window after one that worked, from the size issued and the time it took.\<close>

definition next_window :: "nat \<Rightarrow> window_result \<Rightarrow> nat" where
  "next_window w r =
     (if wr_retried r then max (wr_window r) MIN_WINDOW
      else if WINDOW_SLOW_MS < wr_request_ms r then max (wr_window r div 2) MIN_WINDOW
      else if wr_request_ms r < WINDOW_FAST_MS then saturating_add_usize w MIN_WINDOW
      else w)"

function pull_loop ::
  "('w, 'z) net_scheme \<Rightarrow> nat \<Rightarrow> ustring list \<Rightarrow> hash_domain option \<Rightarrow> nat \<Rightarrow> bool \<Rightarrow>
     nat \<Rightarrow> nat \<Rightarrow> snapshot_reply \<Rightarrow> nat \<Rightarrow> 'w io \<Rightarrow> ((fetch_error + snapshot_reply) \<times> 'w io) option" where
  "pull_loop N bits buckets d merged_cap stream w start merged cumulative io0 =
     (let total = length buckets;
          e = (if total = 0 then 0 else window_end buckets None start BUCKET_REQUEST_BODY_BUDGET (max w MIN_WINDOW))
      in case retry_loop N bits buckets d merged_cap stream merged cumulative start 0 0 e (e - start) io0 of
           None \<Rightarrow> None
         | Some (Inl err, io1) \<Rightarrow> Some (Inl err, io1)
         | Some (Inr r, io1) \<Rightarrow>
             (let merged = wr_merged r;
                  io2 = on_phase (ChunkReceived (start + wr_window r) total (wr_window r) (wr_chunk_bytes r) (wr_cumulative r)
                    (length (sn_tags merged)) (tag_total (sn_tags merged)) (wr_request_ms r)) io1;
                  w = (if 0 < total then next_window w r else w)
              in if total = 0 \<or> total \<le> wr_end r then Some (Inr merged, io2)
                 else pull_loop N bits buckets d merged_cap stream w (wr_end r) merged (wr_cumulative r) io2))"
  by pat_completeness auto
termination
proof (relation "measure (\<lambda>(N, bits, buckets, d, merged_cap, stream, w, start, merged, cumulative, io0). length buckets - start)",
    goal_cases)
  case (2 N bits buckets d merged_cap stream w start merged cumulative io0 x xa x2 xaa y b)
  let ?e = "window_end buckets None start BUCKET_REQUEST_BODY_BUDGET (max w MIN_WINDOW)"
  have ne: "length buckets \<noteq> 0" and lt: "\<not> length buckets \<le> wr_end b" using 2 by blast+
  have run: "retry_loop N bits buckets d merged_cap stream merged cumulative start 0 0 ?e (?e - start) io0 = Some (Inr b, y)"
    using 2(1-5) ne by (simp only: if_False)
  have "start < wr_end b" by (rule retry_loop_end [OF run window_end_gt])
  then show ?case using lt by simp
qed simp

declare pull_loop.simps [simp del]

text \<open>
  \<open>fetch_buckets_inner\<close>.  The first window \<open>w0\<close> is a parameter: the code computes it in floating point from the
  latency hint, and \<open>usize::MAX\<close> without one.
\<close>

definition fetch_buckets_inner ::
  "('w, 'z) net_scheme \<Rightarrow> nat \<Rightarrow> ustring list \<Rightarrow> hash_domain option \<Rightarrow> nat \<Rightarrow> nat \<Rightarrow> bool \<Rightarrow> 'w io \<Rightarrow>
     ((fetch_error + snapshot_reply) \<times> 'w io) option" where
  "fetch_buckets_inner N bits buckets d merged_cap w0 stream io0 =
     pull_loop N bits buckets d merged_cap stream w0 0 empty_reply 0 io0"

definition fetch_buckets_in ::
  "('w, 'z) net_scheme \<Rightarrow> nat \<Rightarrow> ustring list \<Rightarrow> hash_domain option \<Rightarrow> nat \<Rightarrow> bool \<Rightarrow> 'w io \<Rightarrow>
     ((fetch_error + snapshot_reply) \<times> 'w io) option" where
  "fetch_buckets_in N bits buckets d w0 stream io0 =
     fetch_buckets_inner N bits buckets d MERGED_RESPONSE_SIZE_CAP w0 stream io0"

section \<open>The delta fetch\<close>

type_synonym 'w delta_state = "mapping_delta \<times> nat \<times> 'w io"

function fetch_bucket_delta_chunk_bisecting ::
  "('w, 'z) net_scheme \<Rightarrow> nat \<Rightarrow> ustring list \<Rightarrow> nat list \<Rightarrow> hash_domain option \<Rightarrow> nat \<Rightarrow> nat \<Rightarrow> nat \<Rightarrow>
     'w delta_state \<Rightarrow> (fetch_error + unit) \<times> 'w delta_state" where
  "fetch_bucket_delta_chunk_bisecting N bits buckets since d merged_cap lo hi (merged, cumulative, io0) =
     (let req = bucket_req bits (slice_of buckets lo hi)
            (Some (if hi \<le> length since then slice_of since lo hi else since)) d False None
      in case net_post N req (io_world io0) of
           (HttpOk body, w) \<Rightarrow>
             (let io1 = io0\<lparr>io_world := w\<rparr>
              in case read_capped_counted (json_delta N) body RESPONSE_SIZE_CAP of
                   Inl e \<Rightarrow> (Inl e, (merged, cumulative, io1))
                 | Inr (delta, body_len) \<Rightarrow>
                     (case ensure_supported (md_version delta) of
                        Inl e \<Rightarrow> (Inl (WireVersion e), (merged, cumulative, io1))
                      | Inr _ \<Rightarrow>
                          (let cumulative = saturating_add_usize cumulative body_len
                           in if merged_cap < cumulative then (Inl (MergedTooLarge merged_cap), (merged, cumulative, io1))
                              else (Inr (), (merged\<lparr>md_cursor := min (md_cursor merged) (md_cursor delta),
                                                   md_changes := md_changes merged @ md_changes delta\<rparr>, cumulative, io1)))))
         | (HttpStatus code raw, w) \<Rightarrow>
             (let io1 = io0\<lparr>io_world := w\<rparr>
              in if code = 413 then
                   (if hi - lo \<le> 1 then
                      (Inl (BucketOverBudget (if lo < length buckets then Some (buckets ! lo) else None) bits),
                       (merged, cumulative, io1))
                    else
                      (let mid = lo + (hi - lo) div 2
                       in case fetch_bucket_delta_chunk_bisecting N bits buckets since d merged_cap lo mid (merged, cumulative, io1) of
                            (Inl e, st) \<Rightarrow> (Inl e, st)
                          | (Inr _, st) \<Rightarrow> fetch_bucket_delta_chunk_bisecting N bits buckets since d merged_cap mid hi st))
                 else (Inl (status_err (HttpStatus code raw :: http_body http_result)), (merged, cumulative, io1)))
         | (HttpTransport msg, w) \<Rightarrow>
             (Inl (status_err (HttpTransport msg :: http_body http_result)), (merged, cumulative, io0\<lparr>io_world := w\<rparr>)))"
  by pat_completeness auto
termination
  by (relation "measure (\<lambda>(N, bits, buckets, since, d, merged_cap, lo, hi, st). hi - lo)") auto

declare fetch_bucket_delta_chunk_bisecting.simps [simp del]

fun delta_chunks ::
  "('w, 'z) net_scheme \<Rightarrow> nat \<Rightarrow> ustring list \<Rightarrow> nat list \<Rightarrow> hash_domain option \<Rightarrow> nat \<Rightarrow> (nat \<times> nat) list \<Rightarrow>
     'w delta_state \<Rightarrow> (fetch_error + unit) \<times> 'w delta_state" where
  "delta_chunks N bits buckets since d merged_cap [] st = (Inr (), st)"
| "delta_chunks N bits buckets since d merged_cap ((lo, hi) # chunks) st =
     (case fetch_bucket_delta_chunk_bisecting N bits buckets since d merged_cap lo hi st of
        (Inl e, st') \<Rightarrow> (Inl e, st')
      | (Inr _, st') \<Rightarrow> delta_chunks N bits buckets since d merged_cap chunks st')"

definition fetch_bucket_delta_inner ::
  "('w, 'z) net_scheme \<Rightarrow> nat \<Rightarrow> ustring list \<Rightarrow> nat list \<Rightarrow> hash_domain option \<Rightarrow> nat \<Rightarrow> 'w io \<Rightarrow>
     (fetch_error + mapping_delta) \<times> 'w io" where
  "fetch_bucket_delta_inner N bits buckets since d merged_cap io0 =
     (case delta_chunks N bits buckets since d merged_cap (bucket_chunks buckets (Some since) BUCKET_REQUEST_BODY_BUDGET)
         (\<lparr>md_version = PROTOCOL_VERSION, md_cursor = 2 ^ 64 - 1, md_changes = []\<rparr>, 0, io0) of
        (Inl e, (merged, cumulative, io1)) \<Rightarrow> (Inl e, io1)
      | (Inr _, (merged, cumulative, io1)) \<Rightarrow> (Inr merged, io1))"

definition fetch_bucket_delta_in ::
  "('w, 'z) net_scheme \<Rightarrow> nat \<Rightarrow> ustring list \<Rightarrow> nat list \<Rightarrow> hash_domain option \<Rightarrow> 'w io \<Rightarrow>
     (fetch_error + mapping_delta) \<times> 'w io" where
  "fetch_bucket_delta_in N bits buckets since d io0 =
     fetch_bucket_delta_inner N bits buckets since d MERGED_RESPONSE_SIZE_CAP io0"

end
