(* ===== verification/NetPullSpec.thy ===== *)
theory NetPullSpec
  imports NetPull
begin

text \<open>
  What the pull loops of \<open>NetPull\<close> keep.  The locales say what a client may expect of a server (the
  reply to a request depends only on the buckets asked for); their lemmas show that windows, retries
  and bisections merge exactly that, and that every run returns.
\<close>

section \<open>Merging\<close>

lemma get_vec_extend_entry: "get_vec (extend_entry k vs m) k' = (if k' = k then get_vec m k @ vs else get_vec m k')"
  by (simp add: extend_entry_def get_vec_def)

lemma keyed_extend_tags [simp]: "keyed old \<Longrightarrow> keyed (extend_tags new old)"
  unfolding extend_tags_def by (induction new arbitrary: old) (auto simp: extend_entry_def)

lemma get_vec_extend_tags: "keyed new \<Longrightarrow> get_vec (extend_tags new old) k = get_vec old k @ get_vec new k"
proof (induction new arbitrary: old)
  case (Cons kv new)
  obtain k' vs where kv: "kv = (k', vs)" by fastforce
  have "keyed new" "k' \<notin> fst ` set new" using Cons.prems by (auto simp: keyed_def kv)
  then have "map_of new k' = None" by (simp add: map_of_eq_None_iff)
  then have "get_vec new k' = []" by (simp add: get_vec_def)
  have "extend_tags (kv # new) old = extend_tags new (extend_entry k' vs old)" by (simp add: extend_tags_def kv)
  then show ?case using Cons.IH [OF \<open>keyed new\<close>] \<open>get_vec new k' = []\<close>
    by (auto simp: get_vec_extend_entry kv) (simp add: get_vec_def)+
qed (simp add: extend_tags_def)

lemma slice_of_split: "lo \<le> mid \<Longrightarrow> mid \<le> hi \<Longrightarrow> slice_of xs lo hi = slice_of xs lo mid @ slice_of xs mid hi"
proof -
  assume "lo \<le> mid" "mid \<le> hi"
  then have "hi - lo = (mid - lo) + (hi - mid)" "drop mid xs = drop (mid - lo) (drop lo xs)" by simp_all
  then show ?thesis unfolding slice_of_def by (simp only: take_add)
qed

lemma slice_of_all: "slice_of xs 0 (length xs) = xs"
  by (simp add: slice_of_def)

lemma set_slice: "set (slice_of xs lo hi) \<subseteq> set xs"
  by (auto simp: slice_of_def dest: in_set_takeD in_set_dropD)

lemma slice_disjoint:
  assumes "distinct xs" "lo \<le> mid" "mid \<le> hi"
  shows "set (slice_of xs lo mid) \<inter> set (slice_of xs mid hi) = {}"
proof -
  have "distinct (slice_of xs lo hi)" using assms(1) by (simp add: slice_of_def)
  then show ?thesis unfolding slice_of_split [OF assms(2,3)] by simp
qed

section \<open>What a pull relies on\<close>

text \<open>
  The contract of \<open>POST /repo/buckets\<close> without \<open>since\<close>: whatever else happens, a reply that
  decodes lists, for every hash whose bucket was asked for, exactly \<open>view\<close> of that hash, and
  nothing for the others; its cursor lies in a range, which is a point when the repository does
  not change.
\<close>

locale bucket_server =
  fixes N :: "'w net" and req_ok :: "bucket_request \<Rightarrow> bool"
    and bucket_of :: "ustring \<Rightarrow> ustring" and view :: "ustring \<Rightarrow> origin_tag list" and c_lo c_hi :: nat
  assumes reply_keyed: "br_since r = None \<Longrightarrow> req_ok r \<Longrightarrow> net_post N r w = (HttpOk body, w') \<Longrightarrow>
      read_capped_counted (json_snapshot N) body RESPONSE_SIZE_CAP = Inr (sn, len) \<Longrightarrow> keyed (sn_tags sn)"
    and reply_view: "br_since r = None \<Longrightarrow> req_ok r \<Longrightarrow> net_post N r w = (HttpOk body, w') \<Longrightarrow>
      read_capped_counted (json_snapshot N) body RESPONSE_SIZE_CAP = Inr (sn, len) \<Longrightarrow>
      get_vec (sn_tags sn) h = (if bucket_of h \<in> set (br_buckets r) then view h else [])"
    and reply_cursor: "br_since r = None \<Longrightarrow> req_ok r \<Longrightarrow> net_post N r w = (HttpOk body, w') \<Longrightarrow>
      read_capped_counted (json_snapshot N) body RESPONSE_SIZE_CAP = Inr (sn, len) \<Longrightarrow> c_lo \<le> sn_cursor sn \<and> sn_cursor sn \<le> c_hi"
begin

definition covers :: "ustring list \<Rightarrow> snapshot_reply \<Rightarrow> snapshot_reply \<Rightarrow> bool" where
  "covers keys old new \<longleftrightarrow>
     (\<forall>h. get_vec (sn_tags new) h = get_vec (sn_tags old) h @ (if bucket_of h \<in> set keys then view h else [])) \<and>
     (keyed (sn_tags old) \<longrightarrow> keyed (sn_tags new)) \<and>
     (c_lo \<le> sn_cursor old \<longrightarrow> c_lo \<le> sn_cursor new) \<and> sn_cursor new \<le> c_hi"

lemma covers_trans:
  assumes "covers ks a b" "covers ls b c" "set ks \<inter> set ls = {}"
  shows "covers (ks @ ls) a c"
  using assms by (auto simp: covers_def)

lemma merge_covers:
  assumes "covers ks empty_reply new" "c_lo \<le> 2 ^ 64 - 1"
  shows "covers ks old (merge_reply new old)"
proof -
  have "keyed (sn_tags new)" using assms(1) by (simp add: covers_def empty_reply_def)
  then show ?thesis using assms by (auto simp: covers_def merge_reply_def get_vec_extend_tags empty_reply_def)
qed

lemma bisecting_covers:
  "fetch_buckets_chunk_bisecting N bits buckets d committed merged_cap lo hi (scratch, sb, io0) = (Inr (), (scratch', sb', io')) \<Longrightarrow>
    distinct buckets \<Longrightarrow> lo \<le> hi \<Longrightarrow> \<forall>keys. set keys \<subseteq> set buckets \<longrightarrow> req_ok (bucket_req bits keys None d False None) \<Longrightarrow> covers (slice_of buckets lo hi) scratch scratch'"
proof (induction "hi - lo" arbitrary: lo hi scratch sb io0 scratch' sb' io' rule: less_induct)
  case less
  let ?req = "bucket_req bits (slice_of buckets lo hi) None d False None"
  have req: "br_since ?req = None" "req_ok ?req" "br_buckets ?req = slice_of buckets lo hi"
    using less.prems(4) set_slice [of buckets lo hi] by (simp_all add: bucket_req_def)
  obtain res w where post: "net_post N ?req (io_world io0) = (res, w)" by fastforce
  note run = less.prems(1) [unfolded fetch_buckets_chunk_bisecting.simps [of N bits buckets d committed merged_cap lo hi] post]
  show ?case
  proof (cases res)
    case (HttpOk body)
    obtain sn len where sn: "read_capped_counted (json_snapshot N) body RESPONSE_SIZE_CAP = Inr (sn, len)"
      "scratch' = merge_reply sn scratch"
      using run by (auto simp: HttpOk Let_def split: sum.splits if_splits)
    note post' = post [unfolded HttpOk]
    show ?thesis
      using reply_view [OF req(1,2) post' sn(1)] reply_cursor [OF req(1,2) post' sn(1)] reply_keyed [OF req(1,2) post' sn(1)]
      by (auto simp: covers_def sn(2) merge_reply_def get_vec_extend_tags req(3))
  next
    case (HttpStatus code raw)
    let ?mid = "lo + (hi - lo) div 2"
    have big: "code = 413" "\<not> hi - lo \<le> 1"
      using run by (auto simp: HttpStatus Let_def classify_ureq_def split: if_splits)
    obtain res1 st1 where first: "fetch_buckets_chunk_bisecting N bits buckets d committed merged_cap lo ?mid
        (scratch, sb, io0\<lparr>io_world := w\<rparr>) = (res1, st1)" by (metis surj_pair)
    obtain sc1 sb1 io1 where st1: "st1 = (sc1, sb1, io1)" by (rule prod_cases3)
    have ok: "res1 = Inr ()" and second: "fetch_buckets_chunk_bisecting N bits buckets d committed merged_cap ?mid hi
        (sc1, sb1, io1) = (Inr (), scratch', sb', io')"
      using run first big by (auto simp: HttpStatus Let_def st1 split: sum.splits)
    have m: "lo \<le> ?mid" "?mid \<le> hi" "?mid - lo < hi - lo" "hi - ?mid < hi - lo" using big(2) by auto
    show ?thesis
      using covers_trans [OF less.hyps [OF m(3) first [unfolded ok st1] less.prems(2) m(1) less.prems(4)]
          less.hyps [OF m(4) second less.prems(2) m(2) less.prems(4)] slice_disjoint [OF less.prems(2) m(1,2)]]
      by (simp only: slice_of_split [OF m(1,2)])
  qed (use run in \<open>simp add: classify_ureq_def Let_def\<close>)
qed

lemma attempt_covers:
  assumes "fetch_attempt N bits buckets d merged_cap False merged cumulative start e io0 = Some (Inr (), scratch, sb, io')"
    "distinct buckets" "start \<le> e" "\<forall>keys. set keys \<subseteq> set buckets \<longrightarrow> req_ok (bucket_req bits keys None d False None)"
  shows "covers (slice_of buckets start e) empty_reply scratch"
  using assms bisecting_covers by (simp add: fetch_attempt_def)

lemma retry_covers:
  assumes "retry_loop N bits buckets d merged_cap False merged cumulative start attempt floor_failures e window_size io0 = Some (Inr r, io')"
    and "distinct buckets" "start \<le> e" "e \<le> length buckets" "start < length buckets \<or> window_size = 0" "c_lo \<le> 2 ^ 64 - 1"
    and "\<forall>keys. set keys \<subseteq> set buckets \<longrightarrow> req_ok (bucket_req bits keys None d False None)"
  shows "covers (slice_of buckets start (wr_end r)) merged (wr_merged r) \<and> start \<le> wr_end r \<and> wr_end r \<le> length buckets"
proof -
  let ?I = "\<lambda>e ws (io0 :: 'w io). start \<le> e \<and> e \<le> length buckets \<and> (start < length buckets \<or> ws = 0)"
  let ?Q = "\<lambda>(res :: fetch_error + window_result) (io' :: 'w io). \<forall>r. res = Inr r \<longrightarrow>
      covers (slice_of buckets start (wr_end r)) merged (wr_merged r) \<and> start \<le> wr_end r \<and> wr_end r \<le> length buckets"
  have "?Q (Inr r) io'"
  proof (rule retry_loop_rule [OF assms(1), where I = ?I and Q = ?Q])
    fix attempt :: nat and e ws and io0 io2 :: "'w io" and scratch sb
    assume "?I e ws io0" "fetch_attempt N bits buckets d merged_cap False merged cumulative start e
        (on_phase (RequestSent start (length buckets) ws) io0) = Some (Inr (), scratch, sb, io2)"
    then have "covers (slice_of buckets start e) merged (merge_reply scratch merged)"
      using attempt_covers assms(2,7) merge_covers [OF _ assms(6)] by blast
    then show "?Q (Inr \<lparr>wr_merged = merge_reply scratch merged, wr_cumulative = saturating_add_usize cumulative sb,
            wr_request_ms = net_now N (io_world io2) - net_now N (io_world io0), wr_chunk_bytes = sb,
            wr_retried = (0 < attempt), wr_window = ws, wr_end = e\<rparr>) io2"
      using \<open>?I e ws io0\<close> by simp
  next
    fix e ws and io0 io2 :: "'w io" and reason err st attempt e' ws'
    assume "?I e ws io0" "e' = e \<and> ws' = ws \<and> ws \<le> MIN_WINDOW \<or>
        e' = window_end buckets None start BUCKET_REQUEST_BODY_BUDGET (max (ws div 2) MIN_WINDOW) \<and> ws' = e' - start \<and> MIN_WINDOW < ws"
    then show "?I e' ws' ((on_phase (WindowRetry start (length buckets) ws ws' attempt reason) io2)
          \<lparr>io_world := net_sleep N (retry_backoff (attempt + 1)) (io_world io2)\<rparr>)"
      using window_end_le window_end_gt [of start buckets] by (auto simp: less_imp_le)
  qed (use assms in auto)
  then show ?thesis by blast
qed

lemma pull_covers:
  "pull_loop N bits buckets d merged_cap False w start merged cumulative io0 = Some (Inr m, io') \<Longrightarrow>
    distinct buckets \<Longrightarrow> c_lo \<le> 2 ^ 64 - 1 \<Longrightarrow> start < length buckets \<or> buckets = [] \<and> start = 0 \<Longrightarrow>
    \<forall>keys. set keys \<subseteq> set buckets \<longrightarrow> req_ok (bucket_req bits keys None d False None) \<Longrightarrow> covers (slice_of buckets start (length buckets)) merged m"
proof (induction "length buckets - start" arbitrary: w start merged cumulative io0 rule: less_induct)
  case less
  let ?e = "if length buckets = 0 then 0 else window_end buckets None start BUCKET_REQUEST_BODY_BUDGET (max w MIN_WINDOW)"
  note run = less.prems(1) [unfolded pull_loop.simps [of N bits buckets d merged_cap False w start] Let_def]
  obtain r io1 where r: "retry_loop N bits buckets d merged_cap False merged cumulative start 0 0 ?e (?e - start) io0 = Some (Inr r, io1)"
    using run by (auto split: option.splits prod.splits sum.splits)
  have "start \<le> ?e" "?e \<le> length buckets" "start < length buckets \<or> ?e - start = 0"
    using less.prems(4) window_end_gt [of start buckets] window_end_le by (auto simp: less_imp_le)
  note got = retry_covers [OF r less.prems(2) this less.prems(3,5)]
  show ?case
  proof (cases "length buckets = 0 \<or> length buckets \<le> wr_end r")
    case True
    then have "m = wr_merged r" using run r by (auto split: if_splits)
    moreover have "wr_end r = length buckets" using got True by auto
    ultimately show ?thesis using got by simp
  next
    case False
    then have gt: "start < wr_end r" using retry_loop_end [OF r] window_end_gt by simp
    obtain w' io2 where next_pull: "pull_loop N bits buckets d merged_cap False w' (wr_end r) (wr_merged r) (wr_cumulative r) io2 = Some (Inr m, io')"
      using run r False by (auto split: if_splits)
    have "covers (slice_of buckets (wr_end r) (length buckets)) (wr_merged r) m"
      using gt False by (intro less.hyps [OF _ next_pull less.prems(2,3) _ less.prems(5)]) auto
    then show ?thesis
      using covers_trans [OF conjunct1 [OF got] _ slice_disjoint [OF less.prems(2)]] slice_of_split [of start "wr_end r" "length buckets" buckets]
        gt False by simp
  qed
qed

text \<open>A materialised pull of distinct buckets returns exactly the view of these buckets.\<close>

lemma fetch_exact:
  assumes "fetch_buckets_inner N bits buckets d merged_cap w0 False io0 = Some (Inr m, io')" "distinct buckets" "c_lo \<le> 2 ^ 64 - 1"
    "\<forall>keys. set keys \<subseteq> set buckets \<longrightarrow> req_ok (bucket_req bits keys None d False None)"
  shows "get_vec (sn_tags m) h = (if bucket_of h \<in> set buckets then view h else [])"
    and "c_lo \<le> sn_cursor m" "sn_cursor m \<le> c_hi" "keyed (sn_tags m)"
proof -
  have "0 < length buckets \<or> buckets = [] \<and> 0 = (0 :: nat)" by auto
  from pull_covers [OF assms(1) [unfolded fetch_buckets_inner_def] assms(2,3) this assms(4)]
  have "covers buckets empty_reply m" by (simp only: slice_of_all)
  then show "get_vec (sn_tags m) h = (if bucket_of h \<in> set buckets then view h else [])"
    "c_lo \<le> sn_cursor m" "sn_cursor m \<le> c_hi" "keyed (sn_tags m)"
    using assms(3) by (simp_all add: covers_def empty_reply_def)
qed

end

text \<open>
  The contract of the same route with \<open>since\<close>: a reply lists, key by key, the changes of the key's
  bucket above its own cursor.
\<close>

locale delta_server =
  fixes N :: "'w net" and req_ok :: "bucket_request \<Rightarrow> bool" and ans :: "ustring \<Rightarrow> nat \<Rightarrow> delta_mapping list" and c_lo c_hi :: nat
  assumes delta_changes: "br_since r = Some s \<Longrightarrow> length s = length (br_buckets r) \<Longrightarrow> req_ok r \<Longrightarrow>
      net_post N r w = (HttpOk body, w') \<Longrightarrow> read_capped_counted (json_delta N) body RESPONSE_SIZE_CAP = Inr (md, len) \<Longrightarrow>
      md_changes md = concat (map (\<lambda>(k, c). ans k c) (zip (br_buckets r) s))"
    and delta_cursor: "br_since r = Some s \<Longrightarrow> length s = length (br_buckets r) \<Longrightarrow> req_ok r \<Longrightarrow>
      net_post N r w = (HttpOk body, w') \<Longrightarrow> read_capped_counted (json_delta N) body RESPONSE_SIZE_CAP = Inr (md, len) \<Longrightarrow>
      c_lo \<le> md_cursor md \<and> md_cursor md \<le> c_hi"
begin

definition follows :: "(ustring \<times> nat) list \<Rightarrow> mapping_delta \<Rightarrow> mapping_delta \<Rightarrow> bool" where
  "follows ks old new \<longleftrightarrow> md_changes new = md_changes old @ concat (map (\<lambda>(k, c). ans k c) ks) \<and>
     (c_lo \<le> md_cursor old \<longrightarrow> c_lo \<le> md_cursor new) \<and> md_cursor new \<le> c_hi"

lemma follows_trans: "follows ks a b \<Longrightarrow> follows ls b c \<Longrightarrow> follows (ks @ ls) a c"
  by (auto simp: follows_def)

lemma zip_slice: "zip (slice_of xs lo hi) (slice_of ys lo hi) = slice_of (zip xs ys) lo hi"
  by (simp add: slice_of_def take_zip drop_zip)

lemma delta_bisecting_follows:
  "fetch_bucket_delta_chunk_bisecting N bits buckets since d merged_cap lo hi (merged, cum, io0) = (Inr (), (merged', cum', io')) \<Longrightarrow>
    length since = length buckets \<Longrightarrow> lo \<le> hi \<Longrightarrow> hi \<le> length buckets \<Longrightarrow>
    \<forall>keys s. set keys \<subseteq> set buckets \<longrightarrow> req_ok (bucket_req bits keys (Some s) d False None) \<Longrightarrow> follows (slice_of (zip buckets since) lo hi) merged merged'"
proof (induction "hi - lo" arbitrary: lo hi merged cum io0 merged' cum' io' rule: less_induct)
  case less
  let ?req = "bucket_req bits (slice_of buckets lo hi) (Some (slice_of since lo hi)) d False None"
  have req: "br_since ?req = Some (slice_of since lo hi)" "length (slice_of since lo hi) = length (br_buckets ?req)"
    "req_ok ?req" "br_buckets ?req = slice_of buckets lo hi"
    using less.prems set_slice [of buckets lo hi] by (auto simp: bucket_req_def slice_of_def)
  obtain res w where post: "net_post N ?req (io_world io0) = (res, w)" by fastforce
  have "hi \<le> length since" using less.prems by simp
  note run = less.prems(1) [unfolded fetch_bucket_delta_chunk_bisecting.simps [of N bits buckets since d merged_cap lo hi] Let_def
      if_P [OF this] post]
  show ?case
  proof (cases res)
    case (HttpOk body)
    obtain md len where md: "read_capped_counted (json_delta N) body RESPONSE_SIZE_CAP = Inr (md, len)"
      "merged' = merged\<lparr>md_cursor := min (md_cursor merged) (md_cursor md), md_changes := md_changes merged @ md_changes md\<rparr>"
      using run by (auto simp: HttpOk split: sum.splits if_splits)
    note post' = post [unfolded HttpOk]
    show ?thesis
      using delta_changes [OF req(1-3) post' md(1)] delta_cursor [OF req(1-3) post' md(1)]
      by (auto simp: follows_def md(2) req(4) zip_slice)
  next
    case (HttpStatus code raw)
    let ?mid = "lo + (hi - lo) div 2"
    have big: "code = 413" "\<not> hi - lo \<le> 1" using run by (auto simp: HttpStatus split: if_splits)
    obtain res1 st1 where first: "fetch_bucket_delta_chunk_bisecting N bits buckets since d merged_cap lo ?mid
        (merged, cum, io0\<lparr>io_world := w\<rparr>) = (res1, st1)" by (metis surj_pair)
    obtain m1 cum1 io1 where st1: "st1 = (m1, cum1, io1)" by (rule prod_cases3)
    have ok: "res1 = Inr ()" and second: "fetch_bucket_delta_chunk_bisecting N bits buckets since d merged_cap ?mid hi
        (m1, cum1, io1) = (Inr (), merged', cum', io')"
      using run first big by (auto simp: HttpStatus st1 split: sum.splits)
    have m: "lo \<le> ?mid" "?mid \<le> hi" "?mid - lo < hi - lo" "hi - ?mid < hi - lo" "?mid \<le> length buckets"
      using big(2) less.prems(4) by auto
    show ?thesis
      using follows_trans [OF less.hyps [OF m(3) first [unfolded ok st1] less.prems(2) m(1,5) less.prems(5)]
          less.hyps [OF m(4) second less.prems(2) m(2) less.prems(4,5)]]
      by (simp only: slice_of_split [OF m(1,2)])
  qed (use run in simp)
qed

lemma delta_chunks_follow:
  "delta_chunks N bits buckets since d merged_cap chunks (merged, cum, io0) = (Inr (), (merged', cum', io')) \<Longrightarrow>
    length since = length buckets \<Longrightarrow> chunks \<noteq> [] \<Longrightarrow> \<forall>(lo, hi)\<in>set chunks. lo \<le> hi \<and> hi \<le> length buckets \<Longrightarrow>
    \<forall>keys s. set keys \<subseteq> set buckets \<longrightarrow> req_ok (bucket_req bits keys (Some s) d False None) \<Longrightarrow> follows (concat (map (\<lambda>(lo, hi). slice_of (zip buckets since) lo hi) chunks)) merged merged'"
proof (induction chunks arbitrary: merged cum io0)
  case (Cons c chunks)
  obtain lo hi where c: "c = (lo, hi)" by fastforce
  obtain res1 st1 where first: "fetch_bucket_delta_chunk_bisecting N bits buckets since d merged_cap lo hi
      (merged, cum, io0) = (res1, st1)" by (metis surj_pair)
  obtain m1 cum1 io1 where st1: "st1 = (m1, cum1, io1)" by (rule prod_cases3)
  have ok: "res1 = Inr ()" and rest: "delta_chunks N bits buckets since d merged_cap chunks (m1, cum1, io1) = (Inr (), merged', cum', io')"
    using Cons.prems(1) first by (auto simp: c st1 split: sum.splits)
  have one: "follows (slice_of (zip buckets since) lo hi) merged m1"
    using delta_bisecting_follows [OF first [unfolded ok st1] Cons.prems(2)] Cons.prems(4,5) by (simp add: c)
  show ?case
  proof (cases "chunks = []")
    case True
    then show ?thesis using one rest by (simp add: c)
  next
    case False
    then show ?thesis using follows_trans [OF one Cons.IH [OF rest Cons.prems(2)]] Cons.prems(4,5) by (simp add: c)
  qed
qed simp

lemma chunk_slices:
  assumes "length xs = length buckets"
  shows "concat (map (\<lambda>(lo, hi). slice_of xs lo hi) (bucket_chunks buckets since budget)) = xs"
    and "\<forall>(lo, hi)\<in>set (bucket_chunks buckets since budget). lo \<le> hi \<and> hi \<le> length buckets"
    and "bucket_chunks buckets since budget \<noteq> []"
proof -
  let ?cs = "bucket_chunks buckets since budget"
  note r = chunk_ranges [of buckets since budget]
  have range: "lo \<le> hi \<and> hi \<le> length buckets" if "(lo, hi) \<in> set ?cs" for lo hi
  proof (cases "buckets = []")
    case True
    then show ?thesis using r that by simp
  next
    case False
    then have lt: "lo < hi" using r that by fastforce
    then have "hi - 1 \<in> set (concat (map (\<lambda>(lo, hi). [lo..<hi]) ?cs))" using that by (auto intro!: bexI [of _ "(lo, hi)"])
    then have "hi - 1 < length buckets" unfolding conjunct1 [OF r] by simp
    then show ?thesis using lt by simp
  qed
  then show "\<forall>(lo, hi)\<in>set ?cs. lo \<le> hi \<and> hi \<le> length buckets" by blast
  show "?cs \<noteq> []" using r by (cases "buckets = []") (auto simp: eq_commute [of "[]"])
  have nth: "slice_of xs lo hi = map ((!) xs) [lo..<hi]" if "(lo, hi) \<in> set ?cs" for lo hi
    using range [OF that] assms by (auto simp: slice_of_def intro!: nth_equalityI)
  have "concat (map (\<lambda>(lo, hi). slice_of xs lo hi) ?cs) = map ((!) xs) (concat (map (\<lambda>(lo, hi). [lo..<hi]) ?cs))"
    unfolding map_concat map_map by (rule arg_cong [where f = concat], rule map_cong [OF refl]) (use nth in auto)
  then show "concat (map (\<lambda>(lo, hi). slice_of xs lo hi) ?cs) = xs" using conjunct1 [OF r] map_nth [of xs] assms by (simp only:)
qed

text \<open>A delta pull returns, in the order of the keys, the changes of every key above its cursor.\<close>

lemma delta_exact:
  assumes "fetch_bucket_delta_inner N bits buckets since d merged_cap io0 = (Inr m, io')" "length since = length buckets"
    "c_lo \<le> 2 ^ 64 - 1" "\<forall>keys s. set keys \<subseteq> set buckets \<longrightarrow> req_ok (bucket_req bits keys (Some s) d False None)"
  shows "md_changes m = concat (map (\<lambda>(k, c). ans k c) (zip buckets since))"
    and "c_lo \<le> md_cursor m" "md_cursor m \<le> c_hi"
proof -
  let ?cs = "bucket_chunks buckets (Some since) BUCKET_REQUEST_BODY_BUDGET"
  let ?init = "\<lparr>md_version = PROTOCOL_VERSION, md_cursor = 2 ^ 64 - 1, md_changes = []\<rparr>"
  have len: "length (zip buckets since) = length buckets" using assms(2) by simp
  obtain cum io1 where run: "delta_chunks N bits buckets since d merged_cap ?cs (?init, 0, io0) = (Inr (), (m, cum, io1))"
    using assms(1) by (auto simp: fetch_bucket_delta_inner_def split: prod.splits sum.splits)
  from delta_chunks_follow [OF run assms(2) chunk_slices(3,2) [OF len] assms(4)]
  have "follows (zip buckets since) ?init m" by (simp only: chunk_slices(1) [OF len])
  then show "md_changes m = concat (map (\<lambda>(k, c). ans k c) (zip buckets since))" "c_lo \<le> md_cursor m" "md_cursor m \<le> c_hi"
    using assms(3) by (simp_all add: follows_def)
qed

end

section \<open>Returning\<close>

lemma materialised_attempt: "fetch_attempt N bits buckets d merged_cap False merged cumulative start e io0 \<noteq> None"
  by (simp add: fetch_attempt_def)

lemma pull_loop_returns: "pull_loop N bits buckets d merged_cap False w start merged cumulative io0 \<noteq> None"
proof (induction N bits buckets d merged_cap "False" w start merged cumulative io0 rule: pull_loop.induct)
  case (1 N bits buckets d merged_cap w start merged cumulative io0)
  let ?e = "if length buckets = 0 then 0 else window_end buckets None start BUCKET_REQUEST_BODY_BUDGET (max w MIN_WINDOW)"
  have "retry_loop N bits buckets d merged_cap False merged cumulative start 0 0 ?e (?e - start) io0 \<noteq> None"
    by (rule retry_loop_returns [OF materialised_attempt])
  then obtain res io1 where r: "retry_loop N bits buckets d merged_cap False merged cumulative start 0 0 ?e (?e - start) io0 = Some (res, io1)"
    by auto
  show ?case
  proof (cases res)
    case (Inl err)
    then show ?thesis using r by (subst pull_loop.simps) (simp add: Let_def)
  next
    case (Inr wr)
    then show ?thesis using r 1 [OF refl refl r [unfolded Inr] refl refl refl refl refl]
      by (subst pull_loop.simps) (simp add: Let_def)
  qed
qed

section \<open>Streams end with a trailer\<close>

definition trailer_read :: "('w, 'z) net_scheme \<Rightarrow> bool" where
  "trailer_read N \<longleftrightarrow> (\<exists>w buf w' line. net_read N (MAX_STREAM_LINE_BYTES + 1) w = (Inr buf, w') \<and>
     from_utf8 (strip_eol buf) = Some line \<and> json_line N line = Some (Trailer (Done True)))"

lemma trailer_readI:
  "read_stream_line N io0 = (Inr (Some (line, k)), io1) \<Longrightarrow> json_line N line = Some (Trailer (Done True)) \<Longrightarrow> trailer_read N"
  by (fastforce simp: read_stream_line_def trailer_read_def split: prod.splits sum.splits if_splits option.splits)

lemma stream_rows_done:
  assumes "stream_rows N deadline committed merged_cap merged_hashes scratch sb rt io0 = Some res" "fst res = Inr RowsDone"
  shows "trailer_read N"
proof -
  have "fst res = Inr RowsDone \<longrightarrow> trailer_read N"
  proof (rule stream_rows.raw_induct [where P = "\<lambda>N deadline committed merged_cap merged_hashes scratch sb rt io0 res.
        fst res = Inr RowsDone \<longrightarrow> trailer_read N", OF _ assms(1)], goal_cases)
    case (1 rec N deadline committed merged_cap merged_hashes scratch sb rt io0 res)
    from 1(2) show ?case
      by (auto split: prod.splits sum.splits option.splits stream_line.splits stream_trailer.splits if_splits
          simp: Let_def dest: 1(1) intro: trailer_readI)
  qed
  then show ?thesis using assms(2) by blast
qed

lemma stream_loop_done:
  assumes "stream_loop N bits keys d deadline committed merged_cap merged_hashes resume_at scratch sb rt io0 = Some res" "fst res = Inr ()"
  shows "trailer_read N"
proof -
  have "fst res = Inr () \<longrightarrow> trailer_read N"
  proof (rule stream_loop.raw_induct [where P = "\<lambda>N bits keys d deadline committed merged_cap merged_hashes resume_at scratch sb rt io0 res.
        fst res = Inr () \<longrightarrow> trailer_read N", OF _ assms(1)], goal_cases)
    case (1 rec N bits keys d deadline committed merged_cap merged_hashes resume_at scratch sb rt io0 res)
    show ?case
    proof (intro impI)
      assume fin: "fst res = Inr ()"
      obtain resp w where opened: "net_open N (bucket_req bits keys None d True resume_at) (io_world io0) = (resp, w)" by fastforce
      note eq = 1(2) [unfolded opened]
      obtain u where resp: "resp = HttpOk u" using eq fin by (cases resp) auto
      obtain hr io1 where hr: "stream_header N (io0\<lparr>io_world := w\<rparr>) = (hr, io1)" by fastforce
      obtain cursor where cursor: "hr = Inr cursor" using eq fin by (cases hr) (auto simp: resp hr)
      let ?sc = "scratch\<lparr>sn_cursor := min (sn_cursor scratch) cursor\<rparr>"
      obtain rows where rows: "stream_rows N deadline committed merged_cap merged_hashes ?sc sb rt io1 = Some rows"
        using eq by (cases "stream_rows N deadline committed merged_cap merged_hashes ?sc sb rt io1") (simp_all add: resp hr cursor)
      obtain r sc sb' rt' io2 where tup: "rows = (r, sc, sb', rt', io2)" by (metis surj_pair)
      have "r = Inr RowsDone \<or> (\<exists>k. rec N bits keys d deadline committed merged_cap merged_hashes (Some k) sc sb' rt' io2 = Some res)"
        using eq fin by (auto simp: resp hr cursor rows tup split: sum.splits row_end.splits)
      then show "trailer_read N"
      proof (elim disjE exE)
        assume "r = Inr RowsDone"
        then show ?thesis using stream_rows_done [OF rows] by (simp add: tup)
      next
        fix k
        assume "rec N bits keys d deadline committed merged_cap merged_hashes (Some k) sc sb' rt' io2 = Some res"
        from 1(1) [OF this] fin show ?thesis by blast
      qed
    qed
  qed
  then show ?thesis using assms(2) by blast
qed

text \<open>A streamed pull never succeeds on a stream that was cut off: only a \<open>done\<close> trailer ends a window.\<close>

lemma streamed_pull_done:
  fixes N :: "('w, 'z) net_scheme"
  assumes "pull_loop N bits buckets d merged_cap True w start merged cumulative io0 = Some (Inr m, io')"
  shows "trailer_read N"
proof -
  obtain r io1 e ws where r: "retry_loop N bits buckets d merged_cap True merged cumulative start 0 0 e ws io0 = Some (Inr r, io1)"
    using assms by (subst (asm) pull_loop.simps) (auto simp: Let_def split: option.splits prod.splits sum.splits)
  have "\<forall>wr. (Inr r :: fetch_error + window_result) = Inr wr \<longrightarrow> trailer_read N"
  proof (rule retry_loop_rule [OF r, where I = "\<lambda>e ws (io :: 'w io). True" and Q = "\<lambda>(res :: fetch_error + window_result) (io :: 'w io).
      \<forall>wr. res = Inr wr \<longrightarrow> trailer_read N"], goal_cases)
    case (2 attempt e ws io0 scratch sb io2)
    then show ?case using stream_loop_done
      by (fastforce simp: fetch_attempt_def fetch_buckets_streaming_def)
  qed simp_all
  then show ?thesis by blast
qed

end
