(* ===== verification/DbState.thy ===== *)
theory DbState
  imports StoreState CoreBucket NetDomain
begin

unbundle bit_operations_syntax

text \<open>
  \<open>crates/db/src/lib.rs\<close>, the client's library database as the pulls use it: the files, the tag and
  origin dictionaries, the mapping table with its domain provenance mask, the pull state of each
  service and domain, and every operation that merges pulled mappings.  The clock is a parameter; a
  failing SQL statement rolls the transaction back and is not modelled.
\<close>

section \<open>Tables\<close>

record db_file =
  df_blake3 :: ustring
  df_sha256 :: "ustring option"
  df_sha256_seq :: "int option"

record db_row =
  m_created :: int
  m_domains :: "64 word"
  m_origin :: "int option"

text \<open>Pulled rows are always \<open>'current'\<close>, so the status column is left out.  The key of a row is file, tag, service.\<close>

type_synonym db_key = "int \<times> int \<times> int"
type_synonym db_maps = "(db_key \<times> db_row) list"

record pull_state =
  ps_cursor :: "int option"
  ps_marker :: "int option"

text \<open>
  The collapsed relations, keyed by aliased tag and service and by child, parent and service, and the mirror
  of a repository's edges.  Every row the code writes is \<open>'current'\<close>, and the author is null for local rows.
\<close>

record sibling_row =
  sr_ideal :: int
  sr_author :: "ustring option"
  sr_created :: int

record parent_row =
  pr_author :: "ustring option"
  pr_created :: int

record staged_edge =
  se_status :: mapping_status
  se_seq :: int

type_synonym sibling_table = "((int \<times> int) \<times> sibling_row) list"
type_synonym parent_table = "((int \<times> int \<times> int) \<times> parent_row) list"
type_synonym staging_key = "int \<times> rel_kind \<times> ustring \<times> ustring \<times> ustring"
type_synonym staging = "(staging_key \<times> staged_edge) list"

record client_db =
  c_files :: "(int \<times> db_file) list"
  c_sha256_seq :: int
  c_tags :: "(tag \<times> int) list"
  c_origins :: "(ustring \<times> int) list"
  c_maps :: db_maps
  c_pull :: "((int \<times> ustring) \<times> pull_state) list"
  c_relation_cursor :: "(int \<times> int) list"
  c_relation_pulled :: "(int \<times> int) list"
  c_siblings :: sibling_table
  c_parents :: parent_table
  c_staging :: staging
  c_generation :: "(int \<times> ustring) list"

definition DOMAIN_BIT_BLAKE3 :: "64 word" where "DOMAIN_BIT_BLAKE3 = 1"
definition DOMAIN_BIT_SHA256 :: "64 word" where "DOMAIN_BIT_SHA256 = 2"

definition domain_bit :: "ustring \<Rightarrow> 64 word" where
  "domain_bit d = (if d = lit ''sha256'' then DOMAIN_BIT_SHA256 else DOMAIN_BIT_BLAKE3)"

section \<open>Files and dictionaries\<close>

definition file_id_by_hash :: "client_db \<Rightarrow> hash \<Rightarrow> int option" where
  "file_id_by_hash db h = map_option fst (find (\<lambda>(i, f). df_blake3 f = to_hex h) (c_files db))"

text \<open>\<open>INSERT \<dots> ON CONFLICT DO NOTHING\<close>, then \<open>SELECT id\<close>.\<close>

definition intern_tag :: "client_db \<Rightarrow> tag \<Rightarrow> int \<times> client_db" where
  "intern_tag db t = (let (i, ts) = intern_row (c_tags db) t in (i, db\<lparr>c_tags := ts\<rparr>))"

definition intern_origin :: "client_db \<Rightarrow> ustring \<Rightarrow> int \<times> client_db" where
  "intern_origin db name = (let (i, os) = intern_row (c_origins db) name in (i, db\<lparr>c_origins := os\<rparr>))"

type_synonym tag_cache = "(tag \<times> int) list"

definition intern_tag_cached :: "client_db \<Rightarrow> tag \<Rightarrow> tag_cache \<Rightarrow> tag_cache \<Rightarrow> int \<times> tag_cache \<times> client_db" where
  "intern_tag_cached db t cache pending =
     (case map_of cache t of
        Some i \<Rightarrow> (i, pending, db)
      | None \<Rightarrow>
          (case map_of pending t of
             Some i \<Rightarrow> (i, pending, db)
           | None \<Rightarrow> (let (i, db') = intern_tag db t in (i, AList.update t i pending, db'))))"

definition intern_origin_cached :: "client_db \<Rightarrow> ustring \<Rightarrow> (ustring \<times> int) list \<Rightarrow> int \<times> (ustring \<times> int) list \<times> client_db" where
  "intern_origin_cached db name cache =
     (case map_of cache name of
        Some i \<Rightarrow> (i, cache, db)
      | None \<Rightarrow> (let (i, db') = intern_origin db name in (i, AList.update name i cache, db')))"

definition origin_id_of :: "client_db \<Rightarrow> ustring option \<Rightarrow> (ustring \<times> int) list \<Rightarrow> int option \<times> (ustring \<times> int) list \<times> client_db" where
  "origin_id_of db og cache =
     (case og of
        None \<Rightarrow> (None, cache, db)
      | Some name \<Rightarrow> (let (i, cache', db') = intern_origin_cached db name cache in (Some i, cache', db')))"

section \<open>Statements on the mapping table\<close>

definition key_file :: "db_key \<Rightarrow> int" where "key_file k = fst k"
definition key_tag :: "db_key \<Rightarrow> int" where "key_tag k = fst (snd k)"
definition key_service :: "db_key \<Rightarrow> int" where "key_service k = snd (snd k)"

text \<open>\<open>INSERT \<dots> ON CONFLICT DO UPDATE SET\<close>.\<close>

definition sql_upsert :: "'k \<Rightarrow> 'r \<Rightarrow> ('r \<Rightarrow> 'r) \<Rightarrow> ('k \<times> 'r) list \<Rightarrow> ('k \<times> 'r) list" where
  "sql_upsert k new upd t = (case map_of t k of None \<Rightarrow> AList.update k new t | Some r \<Rightarrow> AList.update k (upd r) t)"

text \<open>\<open>UPDATE mappings SET domains = domains & ~bit WHERE \<dots>\<close> and \<open>DELETE FROM mappings WHERE \<dots>\<close>.\<close>

definition retract :: "(db_key \<Rightarrow> db_row \<Rightarrow> bool) \<Rightarrow> 64 word \<Rightarrow> db_maps \<Rightarrow> db_maps" where
  "retract P b t = map (\<lambda>(k, r). (k, if P k r then r\<lparr>m_domains := m_domains r AND NOT b\<rparr> else r)) t"

definition sql_delete :: "('k \<Rightarrow> 'r \<Rightarrow> bool) \<Rightarrow> ('k \<times> 'r) list \<Rightarrow> ('k \<times> 'r) list" where
  "sql_delete P t = filter (\<lambda>(k, r). \<not> P k r) t"

record merge_stats =
  ms_matched :: nat
  ms_mappings :: nat

type_synonym tagged_entries = "(hash \<times> (tag \<times> ustring option) list) list"

section \<open>The authoritative merges of a whole service\<close>

text \<open>The accumulator of the loops: database, pending tags, origin cache, stats.\<close>

type_synonym merge_acc = "client_db \<times> tag_cache \<times> (ustring \<times> int) list \<times> merge_stats"

definition merge_tag_in_domain :: "int \<Rightarrow> int \<Rightarrow> 64 word \<Rightarrow> int \<Rightarrow> tag \<times> ustring option \<Rightarrow> merge_acc \<Rightarrow> merge_acc" where
  "merge_tag_in_domain svc now b file_id item acc =
     (let (t, og) = item;
          (db, pending, oc, st) = acc;
          (tag_id, pending, db) = intern_tag_cached db t [] pending;
          (origin_id, oc, db) = origin_id_of db og oc;
          maps = sql_upsert (file_id, tag_id, svc) \<lparr>m_created = now, m_domains = b, m_origin = origin_id\<rparr>
            (\<lambda>r. r\<lparr>m_domains := m_domains r OR b\<rparr>) (c_maps db)
      in (db\<lparr>c_maps := maps\<rparr>, pending, oc, st\<lparr>ms_mappings := ms_mappings st + 1\<rparr>))"

definition merge_entry_in_domain :: "int \<Rightarrow> int \<Rightarrow> 64 word \<Rightarrow> hash \<times> (tag \<times> ustring option) list \<Rightarrow> merge_acc \<Rightarrow> merge_acc" where
  "merge_entry_in_domain svc now b entry acc =
     (let (h, tags) = entry; (db, pending, oc, st) = acc
      in case file_id_by_hash db h of
           None \<Rightarrow> acc
         | Some file_id \<Rightarrow>
             fold (merge_tag_in_domain svc now b file_id) tags (db, pending, oc, st\<lparr>ms_matched := ms_matched st + 1\<rparr>))"

definition merge_pulled_mappings_in_domain ::
  "client_db \<Rightarrow> int \<Rightarrow> int \<Rightarrow> ustring \<Rightarrow> tagged_entries \<Rightarrow> client_db \<times> merge_stats" where
  "merge_pulled_mappings_in_domain db now svc domain entries =
     (let b = domain_bit domain;
          maps1 = sql_delete (\<lambda>k r. key_service k = svc \<and> m_domains r = b) (c_maps db);
          maps2 = retract (\<lambda>k r. key_service k = svc \<and> m_domains r AND b \<noteq> 0) b maps1;
          (db', _, _, st) = fold (merge_entry_in_domain svc now b) entries
            (db\<lparr>c_maps := maps2\<rparr>, [], [], \<lparr>ms_matched = 0, ms_mappings = 0\<rparr>)
      in (db', st))"


text \<open>\<open>merge_pulled_mappings\<close>: every row of the service goes, whatever its domains.\<close>

definition merge_tag_whole :: "int \<Rightarrow> int \<Rightarrow> int \<Rightarrow> tag \<Rightarrow> client_db \<times> tag_cache \<times> merge_stats \<Rightarrow> client_db \<times> tag_cache \<times> merge_stats" where
  "merge_tag_whole svc now file_id t acc =
     (let (db, pending, st) = acc;
          (tag_id, pending, db) = intern_tag_cached db t [] pending;
          k = (file_id, tag_id, svc)
      in case map_of (c_maps db) k of
           Some _ \<Rightarrow> (db, pending, st)
         | None \<Rightarrow>
             (db\<lparr>c_maps := AList.update k \<lparr>m_created = now, m_domains = 1, m_origin = None\<rparr> (c_maps db)\<rparr>, pending,
              st\<lparr>ms_mappings := ms_mappings st + 1\<rparr>))"

definition merge_entry_whole :: "int \<Rightarrow> int \<Rightarrow> hash \<times> tag list \<Rightarrow> client_db \<times> tag_cache \<times> merge_stats \<Rightarrow> client_db \<times> tag_cache \<times> merge_stats" where
  "merge_entry_whole svc now entry acc =
     (let (h, tags) = entry; (db, pending, st) = acc
      in case file_id_by_hash db h of
           None \<Rightarrow> acc
         | Some file_id \<Rightarrow>
             fold (merge_tag_whole svc now file_id) tags (db, pending, st\<lparr>ms_matched := ms_matched st + 1\<rparr>))"

definition merge_pulled_mappings :: "client_db \<Rightarrow> int \<Rightarrow> int \<Rightarrow> (hash \<times> tag list) list \<Rightarrow> client_db \<times> merge_stats" where
  "merge_pulled_mappings db now svc entries =
     (let maps1 = sql_delete (\<lambda>k r. key_service k = svc) (c_maps db);
          (db', _, st) = fold (merge_entry_whole svc now) entries
            (db\<lparr>c_maps := maps1\<rparr>, [], \<lparr>ms_matched = 0, ms_mappings = 0\<rparr>)
      in (db', st))"

section \<open>The file-scoped merges\<close>

text \<open>
  First pass: the accumulator is the database, the pending tags, the origin cache, the resolved hashes,
  the tag ids of each file, the origin of each pair, and the number of files matched.
\<close>

record scope_acc =
  sa_db :: client_db
  sa_pending :: tag_cache
  sa_origins :: "(ustring \<times> int) list"
  sa_resolved :: "(hash \<times> int) list"
  sa_new_tags :: "(int \<times> int list) list"
  sa_new_origin :: "((int \<times> int) \<times> int option) list"
  sa_matched :: nat

definition resolve_tag_of_file :: "int \<Rightarrow> tag \<times> ustring option \<Rightarrow> scope_acc \<times> int list \<Rightarrow> scope_acc \<times> int list" where
  "resolve_tag_of_file file_id item st =
     (let (t, og) = item; (a, tag_ids) = st;
          (tag_id, pending, db) = intern_tag_cached (sa_db a) t [] (sa_pending a);
          (origin_id, oc, db) = origin_id_of db og (sa_origins a)
      in (a\<lparr>sa_db := db, sa_pending := pending, sa_origins := oc,
            sa_new_origin := AList.update (file_id, tag_id) origin_id (sa_new_origin a)\<rparr>,
          List.insert tag_id tag_ids))"

definition resolve_entry :: "hash list \<Rightarrow> hash \<times> (tag \<times> ustring option) list \<Rightarrow> scope_acc \<Rightarrow> scope_acc" where
  "resolve_entry requested entry a =
     (let (h, tags) = entry
      in if h \<notin> set requested then a
         else
           (case file_id_by_hash (sa_db a) h of
              None \<Rightarrow> a
            | Some file_id \<Rightarrow>
                (let (a', tag_ids) = fold (resolve_tag_of_file file_id) tags
                       (a\<lparr>sa_resolved := AList.update h file_id (sa_resolved a), sa_matched := sa_matched a + 1\<rparr>, [])
                 in a'\<lparr>sa_new_tags := AList.update file_id tag_ids (sa_new_tags a')\<rparr>)))"

text \<open>Second pass: the difference for one file; \<open>scope\<close> is \<open>None\<close> for every domain, \<open>Some bit\<close> for one.\<close>

definition in_scope :: "64 word option \<Rightarrow> db_row \<Rightarrow> bool" where
  "in_scope scope r = (case scope of None \<Rightarrow> True | Some b \<Rightarrow> m_domains r AND b \<noteq> 0)"

definition remove_one :: "int \<Rightarrow> 64 word option \<Rightarrow> int \<Rightarrow> int \<Rightarrow> db_maps \<Rightarrow> db_maps" where
  "remove_one svc scope file_id tag_id t =
     (case scope of
        None \<Rightarrow> sql_delete (\<lambda>k r. k = (file_id, tag_id, svc)) t
      | Some b \<Rightarrow> retract (\<lambda>k r. k = (file_id, tag_id, svc)) b t)"

definition insert_one :: "int \<Rightarrow> int \<Rightarrow> 64 word \<Rightarrow> ((int \<times> int) \<times> int option) list \<Rightarrow> int \<Rightarrow> int \<Rightarrow> db_maps \<times> nat \<Rightarrow> db_maps \<times> nat" where
  "insert_one svc now write_bit origins file_id tag_id st =
     (let (t, n) = st
      in (sql_upsert (file_id, tag_id, svc)
            \<lparr>m_created = now, m_domains = write_bit, m_origin = Option.bind (map_of origins (file_id, tag_id)) (\<lambda>o1. o1)\<rparr>
            (\<lambda>r. r\<lparr>m_domains := m_domains r OR write_bit\<rparr>) t, n + 1))"

definition merge_file :: "int \<Rightarrow> int \<Rightarrow> 64 word option \<Rightarrow> scope_acc \<Rightarrow> hash \<Rightarrow> db_maps \<times> nat \<Rightarrow> db_maps \<times> nat" where
  "merge_file svc now scope a h st =
     (case (case map_of (sa_resolved a) h of Some i \<Rightarrow> Some i | None \<Rightarrow> file_id_by_hash (sa_db a) h) of
        None \<Rightarrow> st
      | Some file_id \<Rightarrow>
          (let (t, n) = st;
               new_ids = (case map_of (sa_new_tags a) file_id of None \<Rightarrow> [] | Some l \<Rightarrow> l);
               current = map (\<lambda>(k, r). key_tag k)
                 (filter (\<lambda>(k, r). key_file k = file_id \<and> key_service k = svc \<and> in_scope scope r) t);
               t1 = fold (remove_one svc scope file_id) (filter (\<lambda>i. i \<notin> set new_ids) current) t;
               (t2, n) = fold (insert_one svc now (case scope of None \<Rightarrow> DOMAIN_BIT_BLAKE3 | Some b \<Rightarrow> b) (sa_new_origin a) file_id)
                 (filter (\<lambda>i. i \<notin> set current) new_ids) (t1, n);
               t3 = (if scope = None then t2
                     else sql_delete (\<lambda>k r. key_service k = svc \<and> key_file k = file_id \<and> m_domains r = 0) t2)
           in (t3, n)))"

definition merge_for_files_masked :: "client_db \<Rightarrow> int \<Rightarrow> int \<Rightarrow> hash list \<Rightarrow> tagged_entries \<Rightarrow> 64 word option \<Rightarrow> client_db \<times> merge_stats" where
  "merge_for_files_masked db now svc hashes entries scope =
     (let a = fold (resolve_entry hashes) entries
            \<lparr>sa_db = db, sa_pending = [], sa_origins = [], sa_resolved = [], sa_new_tags = [], sa_new_origin = [], sa_matched = 0\<rparr>;
          (t, n) = fold (merge_file svc now scope a) hashes (c_maps (sa_db a), 0)
      in ((sa_db a)\<lparr>c_maps := t\<rparr>, \<lparr>ms_matched = sa_matched a, ms_mappings = n\<rparr>))"

definition merge_pulled_mappings_for_files :: "client_db \<Rightarrow> int \<Rightarrow> int \<Rightarrow> hash list \<Rightarrow> tagged_entries \<Rightarrow> client_db \<times> merge_stats" where
  "merge_pulled_mappings_for_files db now svc hashes entries = merge_for_files_masked db now svc hashes entries None"

definition merge_pulled_mappings_for_files_in_domain ::
  "client_db \<Rightarrow> int \<Rightarrow> int \<Rightarrow> hash list \<Rightarrow> ustring \<Rightarrow> tagged_entries \<Rightarrow> client_db \<times> merge_stats" where
  "merge_pulled_mappings_for_files_in_domain db now svc hashes domain entries =
     merge_for_files_masked db now svc hashes entries (Some (domain_bit domain))"

section \<open>The incremental merge\<close>

record delta_input =
  di_hash :: hash
  di_tag :: tag
  di_status :: mapping_status
  di_seq :: int
  di_origin :: "ustring option"

text \<open>The files of a bucket, by the hash column of the domain; a missing hash compares as NULL.\<close>

definition in_bucket :: "client_db \<Rightarrow> ustring \<Rightarrow> ustring \<Rightarrow> ustring \<Rightarrow> int \<Rightarrow> bool" where
  "in_bucket db domain lo hi file_id \<longleftrightarrow>
     list_ex (\<lambda>(i, f). i = file_id \<and>
       (case (if domain = lit ''sha256'' then df_sha256 f else Some (df_blake3 f)) of
          None \<Rightarrow> False
        | Some col \<Rightarrow> lo \<le> col \<and> col < hi)) (c_files db)"

definition clear_bucket :: "client_db \<Rightarrow> int \<Rightarrow> ustring \<Rightarrow> ustring \<times> ustring \<Rightarrow> db_maps \<Rightarrow> db_maps" where
  "clear_bucket db svc domain rng t =
     (let (lo, hi) = rng; b = domain_bit domain;
          t1 = retract (\<lambda>k r. key_service k = svc \<and> m_domains r AND b \<noteq> 0 \<and> in_bucket db domain lo hi (key_file k)) b t
      in sql_delete (\<lambda>k r. key_service k = svc \<and> m_domains r = 0 \<and> in_bucket db domain lo hi (key_file k)) t1)"

type_synonym delta_acc = "client_db \<times> tag_cache \<times> (ustring \<times> int) list \<times> int list"

definition merge_change :: "int \<Rightarrow> int \<Rightarrow> 64 word \<Rightarrow> delta_input \<Rightarrow> delta_acc \<Rightarrow> delta_acc" where
  "merge_change svc now b c acc =
     (let (db, pending, oc, matched) = acc
      in case file_id_by_hash db (di_hash c) of
           None \<Rightarrow> acc
         | Some file_id \<Rightarrow>
             (let matched = List.insert file_id matched;
                  (tag_id, pending, db) = intern_tag_cached db (di_tag c) [] pending;
                  k = (file_id, tag_id, svc)
              in case di_status c of
                   Current \<Rightarrow>
                     (let (origin_id, oc, db) = origin_id_of db (di_origin c) oc
                      in (db\<lparr>c_maps := sql_upsert k \<lparr>m_created = now, m_domains = b, m_origin = origin_id\<rparr>
                            (\<lambda>r. r\<lparr>m_created := now, m_domains := m_domains r OR b\<rparr>) (c_maps db)\<rparr>, pending, oc, matched))
                 | Deleted \<Rightarrow>
                     (let t1 = retract (\<lambda>k' r. k' = k) b (c_maps db);
                          t2 = sql_delete (\<lambda>k' r. k' = k \<and> m_domains r = 0) t1
                      in (db\<lparr>c_maps := t2\<rparr>, pending, oc, matched))))"

text \<open>\<open>i64::try_from(cursor).unwrap_or(i64::MAX)\<close>.\<close>

definition cursor_i64 :: "nat \<Rightarrow> int" where
  "cursor_i64 c = (if int c \<le> 2 ^ 63 - 1 then int c else 2 ^ 63 - 1)"

definition set_mapping_pull_state :: "client_db \<Rightarrow> int \<Rightarrow> ustring \<Rightarrow> nat \<Rightarrow> int \<Rightarrow> client_db" where
  "set_mapping_pull_state db svc domain cursor marker =
     db\<lparr>c_pull := AList.update (svc, domain) \<lparr>ps_cursor = Some (cursor_i64 cursor), ps_marker = Some marker\<rparr> (c_pull db)\<rparr>"

definition merge_mapping_delta ::
  "client_db \<Rightarrow> int \<Rightarrow> int \<Rightarrow> ustring \<Rightarrow> delta_input list \<Rightarrow> (ustring \<times> ustring) list \<Rightarrow> nat \<Rightarrow> int \<Rightarrow> client_db \<times> merge_stats" where
  "merge_mapping_delta db now svc domain changes full_buckets cursor file_marker =
     (let b = domain_bit domain;
          t1 = fold (clear_bucket db svc domain) full_buckets (c_maps db);
          (db1, _, _, matched) = fold (merge_change svc now b) changes (db\<lparr>c_maps := t1\<rparr>, [], [], []);
          db2 = set_mapping_pull_state db1 svc domain cursor file_marker
      in (db2, \<lparr>ms_matched = length matched,
                ms_mappings = length (filter (\<lambda>(k, r). key_service k = svc) (c_maps db2))\<rparr>))"

section \<open>Pull state and statistics\<close>

definition mapping_cursor_of :: "client_db \<Rightarrow> int \<Rightarrow> ustring \<Rightarrow> int option" where
  "mapping_cursor_of db svc domain = Option.bind (map_of (c_pull db) (svc, domain)) ps_cursor"

definition last_pull_file_marker :: "client_db \<Rightarrow> int \<Rightarrow> ustring \<Rightarrow> int option" where
  "last_pull_file_marker db svc domain = Option.bind (map_of (c_pull db) (svc, domain)) ps_marker"

definition clear_mapping_pull_state :: "client_db \<Rightarrow> int \<Rightarrow> ustring \<Rightarrow> client_db" where
  "clear_mapping_pull_state db svc domain = db\<lparr>c_pull := sql_delete (\<lambda>k _. k = (svc, domain)) (c_pull db)\<rparr>"

definition reset_service_cursors :: "client_db \<Rightarrow> int \<Rightarrow> client_db" where
  "reset_service_cursors db svc =
     db\<lparr>c_relation_cursor := sql_delete (\<lambda>k _. k = svc) (c_relation_cursor db),
        c_pull := sql_delete (\<lambda>k _. fst k = svc) (c_pull db)\<rparr>"

definition service_store_generation :: "client_db \<Rightarrow> int \<Rightarrow> ustring option" where
  "service_store_generation db svc = map_of (c_generation db) svc"

definition set_service_store_generation :: "client_db \<Rightarrow> int \<Rightarrow> ustring \<Rightarrow> client_db" where
  "set_service_store_generation db svc gen = db\<lparr>c_generation := AList.update svc gen (c_generation db)\<rparr>"

definition service_mapping_stats :: "client_db \<Rightarrow> int \<Rightarrow> merge_stats" where
  "service_mapping_stats db svc =
     (let rows = filter (\<lambda>(k, r). key_service k = svc) (c_maps db)
      in \<lparr>ms_matched = length (remdups (map (\<lambda>(k, r). key_file k) rows)), ms_mappings = length rows\<rparr>)"

definition file_mapping_stats :: "client_db \<Rightarrow> int \<Rightarrow> hash list \<Rightarrow> merge_stats" where
  "file_mapping_stats db svc hashes =
     fold (\<lambda>h st. case file_id_by_hash db h of
         None \<Rightarrow> st
       | Some file_id \<Rightarrow>
           (let n = length (filter (\<lambda>(k, r). key_service k = svc \<and> key_file k = file_id) (c_maps db))
            in if 0 < n then \<lparr>ms_matched = ms_matched st + 1, ms_mappings = ms_mappings st + n\<rparr> else st))
       hashes \<lparr>ms_matched = 0, ms_mappings = 0\<rparr>"

section \<open>What a pull asks for\<close>

definition max_file_id :: "client_db \<Rightarrow> int" where
  "max_file_id db = coalesce_max (map fst (c_files db))"

definition max_sha256_seq :: "client_db \<Rightarrow> int" where
  "max_sha256_seq db = c_sha256_seq db"

fun parse_all :: "ustring list \<Rightarrow> core_error + hash list" where
  "parse_all [] = Inr []"
| "parse_all (x # xs) = and_then (hash_from_str x) (\<lambda>h. and_then (parse_all xs) (\<lambda>hs. Inr (h # hs)))"

definition owned_hashes :: "client_db \<Rightarrow> core_error + hash list" where
  "owned_hashes db = parse_all (map (\<lambda>(i, f). df_blake3 f) (c_files db))"

text \<open>\<open>keys.sort(); keys.dedup()\<close>.\<close>

definition sort_dedup :: "ustring list \<Rightarrow> ustring list" where
  "sort_dedup keys = remdups_adj (sort keys)"

definition owned_bucket_keys_after_file_id :: "client_db \<Rightarrow> nat \<Rightarrow> int \<Rightarrow> core_error + ustring list" where
  "owned_bucket_keys_after_file_id db bits after =
     and_then (parse_all (map (\<lambda>(i, f). df_blake3 f) (filter (\<lambda>(i, f). after < i) (c_files db))))
       (\<lambda>hs. Inr (sort_dedup (map (\<lambda>h. bucket_key h bits) hs)))"

text \<open>Rows without a sequence number compare as NULL; those whose hash does not parse are skipped.\<close>

definition owned_sha256_bucket_keys_after_seq :: "client_db \<Rightarrow> (ustring \<Rightarrow> ustring) \<Rightarrow> nat \<Rightarrow> int \<Rightarrow> ustring list" where
  "owned_sha256_bucket_keys_after_seq db lc bits after =
     (let rows = List.map_filter (\<lambda>(i, f). case df_sha256_seq f of
              None \<Rightarrow> None | Some q \<Rightarrow> if after < q then df_sha256 f else None) (c_files db)
      in sort_dedup (map (\<lambda>h. bucket_key h bits) (List.map_filter (\<lambda>x. result_ok (hash_from_str (lc x))) rows)))"

definition sha256_domain_pull_inputs :: "client_db \<Rightarrow> (ustring \<Rightarrow> ustring) \<Rightarrow> hash list \<times> (ustring \<times> hash) list \<times> nat" where
  "sha256_domain_pull_inputs db lc =
     fold (\<lambda>(i, f) (keys, m, malformed).
         case df_sha256 f of
           None \<Rightarrow> (keys, m, malformed)
         | Some sha \<Rightarrow>
             (case (hash_from_str (lc (df_blake3 f)), hash_from_str (lc sha)) of
                (Inr blake, Inr key) \<Rightarrow> (keys @ [key], AList.update (lc sha) blake m, malformed)
              | _ \<Rightarrow> (keys, m, malformed + 1)))
       (c_files db) ([], [], 0)"

end
