(* ===== verification/DaemonPull.thy ===== *)
theory DaemonPull
  imports DbState NetPull
begin

text \<open>
  \<open>crates/daemon/src/ops.rs\<close>, how the daemon pulls a repository: the capability cache, the generation
  check, the incremental pull of one hash domain, the full pulls, the pull of single files, and the
  dispatch over the domains a repository serves.  \<open>DbState\<close> is the library they merge into, \<open>NetPull\<close>
  the client they fetch with.

  The database lock is dropped while a request is under way: \<open>env\<close> stands for what other threads
  commit meanwhile.  The GET requests, the JSON of their bodies, the backfill of SHA-256 hashes from
  disk and the first window of a pull, which comes from floating-point arithmetic on timings, are
  parameters.  Log lines are left out.
\<close>

section \<open>Requests by GET\<close>

datatype get_request = GetSnapshot "hash_domain option" | GetCaps

record 'w gets =
  net_get :: "get_request \<Rightarrow> 'w \<Rightarrow> http_body http_result \<times> 'w"
  json_caps :: "byte list \<Rightarrow> caps option"

definition checked :: "nat \<Rightarrow> 'a \<Rightarrow> fetch_error + 'a" where
  "checked v x = (case ensure_supported v of Inl e \<Rightarrow> Inl (WireVersion e) | Inr _ \<Rightarrow> Inr x)"

definition fetch_snapshot_in :: "('w, 'z) net_scheme \<Rightarrow> 'w gets \<Rightarrow> hash_domain option \<Rightarrow> 'w io \<Rightarrow>
    (fetch_error + snapshot_reply) \<times> 'w io" where
  "fetch_snapshot_in N G d io0 =
     (let started = net_now N (io_world io0);
          io1 = on_phase (RequestSent 0 1 1) io0
      in case net_get G (GetSnapshot d) (io_world io1) of
           (HttpOk body, w) \<Rightarrow>
             (let io2 = io1\<lparr>io_world := w\<rparr>
              in case and_then (read_capped_counted (json_snapshot N) body RESPONSE_SIZE_CAP)
                     (\<lambda>(sn, len). and_then (checked (sn_version sn) sn) (\<lambda>sn. Inr (sn, len))) of
                   Inl e \<Rightarrow> (Inl e, io2)
                 | Inr (sn, len) \<Rightarrow>
                     (Inr sn, on_phase (ChunkReceived 1 1 1 len len (length (sn_tags sn)) (tag_total (sn_tags sn))
                        (net_now N w - started)) io2))
         | (e, w) \<Rightarrow> (Inl (status_err e), io1\<lparr>io_world := w\<rparr>))"

definition fetch_caps :: "'w gets \<Rightarrow> 'w io \<Rightarrow> (fetch_error + caps) \<times> 'w io" where
  "fetch_caps G io0 =
     (case net_get G GetCaps (io_world io0) of
        (HttpOk body, w) \<Rightarrow>
          (and_then (read_capped (json_caps G) body RESPONSE_SIZE_CAP) (\<lambda>c. checked (caps_version c) c), io0\<lparr>io_world := w\<rparr>)
      | (e, w) \<Rightarrow> (Inl (status_err e), io0\<lparr>io_world := w\<rparr>))"

section \<open>The capability cache\<close>

text \<open>A notice about a query width raised to the repository's floor; its text is built from these.\<close>

record clamp_notice =
  cn_repo :: ustring
  cn_domain :: hash_domain
  cn_ceiling :: nat
  cn_floor :: nat
  cn_effective :: nat

record caps_cache =
  cc_caps :: "(int \<times> caps) list"
  cc_fetches :: nat
  cc_floor_warned :: "(int \<times> hash_domain) list"
  cc_notices :: "(int \<times> clamp_notice list) list"

definition get_or_fetch :: "'w gets \<Rightarrow> int \<Rightarrow> caps_cache \<Rightarrow> 'w io \<Rightarrow> (fetch_error + caps) \<times> caps_cache \<times> 'w io" where
  "get_or_fetch G svc cc io0 =
     (case map_of (cc_caps cc) svc of
        Some c \<Rightarrow> (Inr c, cc, io0)
      | None \<Rightarrow>
          (let cc = cc\<lparr>cc_fetches := cc_fetches cc + 1\<rparr>
           in case fetch_caps G io0 of
                (Inl e, io1) \<Rightarrow> (Inl e, cc, io1)
              | (Inr c, io1) \<Rightarrow> (Inr c, cc\<lparr>cc_caps := AList.update svc c (cc_caps cc)\<rparr>, io1)))"

definition note_floor_clamp_up :: "int \<Rightarrow> ustring \<Rightarrow> hash_domain \<Rightarrow> nat \<Rightarrow> nat \<Rightarrow> nat \<Rightarrow> caps_cache \<Rightarrow> caps_cache" where
  "note_floor_clamp_up svc name d ceiling floor0 effective cc =
     (if (svc, d) \<in> set (cc_floor_warned cc) then cc
      else cc\<lparr>cc_floor_warned := (svc, d) # cc_floor_warned cc,
              cc_notices := extend_entry svc [\<lparr>cn_repo = name, cn_domain = d, cn_ceiling = ceiling, cn_floor = floor0,
                cn_effective = effective\<rparr>] (cc_notices cc)\<rparr>)"

definition drain_pending_notice :: "int \<Rightarrow> caps_cache \<Rightarrow> clamp_notice option \<times> caps_cache" where
  "drain_pending_notice svc cc =
     (case map_of (cc_notices cc) svc of
        Some (n # ns) \<Rightarrow> (Some n, cc\<lparr>cc_notices := AList.update svc ns (cc_notices cc)\<rparr>)
      | _ \<Rightarrow> (None, cc))"

text \<open>The check before a pull: only the SHA-256 domain has a floor.\<close>

definition note_clamps :: "int \<Rightarrow> ustring \<Rightarrow> caps \<Rightarrow> nat \<Rightarrow> hash_domain list \<Rightarrow> caps_cache \<Rightarrow> caps_cache" where
  "note_clamps svc name caps ceiling ds cc =
     (case (caps_mode caps, min_query_bits caps) of
        (Bucketed advertised, Some f) \<Rightarrow>
          (let base = min advertised ceiling
           in fold (\<lambda>d cc. if d = Sha256 \<and> base < f
                      then note_floor_clamp_up svc name d ceiling f (min (max base f) advertised) cc else cc) ds cc)
      | _ \<Rightarrow> cc)"

section \<open>From wire rows to library rows\<close>

definition mapping_snapshot_entries :: "(ustring \<Rightarrow> ustring) \<Rightarrow> (ustring \<times> origin_tag list) list \<Rightarrow> tagged_entries" where
  "mapping_snapshot_entries lc tags =
     List.map_filter (\<lambda>(hex, ots).
       case hash_from_str hex of
         Inl _ \<Rightarrow> None
       | Inr h \<Rightarrow>
           (let parsed = List.map_filter (\<lambda>ot. case tag_parse lc (ot_tag ot) of Inl _ \<Rightarrow> None | Inr t \<Rightarrow> Some (t, ot_origin ot)) ots
            in if parsed = [] then None else Some (h, parsed))) tags"

definition delta_input_of :: "(ustring \<Rightarrow> ustring) \<Rightarrow> delta_mapping \<Rightarrow> delta_input option" where
  "delta_input_of lc m =
     (case hash_from_str (dm_hash m) of
        Inl _ \<Rightarrow> None
      | Inr h \<Rightarrow>
          (case tag_parse lc (dm_tag m) of
             Inl _ \<Rightarrow> None
           | Inr t \<Rightarrow> Some \<lparr>di_hash = h, di_tag = t, di_status = dm_status m, di_seq = dm_seq m, di_origin = dm_origin m\<rparr>))"

definition mapping_delta_inputs :: "(ustring \<Rightarrow> ustring) \<Rightarrow> delta_mapping list \<Rightarrow> delta_input list" where
  "mapping_delta_inputs lc changes = List.map_filter (delta_input_of lc) changes"

definition translate_sha256_entries :: "tagged_entries \<Rightarrow> (ustring \<times> hash) list \<Rightarrow> tagged_entries" where
  "translate_sha256_entries entries m =
     List.map_filter (\<lambda>(sha, tags). map_option (\<lambda>blake. (blake, tags)) (map_of m (to_hex sha))) entries"

definition translate_sha256_delta_inputs :: "delta_input list \<Rightarrow> (ustring \<times> hash) list \<Rightarrow> delta_input list" where
  "translate_sha256_delta_inputs inputs m =
     List.map_filter (\<lambda>c. map_option (\<lambda>blake. c\<lparr>di_hash := blake\<rparr>) (map_of m (to_hex (di_hash c)))) inputs"

section \<open>The store generation\<close>

definition reconcile_store_generation :: "int \<Rightarrow> caps \<Rightarrow> client_db \<Rightarrow> client_db" where
  "reconcile_store_generation svc caps db =
     (case caps_store_generation caps of
        None \<Rightarrow> db
      | Some new_gen \<Rightarrow>
          (case service_store_generation db svc of
             Some old_gen \<Rightarrow>
               if old_gen \<noteq> new_gen then set_service_store_generation (reset_service_cursors db svc) svc new_gen else db
           | None \<Rightarrow> set_service_store_generation db svc new_gen))"

section \<open>The incremental pull of one domain\<close>

datatype pull_error = NoSuchRepo ustring | LocalHash core_error | Fetching fetch_error

definition domain_floor :: "caps \<Rightarrow> hash_domain \<Rightarrow> nat option" where
  "domain_floor caps d = (if d = Sha256 then min_query_bits caps else None)"

text \<open>\<open>clamped_prefix_bits\<close> without its log lines.\<close>

definition clamped_prefix_bits :: "nat \<Rightarrow> nat \<Rightarrow> nat option \<Rightarrow> nat" where
  "clamped_prefix_bits advertised ceiling floor0 = effective_prefix_bits_floored advertised ceiling floor0"

definition key_list :: "hash list \<Rightarrow> nat \<Rightarrow> ustring list" where
  "key_list hs bits = sort_dedup (map (\<lambda>h. bucket_key h bits) hs)"

text \<open>What one brief lock reads.\<close>

record delta_plan =
  dp_keys :: "ustring list"
  dp_sha_map :: "(ustring \<times> hash) list option"
  dp_cursor :: "int option"
  dp_marker :: "int option"
  dp_current :: int
  dp_new_keys :: "ustring list"

definition plan_delta :: "(ustring \<Rightarrow> ustring) \<Rightarrow> int \<Rightarrow> hash_domain \<Rightarrow> nat \<Rightarrow> client_db \<Rightarrow> core_error + delta_plan" where
  "plan_delta lc svc d bits db =
     (let cursor = mapping_cursor_of db svc (domain_as_str d);
          marker = last_pull_file_marker db svc (domain_as_str d);
          after = (case marker of None \<Rightarrow> 0 | Some m \<Rightarrow> m)
      in case d of
           Sha256 \<Rightarrow>
             (let (keys, m, malformed) = sha256_domain_pull_inputs db lc
              in Inr \<lparr>dp_keys = key_list keys bits, dp_sha_map = Some m, dp_cursor = cursor, dp_marker = marker,
                   dp_current = max_sha256_seq db, dp_new_keys = owned_sha256_bucket_keys_after_seq db lc bits after\<rparr>)
         | Blake3 \<Rightarrow>
             and_then (owned_hashes db) (\<lambda>owned.
               and_then (owned_bucket_keys_after_file_id db bits after) (\<lambda>new_keys.
                 Inr \<lparr>dp_keys = key_list owned bits, dp_sha_map = None, dp_cursor = cursor, dp_marker = marker,
                   dp_current = max_file_id db, dp_new_keys = new_keys\<rparr>)))"

text \<open>\<open>new_keys\<close> is sorted, so the binary search is membership.\<close>

definition since_vector :: "delta_plan \<Rightarrow> nat list" where
  "since_vector p =
     (let cursor = nat (max 0 (case dp_cursor p of None \<Rightarrow> 0 | Some c \<Rightarrow> c))
      in if dp_marker p = None then map (\<lambda>_. 0) (dp_keys p)
         else map (\<lambda>k. if k \<in> set (dp_new_keys p) then 0 else cursor) (dp_keys p))"

text \<open>\<open>stored_cursor.is_some_and(|c| delta.cursor < c as u64)\<close>.\<close>

definition went_backwards :: "delta_plan \<Rightarrow> nat \<Rightarrow> bool" where
  "went_backwards p cursor = (case dp_cursor p of None \<Rightarrow> False | Some c \<Rightarrow> cursor < nat (c mod 2 ^ 64))"

definition full_ranges :: "nat \<Rightarrow> ustring list \<Rightarrow> nat list \<Rightarrow> (ustring \<times> ustring) list" where
  "full_ranges bits keys since =
     List.map_filter (\<lambda>(k, s). if s = 0
       then map_option (\<lambda>lo. (bucket_key lo bits, bucket_upper lo bits)) (result_ok (hash_from_str k)) else None)
       (zip keys since)"

text \<open>The fetch, repeated from zero when the cursor went backwards; the vector that counts comes with it.\<close>

definition fetch_guarded :: "('w, 'z) net_scheme \<Rightarrow> nat \<Rightarrow> delta_plan \<Rightarrow> hash_domain option \<Rightarrow> 'w io \<Rightarrow>
    (fetch_error + mapping_delta \<times> nat list) \<times> 'w io" where
  "fetch_guarded N bits p wire io0 =
     (let since = since_vector p
      in case fetch_bucket_delta_in N bits (dp_keys p) since wire io0 of
           (Inl e, io1) \<Rightarrow> (Inl e, io1)
         | (Inr md, io1) \<Rightarrow>
             if went_backwards p (md_cursor md) then
               (let zeros = map (\<lambda>_. 0) since
                in case fetch_bucket_delta_in N bits (dp_keys p) zeros wire io1 of
                     (Inl e, io2) \<Rightarrow> (Inl e, io2)
                   | (Inr md, io2) \<Rightarrow> (Inr (md, zeros), io2))
             else (Inr (md, since), io1))"

definition merge_fetched :: "(ustring \<Rightarrow> ustring) \<Rightarrow> int \<Rightarrow> int \<Rightarrow> hash_domain \<Rightarrow> nat \<Rightarrow> delta_plan \<Rightarrow> mapping_delta \<Rightarrow> nat list \<Rightarrow>
    client_db \<Rightarrow> client_db \<times> merge_stats" where
  "merge_fetched lc now svc d bits p md since db =
     (let inputs = mapping_delta_inputs lc (md_changes md);
          changes = (case dp_sha_map p of Some m \<Rightarrow> translate_sha256_delta_inputs inputs m | None \<Rightarrow> inputs)
      in merge_mapping_delta db now svc (domain_as_str d) changes (full_ranges bits (dp_keys p) since) (md_cursor md) (dp_current p))"

definition pull_domain_delta ::
  "('w, 'z) net_scheme \<Rightarrow> (ustring \<Rightarrow> ustring) \<Rightarrow> (client_db \<Rightarrow> client_db) \<Rightarrow> int \<Rightarrow> caps \<Rightarrow> int \<Rightarrow> nat \<Rightarrow> nat \<Rightarrow> hash_domain \<Rightarrow>
     client_db \<Rightarrow> 'w io \<Rightarrow> (pull_error + merge_stats) \<times> client_db \<times> 'w io" where
  "pull_domain_delta N lc env now caps svc advertised ceiling d db io0 =
     (let bits = clamped_prefix_bits advertised ceiling (domain_floor caps d)
      in case plan_delta lc svc d bits db of
           Inl e \<Rightarrow> (Inl (LocalHash e), db, io0)
         | Inr p \<Rightarrow>
             (case fetch_guarded N bits p (wire_domain caps d) io0 of
                (Inl e, io1) \<Rightarrow> (Inl (Fetching e), env db, io1)
              | (Inr (md, since), io1) \<Rightarrow>
                  (let (db', st) = merge_fetched lc now svc d bits p md since (env db) in (Inr st, db', io1))))"

section \<open>Full pulls\<close>

record domain_pull =
  pl_entries :: tagged_entries
  pl_cursor :: nat
  pl_marker :: "int option"

definition record_domain_cursor :: "int \<Rightarrow> hash_domain \<Rightarrow> nat \<Rightarrow> int option \<Rightarrow> client_db \<Rightarrow> client_db" where
  "record_domain_cursor svc d cursor marker db =
     (if 0 < cursor then
        set_mapping_pull_state db svc (domain_as_str d) cursor (case marker of Some m \<Rightarrow> m | None \<Rightarrow> max_file_id db)
      else clear_mapping_pull_state db svc (domain_as_str d))"

definition merge_domain_entries :: "int \<Rightarrow> int \<Rightarrow> hash_domain \<Rightarrow> domain_pull \<Rightarrow> client_db \<Rightarrow> client_db \<times> merge_stats" where
  "merge_domain_entries now svc d pull db =
     (let (db1, st) = merge_pulled_mappings_in_domain db now svc (domain_as_str d) (pl_entries pull)
      in (record_domain_cursor svc d (pl_cursor pull) (pl_marker pull) db1, st))"

text \<open>
  \<open>seed d advertised bits\<close> is the first window that \<open>seed_ms_per_bucket\<close> leads to.  \<open>None\<close> is a
  streamed pull that never ends.
\<close>

type_synonym seeding = "hash_domain \<Rightarrow> nat \<Rightarrow> nat \<Rightarrow> nat"

definition fetched :: "fetch_error + snapshot_reply \<Rightarrow> (snapshot_reply \<Rightarrow> 'b) \<Rightarrow> pull_error + 'b" where
  "fetched r k = (case r of Inl e \<Rightarrow> Inl (Fetching e) | Inr sn \<Rightarrow> Inr (k sn))"

definition fetch_blake3_entries ::
  "('w, 'z) net_scheme \<Rightarrow> 'w gets \<Rightarrow> (ustring \<Rightarrow> ustring) \<Rightarrow> seeding \<Rightarrow> caps \<Rightarrow> nat \<Rightarrow> client_db \<Rightarrow> 'w io \<Rightarrow>
     ((pull_error + domain_pull) \<times> 'w io) option" where
  "fetch_blake3_entries N G lc seed caps ceiling db io0 =
     (let wire = wire_domain caps Blake3;
          pulled = (\<lambda>marker sn. \<lparr>pl_entries = mapping_snapshot_entries lc (sn_tags sn), pl_cursor = sn_cursor sn, pl_marker = marker\<rparr>)
      in case caps_mode caps of
           WholeRepo \<Rightarrow>
             (let (r, io1) = fetch_snapshot_in N G wire io0 in Some (fetched r (pulled None), io1))
         | Bucketed advertised \<Rightarrow>
             (let bits = clamped_prefix_bits advertised ceiling None
              in case owned_hashes db of
                   Inl e \<Rightarrow> Some (Inl (LocalHash e), io0)
                 | Inr owned \<Rightarrow>
                     map_option (\<lambda>(r, io1). (fetched r (pulled (Some (max_file_id db))), io1))
                       (fetch_buckets_in N bits (key_list owned bits) wire (seed Blake3 advertised bits) (streaming caps) io0)))"

definition fetch_sha256_entries ::
  "('w, 'z) net_scheme \<Rightarrow> 'w gets \<Rightarrow> (ustring \<Rightarrow> ustring) \<Rightarrow> seeding \<Rightarrow> caps \<Rightarrow> nat \<Rightarrow> client_db \<Rightarrow> 'w io \<Rightarrow>
     ((pull_error + domain_pull) \<times> 'w io) option" where
  "fetch_sha256_entries N G lc seed caps ceiling db io0 =
     (let wire = wire_domain caps Sha256;
          (sha_owned, m, malformed) = sha256_domain_pull_inputs db lc;
          marker = max_sha256_seq db;
          pulled = (\<lambda>sn. \<lparr>pl_entries = translate_sha256_entries (mapping_snapshot_entries lc (sn_tags sn)) m,
                      pl_cursor = sn_cursor sn, pl_marker = Some marker\<rparr>)
      in case caps_mode caps of
           WholeRepo \<Rightarrow>
             (let (r, io1) = fetch_snapshot_in N G wire io0 in Some (fetched r pulled, io1))
         | Bucketed advertised \<Rightarrow>
             (let bits = clamped_prefix_bits advertised ceiling (min_query_bits caps)
              in map_option (\<lambda>(r, io1). (fetched r pulled, io1))
                   (fetch_buckets_in N bits (key_list sha_owned bits) wire (seed Sha256 advertised bits) (streaming caps) io0)))"

section \<open>Pulling a repository\<close>

record shared_service =
  ss_id :: int
  ss_name :: ustring
  ss_url :: ustring

definition shared_service_by_name :: "shared_service list \<Rightarrow> ustring \<Rightarrow> shared_service option" where
  "shared_service_by_name services name = find (\<lambda>s. ss_name s = name) services"

text \<open>\<open>sort_by_key(as_str)\<close>, then \<open>dedup\<close>.\<close>

definition sorted_domains :: "caps \<Rightarrow> hash_domain list" where
  "sorted_domains caps = remdups_adj (sort_key domain_as_str (caps_domains caps))"

type_synonym 'w pulled = "((pull_error + merge_stats) \<times> client_db \<times> 'w io) option"

definition full_leg ::
  "('w, 'z) net_scheme \<Rightarrow> 'w gets \<Rightarrow> (ustring \<Rightarrow> ustring) \<Rightarrow> seeding \<Rightarrow> (client_db \<Rightarrow> client_db) \<Rightarrow> int \<Rightarrow> caps \<Rightarrow> int \<Rightarrow>
     nat \<Rightarrow> hash_domain \<Rightarrow> client_db \<Rightarrow> 'w io \<Rightarrow> 'w pulled" where
  "full_leg N G lc seed env now caps svc ceiling d db io0 =
     (case (case d of Blake3 \<Rightarrow> fetch_blake3_entries | Sha256 \<Rightarrow> fetch_sha256_entries) N G lc seed caps ceiling db io0 of
        None \<Rightarrow> None
      | Some (Inl e, io1) \<Rightarrow> Some (Inl e, env db, io1)
      | Some (Inr pull, io1) \<Rightarrow> (let (db', st) = merge_domain_entries now svc d pull (env db) in Some (Inr st, db', io1)))"

text \<open>One domain: incremental where the repository serves deltas, else full.\<close>

definition pull_leg ::
  "('w, 'z) net_scheme \<Rightarrow> 'w gets \<Rightarrow> (ustring \<Rightarrow> ustring) \<Rightarrow> seeding \<Rightarrow> (client_db \<Rightarrow> client_db) \<Rightarrow> int \<Rightarrow> caps \<Rightarrow> int \<Rightarrow>
     nat \<Rightarrow> hash_domain \<Rightarrow> client_db \<Rightarrow> 'w io \<Rightarrow> 'w pulled" where
  "pull_leg N G lc seed env now caps svc ceiling d db io0 =
     (case caps_mode caps of
        Bucketed advertised \<Rightarrow>
          if serves_deltas caps d then Some (pull_domain_delta N lc env now caps svc advertised ceiling d db io0)
          else full_leg N G lc seed env now caps svc ceiling d db io0
      | WholeRepo \<Rightarrow> full_leg N G lc seed env now caps svc ceiling d db io0)"

text \<open>Several domains: an independent leg for each, and the totals of the service afterwards.\<close>

definition pull_legs ::
  "('w, 'z) net_scheme \<Rightarrow> 'w gets \<Rightarrow> (ustring \<Rightarrow> ustring) \<Rightarrow> seeding \<Rightarrow> (client_db \<Rightarrow> client_db) \<Rightarrow> int \<Rightarrow> caps \<Rightarrow> int \<Rightarrow>
     nat \<Rightarrow> hash_domain list \<Rightarrow> client_db \<Rightarrow> 'w io \<Rightarrow> 'w pulled" where
  "pull_legs N G lc seed env now caps svc ceiling ds db io0 =
     (case ds of
        [d] \<Rightarrow> pull_leg N G lc seed env now caps svc ceiling d db io0
      | _ \<Rightarrow>
          (let leg = (\<lambda>d db io0. if d \<in> set ds then pull_leg N G lc seed env now caps svc ceiling d db io0
                        else Some (Inr \<lparr>ms_matched = 0, ms_mappings = 0\<rparr>, db, io0))
           in case leg Blake3 db io0 of
                None \<Rightarrow> None
              | Some (Inl e, db1, io1) \<Rightarrow> Some (Inl e, db1, io1)
              | Some (Inr _, db1, io1) \<Rightarrow>
                  (case leg Sha256 db1 io1 of
                     None \<Rightarrow> None
                   | Some (Inl e, db2, io2) \<Rightarrow> Some (Inl e, db2, io2)
                   | Some (Inr _, db2, io2) \<Rightarrow> Some (Inr (service_mapping_stats db2 svc), db2, io2))))"

text \<open>\<open>backfill\<close> hashes the files without a SHA-256 from disk.\<close>

definition pull_repo ::
  "('w, 'z) net_scheme \<Rightarrow> 'w gets \<Rightarrow> (ustring \<Rightarrow> ustring) \<Rightarrow> seeding \<Rightarrow> (client_db \<Rightarrow> client_db) \<Rightarrow>
     (client_db \<Rightarrow> pull_error + client_db) \<Rightarrow> int \<Rightarrow> shared_service list \<Rightarrow> ustring \<Rightarrow> nat \<Rightarrow>
     client_db \<Rightarrow> caps_cache \<Rightarrow> 'w io \<Rightarrow> ((pull_error + merge_stats) \<times> client_db \<times> caps_cache \<times> 'w io) option" where
  "pull_repo N G lc seed env backfill now services name ceiling db cc io0 =
     (case shared_service_by_name services name of
        None \<Rightarrow> Some (Inl (NoSuchRepo name), db, cc, io0)
      | Some svc \<Rightarrow>
          (case get_or_fetch G (ss_id svc) cc io0 of
             (Inl e, cc1, io1) \<Rightarrow> Some (Inl (Fetching e), db, cc1, io1)
           | (Inr caps, cc1, io1) \<Rightarrow>
               (let db1 = reconcile_store_generation (ss_id svc) caps db
                in case (if serves caps Sha256 then backfill db1 else Inr db1) of
                     Inl e \<Rightarrow> Some (Inl e, db1, cc1, io1)
                   | Inr db2 \<Rightarrow>
                       (let ds = sorted_domains caps;
                            cc2 = note_clamps (ss_id svc) name caps ceiling ds cc1
                        in map_option (\<lambda>(r, db3, io2). (r, db3, cc2, io2))
                             (pull_legs N G lc seed env now caps (ss_id svc) ceiling ds db2 io1)))))"

section \<open>Pulling single files\<close>

definition fetch_scoped_snapshot ::
  "('w, 'z) net_scheme \<Rightarrow> 'w gets \<Rightarrow> seeding \<Rightarrow> caps \<Rightarrow> hash_domain \<Rightarrow> hash list \<Rightarrow> nat \<Rightarrow> 'w io \<Rightarrow>
     ((fetch_error + snapshot_reply) \<times> 'w io) option" where
  "fetch_scoped_snapshot N G seed caps d keys_from ceiling io0 =
     (let wire = wire_domain caps d
      in case caps_mode caps of
           WholeRepo \<Rightarrow> Some (fetch_snapshot_in N G wire io0)
         | Bucketed advertised \<Rightarrow>
             (let bits = effective_prefix_bits_floored advertised ceiling (domain_floor caps d)
              in fetch_buckets_in N bits (key_list keys_from bits) wire (seed d advertised bits) (streaming caps) io0))"

definition sha256_of :: "client_db \<Rightarrow> hash \<Rightarrow> ustring option" where
  "sha256_of db h = Option.bind (find (\<lambda>(i, f). df_blake3 f = to_hex h) (c_files db)) (\<lambda>(i, f). df_sha256 f)"

text \<open>The interop hashes of the requested files, and the files that have none.\<close>

definition interop_keys :: "client_db \<Rightarrow> (ustring \<Rightarrow> ustring) \<Rightarrow> hash list \<Rightarrow> hash list \<times> (ustring \<times> hash) list \<times> hash list" where
  "interop_keys db lc hashes =
     fold (\<lambda>h (keys, m, missing).
         case sha256_of db h of
           None \<Rightarrow> (keys, m, missing @ [h])
         | Some sha \<Rightarrow>
             (case hash_from_str (lc sha) of
                Inl _ \<Rightarrow> (keys, m, missing @ [h])
              | Inr key \<Rightarrow> (keys @ [key], AList.update (lc sha) h m, missing)))
       hashes ([], [], [])"

definition coalesce :: "tagged_entries \<Rightarrow> tagged_entries" where
  "coalesce entries = extend_tags entries []"

definition merge_legs :: "int \<Rightarrow> caps \<Rightarrow> int \<Rightarrow> hash list \<Rightarrow> tagged_entries \<Rightarrow> tagged_entries \<Rightarrow> client_db \<Rightarrow> client_db \<times> merge_stats" where
  "merge_legs now caps svc hashes blake3_entries sha256_entries db =
     (let (db1, n1) = (if serves caps Blake3 then
            (let (db1, st) = merge_pulled_mappings_for_files_in_domain db now svc hashes (domain_as_str Blake3) blake3_entries
             in (db1, ms_mappings st)) else (db, 0));
          (db2, n2) = (if serves caps Sha256 then
            (let (db2, st) = merge_pulled_mappings_for_files_in_domain db1 now svc hashes (domain_as_str Sha256) sha256_entries
             in (db2, ms_mappings st)) else (db1, 0))
      in (db2, \<lparr>ms_matched = ms_matched (file_mapping_stats db2 svc hashes), ms_mappings = n1 + n2\<rparr>))"

definition pull_repo_for_hashes ::
  "('w, 'z) net_scheme \<Rightarrow> 'w gets \<Rightarrow> (ustring \<Rightarrow> ustring) \<Rightarrow> seeding \<Rightarrow> (client_db \<Rightarrow> client_db) \<Rightarrow> int \<Rightarrow>
     shared_service list \<Rightarrow> ustring \<Rightarrow> nat \<Rightarrow> hash list \<Rightarrow> client_db \<Rightarrow> caps_cache \<Rightarrow> 'w io \<Rightarrow>
     ((pull_error + merge_stats \<times> hash list) \<times> client_db \<times> caps_cache \<times> 'w io) option" where
  "pull_repo_for_hashes N G lc seed env now services name ceiling hashes db cc io0 =
     (case shared_service_by_name services name of
        None \<Rightarrow> Some (Inl (NoSuchRepo name), db, cc, io0)
      | Some svc \<Rightarrow>
          (case get_or_fetch G (ss_id svc) cc io0 of
             (Inl e, cc1, io1) \<Rightarrow> Some (Inl (Fetching e), db, cc1, io1)
           | (Inr caps, cc1, io1) \<Rightarrow>
               (let db1 = reconcile_store_generation (ss_id svc) caps db;
                    cc2 = note_clamps (ss_id svc) name caps ceiling (caps_domains caps) cc1;
                    none = (Inr \<lparr>sn_version = 0, sn_cursor = 0, sn_tags = []\<rparr> :: fetch_error + snapshot_reply)
                in case (if serves caps Blake3 then fetch_scoped_snapshot N G seed caps Blake3 hashes ceiling io1 else Some (none, io1)) of
                     None \<Rightarrow> None
                   | Some (Inl e, io2) \<Rightarrow> Some (Inl (Fetching e), env db1, cc2, io2)
                   | Some (Inr sn1, io2) \<Rightarrow>
                       (let db2 = (if serves caps Blake3 then env db1 else db1);
                            (sha_keys, m, missing) = (if serves caps Sha256 then interop_keys db2 lc hashes else ([], [], []));
                            query = (serves caps Sha256 \<and> sha_keys \<noteq> [])
                        in case (if query then fetch_scoped_snapshot N G seed caps Sha256 sha_keys ceiling io2 else Some (none, io2)) of
                             None \<Rightarrow> None
                           | Some (Inl e, io3) \<Rightarrow> Some (Inl (Fetching e), env db2, cc2, io3)
                           | Some (Inr sn2, io3) \<Rightarrow>
                               (let (db3, st) = merge_legs now caps (ss_id svc) hashes
                                      (coalesce (mapping_snapshot_entries lc (sn_tags sn1)))
                                      (coalesce (translate_sha256_entries (mapping_snapshot_entries lc (sn_tags sn2)) m))
                                      (if query then env db2 else db2)
                                in Some (Inr (st, missing), db3, cc2, io3))))))"

end
