(* ===== verification/DbMerge.thy ===== *)
theory DbMerge
  imports DbState
begin

text \<open>
  What the merges of \<open>DbState\<close> do to the mapping table, seen as a map from file, tag and service to
  rows, and as the set of pairs each domain supplies.  The mask of a row says which domains supply
  it; a merge for one domain replaces the pairs of that domain and no others, and leaves no row that
  nobody supplies.
\<close>

section \<open>The table as a map\<close>

definition rows :: "client_db \<Rightarrow> int \<times> tag \<times> int \<Rightarrow> db_row option" where
  "rows db k = (case k of (f, t, svc) \<Rightarrow>
     (case map_of (c_tags db) t of None \<Rightarrow> None | Some i \<Rightarrow> map_of (c_maps db) (f, i, svc)))"

text \<open>A domain, given by its bit, supplies a tag of a file to a service.\<close>

definition supplies :: "client_db \<Rightarrow> int \<Rightarrow> 64 word \<Rightarrow> int \<Rightarrow> tag \<Rightarrow> bool" where
  "supplies db svc b f t = (case rows db (f, t, svc) of None \<Rightarrow> False | Some r \<Rightarrow> m_domains r AND b \<noteq> 0)"

definition db_ok :: "client_db \<Rightarrow> bool" where
  "db_ok db \<longleftrightarrow> distinct (map fst (c_files db)) \<and> distinct (map (\<lambda>(i, f). df_blake3 f) (c_files db)) \<and>
     ids_ok (c_tags db) \<and> ids_ok (c_origins db) \<and> keyed (c_maps db) \<and> keyed (c_pull db) \<and>
     (\<forall>k r. map_of (c_maps db) k = Some r \<longrightarrow> key_tag k \<in> snd ` set (c_tags db) \<and> m_domains r \<noteq> 0)"

text \<open>Everything but the dictionaries and the mappings.\<close>

definition same_library :: "client_db \<Rightarrow> client_db \<Rightarrow> bool" where
  "same_library db db' \<longleftrightarrow> (\<exists>ts os ms. db' = db\<lparr>c_tags := ts, c_origins := os, c_maps := ms\<rparr>)"

lemma same_library_fields:
  "same_library db db' \<Longrightarrow> c_files db' = c_files db \<and> c_sha256_seq db' = c_sha256_seq db \<and> c_pull db' = c_pull db \<and>
    c_relation_cursor db' = c_relation_cursor db \<and> c_generation db' = c_generation db"
  by (auto simp: same_library_def)

lemma same_library_refl [simp]: "same_library db db"
  unfolding same_library_def by (intro exI [of _ "c_tags db"] exI [of _ "c_origins db"] exI [of _ "c_maps db"]) simp

lemma same_library_trans: "same_library db db' \<Longrightarrow> same_library db' db'' \<Longrightarrow> same_library db db''"
  unfolding same_library_def by force

lemma same_library_maps [simp]: "same_library db (db\<lparr>c_maps := ms\<rparr>)"
  unfolding same_library_def by (intro exI [of _ "c_tags db"] exI [of _ "c_origins db"] exI [of _ ms]) simp

lemma same_library_file: "same_library db db' \<Longrightarrow> file_id_by_hash db' = file_id_by_hash db"
  using same_library_fields [of db db'] by (simp add: file_id_by_hash_def fun_eq_iff)

section \<open>Masks\<close>

lemma mask_retract [simp]: "(x AND NOT b) AND b = (0 :: 64 word)"
  by (rule bit_eqI) (simp add: bit_simps)

lemma disjoint_bits: "b AND c = (0 :: 64 word) \<Longrightarrow> \<not> (bit b n \<and> bit c n)"
  by (metis bit_0_eq bit_and_iff bot_apply bot_bool_def)

lemma mask_other:
  assumes "b AND c = (0 :: 64 word)"
  shows "(x AND NOT b) AND c = x AND c" "(x OR b) AND c = x AND c"
  using disjoint_bits [OF assms] by (auto intro!: bit_eqI simp: bit_simps)

lemma mask_assert: "b \<noteq> 0 \<Longrightarrow> (x OR b) AND b \<noteq> (0 :: 64 word)" "b \<noteq> 0 \<Longrightarrow> x OR b \<noteq> (0 :: 64 word)"
proof -
  assume b: "b \<noteq> 0"
  have "(x OR b) AND b = b" by (rule bit_eqI) (auto simp: bit_simps)
  then show "(x OR b) AND b \<noteq> 0" using b by simp
  then show "x OR b \<noteq> 0" using b by (metis and_zero_eq and.commute)
qed

text \<open>A mask that one bit leaves empty meets no other domain.\<close>

lemma mask_gone: "x AND NOT b = (0 :: 64 word) \<Longrightarrow> b AND c = 0 \<Longrightarrow> x AND c = 0"
  using mask_other(1) [of b c x] by simp

text \<open>A row that loses one bit of its mask keeps another, unless it had that bit alone.\<close>

lemma mask_left: "x AND NOT b = (0 :: 64 word) \<Longrightarrow> x AND b \<noteq> 0 \<or> x = 0"
proof (rule ccontr)
  assume *: "x AND NOT b = 0" "\<not> (x AND b \<noteq> 0 \<or> x = 0)"
  have "x = (x AND b) OR (x AND NOT b)" by (rule bit_eqI) (auto simp: bit_simps)
  then show False using * by simp
qed

lemma domain_bit_cases: "domain_bit d = 1 \<or> domain_bit d = 2"
  by (simp add: domain_bit_def DOMAIN_BIT_BLAKE3_def DOMAIN_BIT_SHA256_def)

lemma domain_bit_nonzero [simp]: "domain_bit d \<noteq> 0"
  using domain_bit_cases [of d] by auto

section \<open>Statements\<close>

lemma map_of_upsert: "map_of (sql_upsert k new upd t) =
    (map_of t)(k \<mapsto> (case map_of t k of None \<Rightarrow> new | Some r \<Rightarrow> upd r))"
  by (simp add: sql_upsert_def split: option.split)

lemma keyed_upsert [simp]: "keyed t \<Longrightarrow> keyed (sql_upsert k new upd t)"
  by (simp add: sql_upsert_def split: option.split)

lemma map_of_retract: "map_of (retract P b t) k =
    map_option (\<lambda>r. if P k r then r\<lparr>m_domains := m_domains r AND NOT b\<rparr> else r) (map_of t k)"
  unfolding retract_def by (rule map_of_map_snd)

lemma keyed_retract [simp]: "keyed (retract P b t) = keyed t"
  by (simp add: retract_def)

lemma map_of_delete: "keyed t \<Longrightarrow> map_of (sql_delete P t) k = (case map_of t k of None \<Rightarrow> None | Some r \<Rightarrow> if P k r then None else Some r)"
  by (simp add: sql_delete_def map_of_filter_keyed split: option.split)

lemma keyed_delete [simp]: "keyed t \<Longrightarrow> keyed (sql_delete P t)"
  by (simp add: sql_delete_def)

lemma key_simps [simp]: "key_file (f, i, s) = f" "key_tag (f, i, s) = i" "key_service (f, i, s) = s"
  by (simp_all add: key_file_def key_tag_def key_service_def)

section \<open>Interning leaves the rows alone\<close>

definition cached :: "client_db \<Rightarrow> tag_cache \<Rightarrow> bool" where
  "cached db pending \<longleftrightarrow> (\<forall>t i. map_of pending t = Some i \<longrightarrow> map_of (c_tags db) t = Some i)"

lemma cached_Nil [simp]: "cached db []"
  by (simp add: cached_def)

lemma rows_new_tag:
  assumes "db_ok db"
  shows "rows (db\<lparr>c_tags := snd (intern_row (c_tags db) t)\<rparr>) = rows db" "db_ok (db\<lparr>c_tags := snd (intern_row (c_tags db) t)\<rparr>)"
proof -
  let ?ts = "snd (intern_row (c_tags db) t)"
  have ok: "ids_ok (c_tags db)" and key: "\<And>k r. map_of (c_maps db) k = Some r \<Longrightarrow> key_tag k \<in> snd ` set (c_tags db)"
    using assms unfolding db_ok_def by blast+
  have "(case map_of ?ts t' of None \<Rightarrow> None | Some i \<Rightarrow> map_of (c_maps db) (f, i, s)) =
      (case map_of (c_tags db) t' of None \<Rightarrow> None | Some i \<Rightarrow> map_of (c_maps db) (f, i, s))" for t' f s
  proof (cases "t' = t \<and> map_of (c_tags db) t = None")
    case True
    then have new: "map_of ?ts t' = Some (next_id (c_tags db))" by (simp add: intern_row_def map_of_snoc del: map_of_append)
    have "map_of (c_maps db) (f, next_id (c_tags db), s) = None"
      using key [of "(f, next_id (c_tags db), s)"] next_id_fresh [of "c_tags db"] by (metis key_simps(2) option.exhaust)
    then show ?thesis using True new by simp
  next
    case False
    then have "map_of ?ts t' = map_of (c_tags db) t'"
      using ids.intern_only [OF ok, of t t'] by (cases "map_of (c_tags db) t") (auto simp: intern_row_def)
    then show ?thesis by simp
  qed
  then show "rows (db\<lparr>c_tags := ?ts\<rparr>) = rows db" by (simp add: rows_def fun_eq_iff cong: option.case_cong)
  have "snd ` set (c_tags db) \<subseteq> snd ` set ?ts" by (auto simp: intern_row_def split: option.split)
  then show "db_ok (db\<lparr>c_tags := ?ts\<rparr>)"
    using assms ids.intern_ok [OF ok, of t] unfolding db_ok_def by auto
qed

lemma rows_origins [simp]: "rows (db\<lparr>c_origins := os\<rparr>) = rows db"
  by (simp add: rows_def fun_eq_iff split: option.split)

lemma intern_tag_cached_spec:
  assumes "db_ok db" "cached db pending" "intern_tag_cached db t [] pending = (i, pending', db')"
  shows "db_ok db'" "cached db' pending'" "map_of (c_tags db') t = Some i" "rows db' = rows db" "same_library db db'"
    "c_maps db' = c_maps db"
proof -
  have ok: "ids_ok (c_tags db)" using assms(1) by (simp add: db_ok_def)
  let ?db = "db\<lparr>c_tags := snd (intern_row (c_tags db) t)\<rparr>"
  have cases: "(db' = db \<and> pending' = pending \<and> map_of pending t = Some i) \<or>
      (db' = ?db \<and> i = fst (intern_row (c_tags db) t) \<and> pending' = AList.update t i pending)"
    using assms(3) by (auto simp: intern_tag_cached_def intern_tag_def split: option.splits prod.splits)
  have lib: "same_library db ?db"
    unfolding same_library_def
    by (intro exI [of _ "snd (intern_row (c_tags db) t)"] exI [of _ "c_origins db"] exI [of _ "c_maps db"]) simp
  show "db_ok db'" "rows db' = rows db" using cases rows_new_tag [OF assms(1), of t] assms(1) by auto
  show "same_library db db'" "c_maps db' = c_maps db" using cases lib by auto
  show "map_of (c_tags db') t = Some i"
    using cases assms(2) ids.intern_found [OF ok, of t] by (auto simp: cached_def)
  show "cached db' pending'"
    using cases assms(2) ids.intern_found [OF ok, of t] ids.intern_keeps [OF ok] by (auto simp: cached_def split: if_splits)
qed

lemma origin_id_of_spec:
  assumes "db_ok db" "origin_id_of db og oc = (oid, oc', db')"
  shows "db_ok db'" "rows db' = rows db" "same_library db db'" "c_tags db' = c_tags db" "c_maps db' = c_maps db"
proof -
  have "\<exists>os. db' = db\<lparr>c_origins := os\<rparr> \<and> ids_ok os"
    using assms ids.intern_ok [of "c_origins db"]
    by (auto simp: origin_id_of_def intern_origin_cached_def intern_origin_def db_ok_def case_prod_beta Let_def
        split: option.splits prod.splits intro: exI [of _ "c_origins db"])
  then obtain os where db': "db' = db\<lparr>c_origins := os\<rparr>" "ids_ok os" by blast
  show "db_ok db'" using assms(1) db' by (simp add: db_ok_def)
  show "rows db' = rows db" "c_tags db' = c_tags db" "c_maps db' = c_maps db" by (simp_all add: db')
  show "same_library db db'" unfolding same_library_def db'
    by (intro exI [of _ "c_tags db"] exI [of _ os] exI [of _ "c_maps db"]) simp
qed

section \<open>The merge of one domain\<close>

text \<open>Writing one row of the table.\<close>

lemma rows_maps_update:
  assumes "ids_ok (c_tags db)" "map_of (c_tags db) t = Some i"
    and "\<And>k. map_of ms k = (if k = (f, i, svc) then new else map_of (c_maps db) k)"
  shows "rows (db\<lparr>c_maps := ms\<rparr>) = (\<lambda>k. if k = (f, t, svc) then new else rows db k)"
proof (rule ext)
  fix k :: "int \<times> tag \<times> int"
  obtain f' t' svc' where k: "k = (f', t', svc')" by (rule prod_cases3)
  show "rows (db\<lparr>c_maps := ms\<rparr>) k = (if k = (f, t, svc) then new else rows db k)"
  proof (cases "map_of (c_tags db) t'")
    case None
    then have "t' \<noteq> t" using assms(2) by auto
    then show ?thesis using None by (simp add: rows_def k)
  next
    case (Some j)
    then have "j = i \<longleftrightarrow> t' = t" using ids.lookup_inj [OF assms(1) _ assms(2), of t'] assms(2) by auto
    then show ?thesis using Some by (simp add: rows_def k assms(3))
  qed
qed

lemma db_ok_maps:
  assumes "db_ok db" "keyed ms" "\<And>k r. map_of ms k = Some r \<Longrightarrow> key_tag k \<in> snd ` set (c_tags db) \<and> m_domains r \<noteq> 0"
  shows "db_ok (db\<lparr>c_maps := ms\<rparr>)"
  using assms unfolding db_ok_def by simp

lemma db_okD:
  assumes "db_ok db"
  shows "ids_ok (c_tags db)" "keyed (c_maps db)" "map_of (c_maps db) k = Some r \<Longrightarrow> key_tag k \<in> snd ` set (c_tags db)"
    "map_of (c_maps db) k = Some r \<Longrightarrow> m_domains r \<noteq> 0" "distinct (map fst (c_files db))"
    "distinct (map (\<lambda>(i, f). df_blake3 f) (c_files db))"
  using assms unfolding db_ok_def by blast+

lemma to_hex_eq_iff [simp]: "to_hex a = to_hex b \<longleftrightarrow> a = b"
  using hex_pairs_to_hex by (metis option.inject)

lemma file_id_by_hash_iff:
  assumes "db_ok db"
  shows "file_id_by_hash db h = Some f \<longleftrightarrow> (\<exists>r. (f, r) \<in> set (c_files db) \<and> df_blake3 r = to_hex h)"
proof
  assume "file_id_by_hash db h = Some f"
  then obtain p where p: "find (\<lambda>(i, f). df_blake3 f = to_hex h) (c_files db) = Some p" "fst p = f"
    by (auto simp: file_id_by_hash_def)
  then show "\<exists>r. (f, r) \<in> set (c_files db) \<and> df_blake3 r = to_hex h"
    by (cases p) (auto simp: find_Some_iff intro!: exI [of _ "snd p"], metis nth_mem)
next
  assume "\<exists>r. (f, r) \<in> set (c_files db) \<and> df_blake3 r = to_hex h"
  then obtain r where r: "(f, r) \<in> set (c_files db)" "df_blake3 r = to_hex h" by blast
  then have "find (\<lambda>(i, f). df_blake3 f = to_hex h) (c_files db) \<noteq> None" by (auto simp: find_None_iff)
  then obtain p where p: "find (\<lambda>(i, f). df_blake3 f = to_hex h) (c_files db) = Some p" by blast
  then have "p \<in> set (c_files db)" "df_blake3 (snd p) = to_hex h" by (auto simp: find_Some_iff dest: nth_mem)
  then have "p = (f, r)"
    using r db_okD(6) [OF assms] by (metis (mono_tags, lifting) case_prod_beta distinct_map inj_onD snd_conv)
  then show "file_id_by_hash db h = Some f" by (simp add: file_id_by_hash_def p)
qed

lemma file_id_by_hash_inj:
  "db_ok db \<Longrightarrow> file_id_by_hash db h = Some f \<Longrightarrow> file_id_by_hash db h' = Some f \<Longrightarrow> h' = h"
proof -
  assume db: "db_ok db" and "file_id_by_hash db h = Some f" "file_id_by_hash db h' = Some f"
  then obtain r r' where r: "(f, r) \<in> set (c_files db)" "df_blake3 r = to_hex h" "(f, r') \<in> set (c_files db)" "df_blake3 r' = to_hex h'"
    by (auto simp: file_id_by_hash_iff)
  have "r' = r" using r(1,3) db_okD(5) [OF db] by (meson eq_key_imp_eq_value)
  then show ?thesis using r(2,4) by simp
qed

lemma upsert_row_spec:
  assumes "db_ok db" "map_of (c_tags db) t = Some i" "m_domains new \<noteq> 0" "\<And>r. m_domains r \<noteq> 0 \<Longrightarrow> m_domains (upd r) \<noteq> 0"
  shows "db_ok (db\<lparr>c_maps := sql_upsert (f, i, svc) new upd (c_maps db)\<rparr>)"
    and "rows (db\<lparr>c_maps := sql_upsert (f, i, svc) new upd (c_maps db)\<rparr>) =
      (rows db)((f, t, svc) \<mapsto> (case rows db (f, t, svc) of None \<Rightarrow> new | Some r \<Rightarrow> upd r))"
proof -
  note ok = db_okD [OF assms(1)]
  have row: "rows db (f, t, svc) = map_of (c_maps db) (f, i, svc)" by (simp add: rows_def assms(2))
  show "db_ok (db\<lparr>c_maps := sql_upsert (f, i, svc) new upd (c_maps db)\<rparr>)"
    using ok(2-4) assms(2-4) map_of_snd [OF assms(2)]
    by (intro db_ok_maps [OF assms(1)]) (auto simp: map_of_upsert split: option.splits if_splits)
  show "rows (db\<lparr>c_maps := sql_upsert (f, i, svc) new upd (c_maps db)\<rparr>) =
      (rows db)((f, t, svc) \<mapsto> (case rows db (f, t, svc) of None \<Rightarrow> new | Some r \<Rightarrow> upd r))"
    by (subst rows_maps_update [OF ok(1) assms(2), where new = "Some (case rows db (f, t, svc) of None \<Rightarrow> new | Some r \<Rightarrow> upd r)"])
      (auto simp: map_of_upsert row)
qed

text \<open>
  A change of what one domain supplies to one service, given pair by pair; the other domains of the
  service, the other services and the library stay as they are.
\<close>

definition domain_step :: "int \<Rightarrow> 64 word \<Rightarrow> (int \<times> tag \<Rightarrow> bool \<Rightarrow> bool) \<Rightarrow> client_db \<Rightarrow> client_db \<Rightarrow> bool" where
  "domain_step svc b G db db' \<longleftrightarrow> db_ok db' \<and> same_library db db' \<and>
     (\<forall>f t. supplies db' svc b f t \<longleftrightarrow> G (f, t) (supplies db svc b f t)) \<and>
     (\<forall>c f t. b AND c = 0 \<longrightarrow> supplies db' svc c f t = supplies db svc c f t) \<and>
     (\<forall>f t s. s \<noteq> svc \<longrightarrow> rows db' (f, t, s) = rows db (f, t, s))"

lemma domain_step_refl: "db_ok db \<Longrightarrow> domain_step svc b (\<lambda>_ s. s) db db"
  by (simp add: domain_step_def)

lemma domain_step_trans:
  "domain_step svc b G db db' \<Longrightarrow> domain_step svc b H db' db'' \<Longrightarrow> domain_step svc b (\<lambda>p s. H p (G p s)) db db''"
  using same_library_trans by (auto simp: domain_step_def)

lemma domain_step_cong: "domain_step svc b G db db' \<Longrightarrow> (\<And>p s. G p s = H p s) \<Longrightarrow> domain_step svc b H db db'"
  by (simp add: domain_step_def)

lemma domain_step_ok: "domain_step svc b G db db' \<Longrightarrow> db_ok db' \<and> same_library db db'"
  by (simp add: domain_step_def)

lemma supplies_rows: "rows db' = rows db \<Longrightarrow> supplies db' = supplies db"
  by (simp add: supplies_def fun_eq_iff)

text \<open>Interning first changes nothing.\<close>

lemma domain_step_rows:
  "rows db1 = rows db \<Longrightarrow> same_library db db1 \<Longrightarrow> domain_step svc b G db1 db' \<Longrightarrow> domain_step svc b G db db'"
  using same_library_trans [of db db1 db'] by (simp add: domain_step_def supplies_rows [of db1 db])

definition asserts_pairs :: "(int \<times> tag) set \<Rightarrow> int \<times> tag \<Rightarrow> bool \<Rightarrow> bool" where
  "asserts_pairs S p s \<longleftrightarrow> s \<or> p \<in> S"

lemma assert_row:
  assumes "db_ok db" "map_of (c_tags db) t = Some i" "b \<noteq> 0" "m_domains new = b" "\<And>r. m_domains (upd r) = m_domains r OR b"
  shows "domain_step svc b (asserts_pairs {(f, t)}) db (db\<lparr>c_maps := sql_upsert (f, i, svc) new upd (c_maps db)\<rparr>)"
proof -
  have new: "m_domains new \<noteq> 0" "m_domains r \<noteq> 0 \<Longrightarrow> m_domains (upd r) \<noteq> 0" for r
    using assms(3-5) mask_assert(2) by auto
  note up = upsert_row_spec [OF assms(1,2) new, where f = f and svc = svc]
  have "b AND b \<noteq> 0" using assms(3) by simp
  then show ?thesis
    using up(1) mask_assert(1) [OF assms(3)] mask_other(2) [of b]
    by (auto simp: domain_step_def supplies_def up(2) assms(4,5) asserts_pairs_def split: option.split)
qed

lemma merge_tag_in_domain_spec:
  assumes "db_ok db" "cached db pending" "b \<noteq> 0" "merge_tag_in_domain svc now b f item (db, pending, oc, st) = (db', pending', oc', st')"
  shows "domain_step svc b (asserts_pairs {(f, fst item)}) db db'" "cached db' pending'"
proof -
  obtain t og where item: "item = (t, og)" by fastforce
  obtain i p1 db1 where i: "intern_tag_cached db t [] pending = (i, p1, db1)" by (metis prod_cases3)
  obtain oid oc1 db2 where o: "origin_id_of db1 og oc = (oid, oc1, db2)" by (metis prod_cases3)
  note it = intern_tag_cached_spec [OF assms(1,2) i]
  note oi = origin_id_of_spec [OF it(1) o]
  have db': "db' = db2\<lparr>c_maps := sql_upsert (f, i, svc) \<lparr>m_created = now, m_domains = b, m_origin = oid\<rparr>
      (\<lambda>r. r\<lparr>m_domains := m_domains r OR b\<rparr>) (c_maps db2)\<rparr>" and p: "pending' = p1"
    using assms(4) by (simp_all add: merge_tag_in_domain_def item i o Let_def)
  have "domain_step svc b (asserts_pairs {(f, t)}) db2 db'" unfolding db'
    by (rule assert_row [OF oi(1) _ assms(3)]) (simp_all add: oi(4) it(3))
  then show "domain_step svc b (asserts_pairs {(f, fst item)}) db db'"
    using domain_step_rows [of db2 db] same_library_trans [OF it(5) oi(3)] by (simp add: it(4) oi(2) item)
  show "cached db' pending'" using it(2) by (simp add: p db' cached_def oi(4))
qed

lemma merge_tags_in_domain_spec:
  assumes "db_ok db" "cached db pending" "b \<noteq> 0"
    and "fold (merge_tag_in_domain svc now b f) items (db, pending, oc, st) = (db', pending', oc', st')"
  shows "domain_step svc b (asserts_pairs ({f} \<times> fst ` set items)) db db' \<and> cached db' pending'"
  using assms
proof (induction items arbitrary: db pending oc st)
  case Nil
  then show ?case using domain_step_cong [OF domain_step_refl] by (simp add: asserts_pairs_def)
next
  case (Cons item items)
  obtain db1 p1 oc1 st1 where step: "merge_tag_in_domain svc now b f item (db, pending, oc, st) = (db1, p1, oc1, st1)"
    by (metis prod_cases4)
  note one = merge_tag_in_domain_spec [OF Cons.prems(1-3) step]
  have rest: "domain_step svc b (asserts_pairs ({f} \<times> fst ` set items)) db1 db' \<and> cached db' pending'"
    by (rule Cons.IH [OF conjunct1 [OF domain_step_ok [OF one(1)]] one(2) Cons.prems(3)]) (use Cons.prems(4) in \<open>simp add: step\<close>)
  have "domain_step svc b (asserts_pairs ({f} \<times> fst ` set (item # items))) db db'"
    by (rule domain_step_cong [OF domain_step_trans [OF one(1) conjunct1 [OF rest]]]) (auto simp: asserts_pairs_def)
  then show ?case using rest by blast
qed

text \<open>The pairs that entries assert: those of owned files.\<close>

definition entry_pairs :: "client_db \<Rightarrow> (hash \<times> (tag \<times> 'o) list) list \<Rightarrow> (int \<times> tag) set" where
  "entry_pairs db entries = {(f, t). \<exists>h tags. (h, tags) \<in> set entries \<and> file_id_by_hash db h = Some f \<and> t \<in> fst ` set tags}"

lemma entry_pairs_Nil [simp]: "entry_pairs db [] = {}"
  by (simp add: entry_pairs_def)

lemma entry_pairs_Cons: "entry_pairs db ((h, tags) # entries) =
    (case file_id_by_hash db h of None \<Rightarrow> {} | Some f \<Rightarrow> {f} \<times> fst ` set tags) \<union> entry_pairs db entries"
  by (auto simp: entry_pairs_def split: option.split)

lemma entry_pairs_library: "same_library db db' \<Longrightarrow> entry_pairs db' = entry_pairs db"
  by (simp add: entry_pairs_def same_library_file fun_eq_iff)

lemma merge_entries_in_domain_spec:
  assumes "db_ok db" "cached db pending" "b \<noteq> 0"
    and "fold (merge_entry_in_domain svc now b) entries (db, pending, oc, st) = (db', pending', oc', st')"
  shows "domain_step svc b (asserts_pairs (entry_pairs db entries)) db db'"
  using assms
proof (induction entries arbitrary: db pending oc st)
  case Nil
  then show ?case using domain_step_cong [OF domain_step_refl] by (simp add: asserts_pairs_def entry_pairs_def)
next
  case (Cons entry entries)
  obtain h tags where e: "entry = (h, tags)" by fastforce
  obtain db1 p1 oc1 st1 where step: "merge_entry_in_domain svc now b entry (db, pending, oc, st) = (db1, p1, oc1, st1)"
    by (metis prod_cases4)
  let ?one = "case file_id_by_hash db h of None \<Rightarrow> {} | Some f \<Rightarrow> {f} \<times> fst ` set tags"
  have one: "domain_step svc b (asserts_pairs ?one) db db1 \<and> cached db1 p1"
  proof (cases "file_id_by_hash db h")
    case None
    then show ?thesis using step Cons.prems(1,2) domain_step_cong [OF domain_step_refl]
      by (simp add: merge_entry_in_domain_def e asserts_pairs_def)
  next
    case (Some f)
    then show ?thesis using step merge_tags_in_domain_spec [OF Cons.prems(1-3), of svc now f tags oc "st\<lparr>ms_matched := ms_matched st + 1\<rparr>"]
      by (simp add: merge_entry_in_domain_def e)
  qed
  note ok = domain_step_ok [OF conjunct1 [OF one]]
  have "domain_step svc b (asserts_pairs (entry_pairs db1 entries)) db1 db'"
    using Cons.IH [OF conjunct1 [OF ok] conjunct2 [OF one] Cons.prems(3)] Cons.prems(4) by (simp add: step)
  then show ?case unfolding e entry_pairs_Cons entry_pairs_library [OF conjunct2 [OF ok]]
    by (rule domain_step_cong [OF domain_step_trans [OF conjunct1 [OF one]]]) (auto simp: asserts_pairs_def)
qed

text \<open>A change of rows that only depends on the file, the service and the row itself.\<close>

lemma rows_pointwise:
  assumes "\<And>f i s. map_of ms (f, i, s) = Option.bind (map_of (c_maps db) (f, i, s)) (g f s)"
  shows "rows (db\<lparr>c_maps := ms\<rparr>) (f, t, s) = Option.bind (rows db (f, t, s)) (g f s)"
  using assms by (auto simp: rows_def split: option.split)

text \<open>A row that has more than one bit keeps one.\<close>

lemma mask_left_single:
  assumes "b = 1 \<or> b = (2 :: 64 word)" "x AND NOT b = 0" "x \<noteq> 0"
  shows "x = b"
proof -
  obtain k where b: "b = 2 ^ k" using assms(1) by (metis power_0 power_one_right)
  have "x = x AND b" using assms(2) by (metis and.right_neutral bit.conj_disj_distrib bit.disj_cancel_right or.right_neutral)
  moreover have "x AND b = (if bit x k then b else 0)" unfolding b by (rule bit_eqI) (auto simp: bit_simps)
  ultimately show ?thesis using assms(3) by metis
qed

lemma retract_service_spec:
  fixes svc :: int
  assumes "db_ok db" "b = 1 \<or> b = 2"
  defines "ms \<equiv> retract (\<lambda>k r. key_service k = svc \<and> m_domains r AND b \<noteq> 0) b
    (sql_delete (\<lambda>k r. key_service k = svc \<and> m_domains r = b) (c_maps db))"
  shows "domain_step svc b (\<lambda>_ _. False) db (db\<lparr>c_maps := ms\<rparr>)"
proof -
  note ok = db_okD [OF assms(1)]
  let ?g = "\<lambda>f s r. if s = svc \<and> m_domains r = b then None
      else Some (if s = svc \<and> m_domains r AND b \<noteq> 0 then r\<lparr>m_domains := m_domains r AND NOT b\<rparr> else r)"
  have ms: "map_of ms (f, i, s) = Option.bind (map_of (c_maps db) (f, i, s)) (?g f s)" for f i s
    by (simp add: ms_def map_of_retract map_of_delete [OF ok(2)] split: option.split)
  note rows = rows_pointwise [of ms, OF ms]
  have "keyed ms" using ok(2) by (simp add: ms_def)
  then have "db_ok (db\<lparr>c_maps := ms\<rparr>)"
    using ok(3,4) mask_left_single [OF assms(2)]
    by (intro db_ok_maps [OF assms(1)]) (auto simp: ms bind_eq_Some_conv split: if_splits)
  then show ?thesis
    using mask_other(1) [of b] by (auto simp: domain_step_def supplies_def rows split: option.split bind_splits)
qed

lemma domain_merge_step:
  assumes "db_ok db" "merge_pulled_mappings_in_domain db now svc d entries = (db', st)"
  shows "domain_step svc (domain_bit d) (\<lambda>p _. p \<in> entry_pairs db entries) db db'"
proof -
  let ?b = "domain_bit d"
  let ?ms = "retract (\<lambda>k r. key_service k = svc \<and> m_domains r AND ?b \<noteq> 0) ?b
    (sql_delete (\<lambda>k r. key_service k = svc \<and> m_domains r = ?b) (c_maps db))"
  let ?db = "db\<lparr>c_maps := ?ms\<rparr>"
  obtain p oc where run: "fold (merge_entry_in_domain svc now ?b) entries (?db, [], [], \<lparr>ms_matched = 0, ms_mappings = 0\<rparr>) = (db', p, oc, st)"
    using assms(2) by (auto simp: merge_pulled_mappings_in_domain_def Let_def split: prod.splits)
  have first: "domain_step svc ?b (\<lambda>_ _. False) db ?db"
    by (rule retract_service_spec [OF assms(1) domain_bit_cases])
  note ok = domain_step_ok [OF first]
  have "domain_step svc ?b (asserts_pairs (entry_pairs ?db entries)) ?db db'"
    by (rule merge_entries_in_domain_spec [OF conjunct1 [OF ok] _ _ run]) simp_all
  from domain_step_trans [OF first this] show ?thesis
    by (rule domain_step_cong) (simp add: asserts_pairs_def entry_pairs_library [OF conjunct2 [OF ok]])
qed

section \<open>A library at work\<close>

definition sample_tag :: "nat \<Rightarrow> tag" where
  "sample_tag n = \<lparr>namespace = [], subtag = replicate n 97\<rparr>"

lemma sample_tag_eq [simp]: "sample_tag m = sample_tag n \<longleftrightarrow> m = n"
  by (simp add: sample_tag_def)

definition sample_library :: client_db where
  "sample_library = \<lparr>c_files = [(1, \<lparr>df_blake3 = to_hex [1], df_sha256 = None, df_sha256_seq = None\<rparr>),
       (2, \<lparr>df_blake3 = to_hex [2], df_sha256 = None, df_sha256_seq = None\<rparr>)],
     c_sha256_seq = 0, c_tags = [(sample_tag 1, 1), (sample_tag 2, 2)], c_origins = [],
     c_maps = [((1, 1, 7), \<lparr>m_created = 0, m_domains = 3, m_origin = None\<rparr>),
               ((2, 1, 7), \<lparr>m_created = 0, m_domains = 1, m_origin = None\<rparr>),
               ((1, 1, 8), \<lparr>m_created = 0, m_domains = 1, m_origin = None\<rparr>)],
     c_pull = [], c_relation_cursor = [], c_relation_pulled = [], c_siblings = [], c_parents = [], c_staging = [],
     c_generation = []\<rparr>"

lemma sample_ok: "db_ok sample_library"
  unfolding db_ok_def sample_library_def by (simp add: ids_ok_def keyed_def)

lemma sample_file [simp]: "file_id_by_hash sample_library [1] = Some 1" "file_id_by_hash sample_library [2] = Some 2"
  by (simp_all add: file_id_by_hash_def sample_library_def)

lemma sample_supplies: "supplies sample_library 7 1 1 (sample_tag 1)" "supplies sample_library 7 2 1 (sample_tag 1)"
  by (simp_all add: supplies_def rows_def sample_library_def)

lemma bit_blake3 [simp]: "domain_bit (lit ''blake3'') = 1"
  by (simp add: domain_bit_def DOMAIN_BIT_BLAKE3_def lit_Cons)

text \<open>
  C19. The merge of one domain.  It is authoritative for that domain: afterwards the domain supplies exactly the
  pairs of the entries whose file is owned.  What every other domain supplies to the service, and every row of
  every other service, is as before; no row is left that no domain supplies.
\<close>

theorem domain_merge_exact:
  assumes "db_ok db" "merge_pulled_mappings_in_domain db now svc d entries = (db', st)"
  shows "db_ok db' \<and> (\<forall>f t. supplies db' svc (domain_bit d) f t \<longleftrightarrow> (f, t) \<in> entry_pairs db entries) \<and>
    (\<forall>c f t. domain_bit d AND c = 0 \<longrightarrow> supplies db' svc c f t = supplies db svc c f t) \<and>
    (\<forall>f t s. s \<noteq> svc \<longrightarrow> rows db' (f, t, s) = rows db (f, t, s))"
  using domain_merge_step [OF assms] unfolding domain_step_def by blast

corollary domain_merge_exact_witness:
  "supplies (fst (merge_pulled_mappings_in_domain sample_library 9 7 (lit ''blake3'') [([1], [(sample_tag 2, None)])])) 7 1 1 (sample_tag 2) \<and>
   \<not> supplies (fst (merge_pulled_mappings_in_domain sample_library 9 7 (lit ''blake3'') [([1], [(sample_tag 2, None)])])) 7 1 1 (sample_tag 1) \<and>
   supplies (fst (merge_pulled_mappings_in_domain sample_library 9 7 (lit ''blake3'') [([1], [(sample_tag 2, None)])])) 7 2 1 (sample_tag 1)"
proof -
  let ?e = "[([1], [(sample_tag 2, None)])]"
  obtain db' st where run: "merge_pulled_mappings_in_domain sample_library 9 7 (lit ''blake3'') ?e = (db', st)" by fastforce
  have "(2 :: 64 word) AND 1 = 0" "supplies sample_library 7 2 1 (sample_tag 1)" by (simp, rule sample_supplies(2))
  then show ?thesis using domain_merge_exact [OF sample_ok run]
    by (simp add: run entry_pairs_Cons del: lit_Cons)
qed

end
