(* ===== verification/DbDelta.thy ===== *)
theory DbDelta
  imports DbMerge
begin

text \<open>
  What the incremental merge of \<open>DbState\<close> does: buckets pulled in full are cleared, then the changes are
  applied in order, so that the last change about a pair decides it.
\<close>

section \<open>The incremental merge\<close>

lemma clear_bucket_spec:
  assumes "db_ok db"
  shows "domain_step svc (domain_bit d) (\<lambda>p s. s \<and> \<not> in_bucket db d (fst rng) (snd rng) (fst p)) db
    (db\<lparr>c_maps := clear_bucket db svc d rng (c_maps db)\<rparr>)"
proof -
  let ?b = "domain_bit d" and ?in = "in_bucket db d (fst rng) (snd rng)"
  let ?ms = "clear_bucket db svc d rng (c_maps db)"
  note ok = db_okD [OF assms]
  let ?r = "\<lambda>r. r\<lparr>m_domains := m_domains r AND NOT ?b\<rparr>"
  let ?g = "\<lambda>f s r. if s = svc \<and> ?in f then
      (if m_domains r AND ?b \<noteq> 0 then (if m_domains (?r r) = 0 then None else Some (?r r)) else if m_domains r = 0 then None else Some r)
      else Some r"
  have ms: "map_of ?ms (f, i, s) = Option.bind (map_of (c_maps db) (f, i, s)) (?g f s)" for f i s
    by (cases rng) (simp add: clear_bucket_def Let_def map_of_delete ok(2) map_of_retract split: option.split)
  note rows = rows_pointwise [of ?ms, OF ms]
  have "keyed ?ms" using ok(2) by (simp add: clear_bucket_def Let_def case_prod_beta)
  then have "db_ok (db\<lparr>c_maps := ?ms\<rparr>)"
    using ok(3,4) by (intro db_ok_maps [OF assms]) (auto simp: ms bind_eq_Some_conv split: if_splits)
  moreover have "rows db (f, t, s) = Some r \<Longrightarrow> m_domains r \<noteq> 0" for f t s r
    using ok(4) by (auto simp: rows_def split: option.splits)
  ultimately show ?thesis
    using mask_other(1) [of ?b] by (auto simp: domain_step_def supplies_def rows mask_gone split: option.split bind_splits if_splits)
qed

lemma clear_buckets_spec:
  assumes "db_ok db"
  shows "domain_step svc (domain_bit d) (\<lambda>p s. s \<and> \<not> (\<exists>(lo, hi)\<in>set full. in_bucket db d lo hi (fst p))) db
    (db\<lparr>c_maps := fold (clear_bucket db svc d) full (c_maps db)\<rparr>)"
  using assms
proof (induction full arbitrary: db)
  case Nil
  then show ?case using domain_step_cong [OF domain_step_refl] by simp
next
  case (Cons rng full)
  let ?db = "db\<lparr>c_maps := clear_bucket db svc d rng (c_maps db)\<rparr>"
  note one = clear_bucket_spec [OF Cons.prems, of svc d rng]
  have same: "in_bucket ?db = in_bucket db" "clear_bucket ?db = clear_bucket db" by (simp_all add: in_bucket_def clear_bucket_def fun_eq_iff)
  have two: "domain_step svc (domain_bit d) (\<lambda>p s. s \<and> \<not> (\<exists>(lo, hi)\<in>set full. in_bucket db d lo hi (fst p))) ?db
      (db\<lparr>c_maps := fold (clear_bucket db svc d) full (clear_bucket db svc d rng (c_maps db))\<rparr>)"
    using Cons.IH [OF conjunct1 [OF domain_step_ok [OF one]]] by (simp add: same)
  show ?case using domain_step_cong [OF domain_step_trans [OF one two]] by (auto simp: case_prod_beta)
qed

text \<open>A retraction of one row that is deleted when nobody supplies it any more.\<close>

lemma retract_row_spec:
  fixes svc f :: int
  assumes "db_ok db" "map_of (c_tags db) t = Some i" "b = domain_bit d"
  defines "ms \<equiv> sql_delete (\<lambda>k' r. k' = (f, i, svc) \<and> m_domains r = 0) (retract (\<lambda>k' r. k' = (f, i, svc)) b (c_maps db))"
  shows "domain_step svc b (\<lambda>p s. s \<and> p \<noteq> (f, t)) db (db\<lparr>c_maps := ms\<rparr>)"
proof -
  note ok = db_okD [OF assms(1)]
  let ?r = "\<lambda>r. r\<lparr>m_domains := m_domains r AND NOT b\<rparr>"
  let ?new = "case map_of (c_maps db) (f, i, svc) of None \<Rightarrow> None | Some r \<Rightarrow> if m_domains (?r r) = 0 then None else Some (?r r)"
  have ms: "map_of ms k = (if k = (f, i, svc) then ?new else map_of (c_maps db) k)" for k
    by (auto simp: ms_def map_of_delete ok(2) map_of_retract split: option.split)
  have "keyed ms" using ok(2) by (simp add: ms_def)
  then have "db_ok (db\<lparr>c_maps := ms\<rparr>)"
    using ok(3,4) by (intro db_ok_maps [OF assms(1)]) (auto simp: ms split: if_splits option.splits)
  moreover have "rows db (f, t, svc) = map_of (c_maps db) (f, i, svc)" by (simp add: rows_def assms(2))
  ultimately show ?thesis
    using rows_maps_update [OF ok(1) assms(2) ms] mask_other(1) [of b]
    by (auto simp: domain_step_def supplies_def mask_gone split: option.splits if_splits)
qed

text \<open>What a list of changes says last about a pair.\<close>

definition change_pairs :: "client_db \<Rightarrow> delta_input list \<Rightarrow> ((int \<times> tag) \<times> mapping_status) list" where
  "change_pairs db changes =
     List.map_filter (\<lambda>c. map_option (\<lambda>f. ((f, di_tag c), di_status c)) (file_id_by_hash db (di_hash c))) changes"

definition last_change :: "client_db \<Rightarrow> delta_input list \<Rightarrow> int \<times> tag \<Rightarrow> mapping_status option" where
  "last_change db changes p = map_of (rev (change_pairs db changes)) p"

definition apply_last :: "mapping_status option \<Rightarrow> bool \<Rightarrow> bool" where
  "apply_last st s = (case st of None \<Rightarrow> s | Some Current \<Rightarrow> True | Some Deleted \<Rightarrow> False)"

lemma last_change_Nil [simp]: "last_change db [] p = None"
  by (simp add: last_change_def change_pairs_def List.map_filter_def)

lemma last_change_Cons: "last_change db (c # cs) p =
    (case last_change db cs p of
       Some st \<Rightarrow> Some st
     | None \<Rightarrow> if map_option (\<lambda>f. (f, di_tag c)) (file_id_by_hash db (di_hash c)) = Some p then Some (di_status c) else None)"
  by (auto simp: last_change_def change_pairs_def List.map_filter_def map_add_def split: option.split)

lemma last_change_library: "same_library db db' \<Longrightarrow> last_change db' = last_change db"
  by (simp add: last_change_def change_pairs_def same_library_file fun_eq_iff)

lemma merge_change_spec:
  assumes "db_ok db" "cached db pending" "merge_change svc now (domain_bit d) c (db, pending, oc, m) = (db', pending', oc', m')"
  shows "domain_step svc (domain_bit d) (\<lambda>p. apply_last (last_change db [c] p)) db db' \<and> cached db' pending'"
proof (cases "file_id_by_hash db (di_hash c)")
  case None
  then show ?thesis using assms domain_step_cong [OF domain_step_refl [OF assms(1)]]
    by (simp add: merge_change_def last_change_Cons apply_last_def)
next
  case (Some f)
  obtain i p1 db1 where i: "intern_tag_cached db (di_tag c) [] pending = (i, p1, db1)" by (metis prod_cases3)
  note it = intern_tag_cached_spec [OF assms(1,2) i]
  have last: "last_change db [c] p = (if p = (f, di_tag c) then Some (di_status c) else None)" for p
    by (auto simp: last_change_Cons Some)
  show ?thesis
  proof (cases "di_status c")
    case Current
    obtain oid oc1 db2 where o: "origin_id_of db1 (di_origin c) oc = (oid, oc1, db2)" by (metis prod_cases3)
    note oi = origin_id_of_spec [OF it(1) o]
    have db': "db' = db2\<lparr>c_maps := sql_upsert (f, i, svc) \<lparr>m_created = now, m_domains = domain_bit d, m_origin = oid\<rparr>
        (\<lambda>r. r\<lparr>m_created := now, m_domains := m_domains r OR domain_bit d\<rparr>) (c_maps db2)\<rparr>" and p: "pending' = p1"
      using assms(3) by (simp_all add: merge_change_def Some i o Current Let_def)
    have "domain_step svc (domain_bit d) (asserts_pairs {(f, di_tag c)}) db2 db'" unfolding db'
      by (rule assert_row [OF oi(1)]) (simp_all add: oi(4) it(3))
    then have "domain_step svc (domain_bit d) (asserts_pairs {(f, di_tag c)}) db db'"
      using domain_step_rows [of db2 db] same_library_trans [OF it(5) oi(3)] by (simp add: it(4) oi(2))
    then have "domain_step svc (domain_bit d) (\<lambda>p. apply_last (last_change db [c] p)) db db'"
      by (rule domain_step_cong) (auto simp: asserts_pairs_def last apply_last_def Current)
    then show ?thesis using it(2) by (simp add: p db' cached_def oi(4))
  next
    case Deleted
    have db': "db' = db1\<lparr>c_maps := sql_delete (\<lambda>k' r. k' = (f, i, svc) \<and> m_domains r = 0)
        (retract (\<lambda>k' r. k' = (f, i, svc)) (domain_bit d) (c_maps db1))\<rparr>" and p: "pending' = p1"
      using assms(3) by (simp_all add: merge_change_def Some i Deleted Let_def)
    have "domain_step svc (domain_bit d) (\<lambda>p s. s \<and> p \<noteq> (f, di_tag c)) db1 db'" unfolding db'
      by (rule retract_row_spec [OF it(1,3) refl])
    then have "domain_step svc (domain_bit d) (\<lambda>p s. s \<and> p \<noteq> (f, di_tag c)) db db'"
      by (rule domain_step_rows [OF it(4,5)])
    then have "domain_step svc (domain_bit d) (\<lambda>p. apply_last (last_change db [c] p)) db db'"
      by (rule domain_step_cong) (auto simp: last apply_last_def Deleted)
    then show ?thesis using it(2) by (simp add: p db' cached_def)
  qed
qed

lemma merge_changes_spec:
  assumes "db_ok db" "cached db pending" "fold (merge_change svc now (domain_bit d)) changes (db, pending, oc, m) = (db', pending', oc', m')"
  shows "domain_step svc (domain_bit d) (\<lambda>p. apply_last (last_change db changes p)) db db'"
  using assms
proof (induction changes arbitrary: db pending oc m)
  case Nil
  then show ?case using domain_step_cong [OF domain_step_refl] by (simp add: apply_last_def)
next
  case (Cons c changes)
  obtain db1 p1 oc1 m1 where step: "merge_change svc now (domain_bit d) c (db, pending, oc, m) = (db1, p1, oc1, m1)"
    by (metis prod_cases4)
  note one = merge_change_spec [OF Cons.prems(1,2) step]
  note ok = domain_step_ok [OF conjunct1 [OF one]]
  have rest: "domain_step svc (domain_bit d) (\<lambda>p. apply_last (last_change db1 changes p)) db1 db'"
    by (rule Cons.IH [OF conjunct1 [OF ok] conjunct2 [OF one]]) (use Cons.prems(3) in \<open>simp add: step\<close>)
  show ?case
    by (rule domain_step_cong [OF domain_step_trans [OF conjunct1 [OF one] rest]])
      (auto simp: apply_last_def last_change_Cons last_change_library [OF conjunct2 [OF ok]] split: option.split mapping_status.split)
qed

lemma delta_merge_step:
  assumes "db_ok db" "merge_mapping_delta db now svc d changes full cursor marker = (db', st)"
  shows "\<exists>db1. domain_step svc (domain_bit d) (\<lambda>p s. apply_last (last_change db changes p)
      (s \<and> \<not> (\<exists>(lo, hi)\<in>set full. in_bucket db d lo hi (fst p)))) db db1 \<and>
    db' = set_mapping_pull_state db1 svc d cursor marker"
proof -
  let ?db = "db\<lparr>c_maps := fold (clear_bucket db svc d) full (c_maps db)\<rparr>"
  obtain db1 p oc m where run: "fold (merge_change svc now (domain_bit d)) changes (?db, [], [], []) = (db1, p, oc, m)"
    and db': "db' = set_mapping_pull_state db1 svc d cursor marker"
    using assms(2) by (auto simp: merge_mapping_delta_def Let_def split: prod.splits)
  note first = clear_buckets_spec [OF assms(1), of svc d full]
  note ok = domain_step_ok [OF first]
  have "domain_step svc (domain_bit d) (\<lambda>p. apply_last (last_change db changes p)) ?db db1"
    using merge_changes_spec [OF conjunct1 [OF ok] cached_Nil run] by (simp only: last_change_library [OF conjunct2 [OF ok]])
  from domain_step_trans [OF first this] show ?thesis using db' by blast
qed

lemma pull_state_simps [simp]:
  "rows (set_mapping_pull_state db svc d c m) = rows db" "c_files (set_mapping_pull_state db svc d c m) = c_files db"
  "c_pull (set_mapping_pull_state db svc d c m) = AList.update (svc, d) \<lparr>ps_cursor = Some (cursor_i64 c), ps_marker = Some m\<rparr> (c_pull db)"
  "db_ok db \<Longrightarrow> db_ok (set_mapping_pull_state db svc d c m)"
  by (simp_all add: set_mapping_pull_state_def rows_def db_ok_def fun_eq_iff cong: option.case_cong)

text \<open>
  C20. The incremental merge of one domain.  Afterwards the domain supplies a pair exactly if the last change about
  it says current, or no change mentions it, it was supplied before, and its file lies in no bucket that was pulled
  in full.  The other domains, the other services and the cursors of the other pairs of service and domain stay;
  the cursor and the marker are recorded; no row is left that no domain supplies.
\<close>

theorem delta_merge_exact:
  assumes "db_ok db" "merge_mapping_delta db now svc d changes full cursor marker = (db', st)"
  shows "db_ok db' \<and>
    (\<forall>f t. supplies db' svc (domain_bit d) f t \<longleftrightarrow>
      (case last_change db changes (f, t) of
         Some st \<Rightarrow> st = Current
       | None \<Rightarrow> supplies db svc (domain_bit d) f t \<and> \<not> (\<exists>(lo, hi)\<in>set full. in_bucket db d lo hi f))) \<and>
    (\<forall>c f t. domain_bit d AND c = 0 \<longrightarrow> supplies db' svc c f t = supplies db svc c f t) \<and>
    (\<forall>f t s. s \<noteq> svc \<longrightarrow> rows db' (f, t, s) = rows db (f, t, s)) \<and>
    map_of (c_pull db') = (map_of (c_pull db))((svc, d) \<mapsto> \<lparr>ps_cursor = Some (cursor_i64 cursor), ps_marker = Some marker\<rparr>)"
proof -
  obtain db1 where db1: "domain_step svc (domain_bit d) (\<lambda>p s. apply_last (last_change db changes p)
      (s \<and> \<not> (\<exists>(lo, hi)\<in>set full. in_bucket db d lo hi (fst p)))) db db1"
    and db': "db' = set_mapping_pull_state db1 svc d cursor marker"
    using delta_merge_step [OF assms] by blast
  have "supplies db' = supplies db1" by (rule supplies_rows) (simp add: db')
  moreover have "db_ok db'" using domain_step_ok [OF db1] by (simp add: db')
  moreover have "c_pull db1 = c_pull db" using domain_step_ok [OF db1] same_library_fields by blast
  ultimately show ?thesis
    using db1 by (simp add: domain_step_def db' apply_last_def split: option.split mapping_status.split)
qed

corollary delta_merge_exact_witness:
  "supplies (fst (merge_mapping_delta sample_library 9 7 (lit ''blake3'')
      [\<lparr>di_hash = [2], di_tag = sample_tag 2, di_status = Current, di_seq = 4, di_origin = None\<rparr>,
       \<lparr>di_hash = [1], di_tag = sample_tag 1, di_status = Deleted, di_seq = 5, di_origin = None\<rparr>] [] 5 2)) 7 1 2 (sample_tag 2) \<and>
   \<not> supplies (fst (merge_mapping_delta sample_library 9 7 (lit ''blake3'')
      [\<lparr>di_hash = [2], di_tag = sample_tag 2, di_status = Current, di_seq = 4, di_origin = None\<rparr>,
       \<lparr>di_hash = [1], di_tag = sample_tag 1, di_status = Deleted, di_seq = 5, di_origin = None\<rparr>] [] 5 2)) 7 1 1 (sample_tag 1)"
proof -
  let ?cs = "[\<lparr>di_hash = [2], di_tag = sample_tag 2, di_status = Current, di_seq = 4, di_origin = None\<rparr>,
    \<lparr>di_hash = [1], di_tag = sample_tag 1, di_status = Deleted, di_seq = 5, di_origin = None\<rparr>]"
  obtain db' st where run: "merge_mapping_delta sample_library 9 7 (lit ''blake3'') ?cs [] 5 2 = (db', st)" by fastforce
  have last: "last_change sample_library ?cs (2, sample_tag 2) = Some Current" "last_change sample_library ?cs (1, sample_tag 1) = Some Deleted"
    by (simp_all add: last_change_Cons)
  note exact = delta_merge_exact [OF sample_ok run, THEN conjunct2, THEN conjunct1, rule_format]
  show ?thesis using exact [of 2 "sample_tag 2"] exact [of 1 "sample_tag 1"] unfolding last run fst_conv bit_blake3
    by simp
qed



end
