(* ===== verification/ServerBuckets.thy ===== *)
theory ServerBuckets
  imports StoreRead NetPull
begin

text \<open>
  \<open>crates/server/src/http.rs\<close>, \<open>POST /repo/buckets\<close>: the checks of a request, the native domain
  answered from the store (materialised, delta and streamed), the added SHA-256 domain answered
  by a backend, and the routing configuration of \<open>crates/server/src/domain.rs\<close>.  The backend is a
  parameter (a trait object over external databases); the serve-time statistics are left out.
\<close>

section \<open>Configuration\<close>

datatype backend_error = BackendBudget | BackendFailed

type_synonym backend = "ustring \<Rightarrow> nat \<Rightarrow> nat \<Rightarrow> backend_error + (ustring \<times> ustring list) list \<times> nat"

record domain_config =
  dc_native :: hash_domain
  dc_added_sha256 :: "backend option"
  dc_max_query_bits :: nat
  dc_min_query_bits :: nat

definition served :: "domain_config \<Rightarrow> hash_domain list" where
  "served dc = dc_native dc # (if dc_added_sha256 dc \<noteq> None \<and> dc_native dc \<noteq> Sha256 then [Sha256] else [])"

definition clamp_query_bits :: "domain_config \<Rightarrow> nat \<Rightarrow> nat" where
  "clamp_query_bits dc requested = min (min requested (dc_max_query_bits dc)) 256"

record repo_state =
  rs_store :: store
  rs_domains :: domain_config
  rs_bucket_budget :: nat

section \<open>Replies\<close>

datatype reject_reason =
    BadVersion sign_error
  | SinceLength
  | DomainRejected domain_error
  | BelowFloor nat nat nat
  | NoDeltas hash_domain
  | MalformedKey ustring
  | OverBudget
  | InternalError

fun reject_code :: "reject_reason \<Rightarrow> nat" where
  "reject_code OverBudget = 413"
| "reject_code InternalError = 500"
| "reject_code _ = 400"

datatype stream_item = ItemHeader nat int | ItemRow ustring "origin_tag list" | ItemTrailer stream_trailer

datatype bucket_reply =
    ReplySnapshot nat int "(ustring \<times> origin_tag list) list"
  | ReplyDelta nat int "delta_mapping list"
  | ReplyStream "stream_item list"
  | Reject reject_reason

section \<open>The native domain\<close>

text \<open>\<open>BTreeMap::extend\<close>: a later entry replaces an earlier one.\<close>

definition replace_entries :: "('k \<times> 'v) list \<Rightarrow> ('k \<times> 'v) list \<Rightarrow> ('k \<times> 'v) list" where
  "replace_entries part m = fold (\<lambda>(k, v). AList.update k v) part m"

fun native_tags :: "crypto \<Rightarrow> store \<Rightarrow> nat \<Rightarrow> nat \<Rightarrow> ustring list \<Rightarrow> tag_map \<Rightarrow> store_error + tag_map" where
  "native_tags C s bits remaining [] tags = Inr tags"
| "native_tags C s bits remaining (b # buckets) tags =
     (case hash_from_str b of
        Inl _ \<Rightarrow> native_tags C s bits remaining buckets tags
      | Inr lo \<Rightarrow>
          (case bucket C s (bucket_key lo bits) (bucket_upper lo bits) remaining of
             Inl e \<Rightarrow> Inl e
           | Inr (part, spent) \<Rightarrow> native_tags C s bits (remaining - spent) buckets (replace_entries part tags)))"

fun native_changes :: "crypto \<Rightarrow> store \<Rightarrow> nat \<Rightarrow> nat \<Rightarrow> (ustring \<times> nat) list \<Rightarrow> delta_mapping list \<Rightarrow> store_error + delta_mapping list" where
  "native_changes C s bits remaining [] changes = Inr changes"
| "native_changes C s bits remaining ((b, since) # buckets) changes =
     (case hash_from_str b of
        Inl _ \<Rightarrow> native_changes C s bits remaining buckets changes
      | Inr lo \<Rightarrow>
          (case bucket_delta C s (bucket_key lo bits) (bucket_upper lo bits) since remaining of
             Inl e \<Rightarrow> Inl e
           | Inr (part, spent) \<Rightarrow> native_changes C s bits (remaining - spent) buckets (changes @ part)))"

text \<open>
  The scan of \<open>stream_native_snapshot\<close>: the lines after the header.  \<open>over_budget\<close> stands for the
  text of the in-band error.
\<close>

definition over_budget :: "ustring \<Rightarrow> nat \<Rightarrow> ustring" where
  "over_budget b bits = lit ''bucket '' @ b @ lit '' at '' @ dec bits @
     lit '' bits exceeds the per-request budget; raise prefix_bits to query narrower buckets''"

fun stream_native :: "crypto \<Rightarrow> store \<Rightarrow> nat \<Rightarrow> nat \<Rightarrow> bool \<Rightarrow> ustring list \<Rightarrow> stream_item list \<Rightarrow> stream_item list" where
  "stream_native C s bits remaining served_any [] buffered = buffered @ [ItemTrailer (Done True)]"
| "stream_native C s bits remaining served_any (b # buckets) buffered =
     (case hash_from_str b of
        Inl _ \<Rightarrow> stream_native C s bits remaining served_any buckets buffered
      | Inr lo \<Rightarrow>
          (case bucket C s (bucket_key lo bits) (bucket_upper lo bits) remaining of
             Inr (part, spent) \<Rightarrow>
               stream_native C s bits (remaining - spent) True buckets (buffered @ map (\<lambda>(h, t). ItemRow h t) part)
           | Inl (BudgetExceeded _) \<Rightarrow>
               buffered @ [ItemTrailer (if served_any then More b else Err (over_budget b bits))]
           | Inl _ \<Rightarrow> buffered @ [ItemTrailer (Err (lit ''internal server error''))]))"

definition resume_from :: "ustring option \<Rightarrow> ustring list \<Rightarrow> ustring list" where
  "resume_from resume_at buckets = (case resume_at of None \<Rightarrow> buckets | Some k \<Rightarrow> filter (\<lambda>b. k \<le> b) buckets)"

definition mask_keys :: "nat \<Rightarrow> ustring list \<Rightarrow> ustring list" where
  "mask_keys bits keys = remdups_adj (sort (List.map_filter (\<lambda>b. map_option (\<lambda>h. bucket_key h bits) (result_ok (hash_from_str b))) keys))"

section \<open>The added domain\<close>

fun stream_added :: "backend \<Rightarrow> nat \<Rightarrow> nat \<Rightarrow> bool \<Rightarrow> ustring list \<Rightarrow> stream_item list" where
  "stream_added backend bits remaining served_any [] = [ItemTrailer (Done True)]"
| "stream_added backend bits remaining served_any (b # buckets) =
     (case backend b bits remaining of
        Inr (part, spent) \<Rightarrow>
          map (\<lambda>(h, ts). ItemRow h (map (\<lambda>t. \<lparr>ot_tag = t, ot_origin = None\<rparr>) ts)) part @
            stream_added backend bits (remaining - spent) True buckets
      | Inl BackendBudget \<Rightarrow> [ItemTrailer (if served_any then More b else Err (over_budget b bits))]
      | Inl BackendFailed \<Rightarrow> [ItemTrailer (Err (lit ''internal server error''))])"

fun added_tags :: "backend \<Rightarrow> nat \<Rightarrow> nat \<Rightarrow> ustring list \<Rightarrow> tag_map \<Rightarrow> backend_error + tag_map" where
  "added_tags backend bits remaining [] tags = Inr tags"
| "added_tags backend bits remaining (b # buckets) tags =
     (case backend b bits remaining of
        Inl e \<Rightarrow> Inl e
      | Inr (part, spent) \<Rightarrow>
          added_tags backend bits (remaining - spent) buckets
            (fold (\<lambda>(h, ts). extend_entry h (map (\<lambda>t. \<lparr>ot_tag = t, ot_origin = None\<rparr>) ts)) part tags))"

definition added_handler :: "repo_state \<Rightarrow> hash_domain \<Rightarrow> bucket_request \<Rightarrow> bucket_reply" where
  "added_handler st d req =
     (case dc_added_sha256 (rs_domains st) of
        None \<Rightarrow> Reject (DomainRejected (NotServed d (served (rs_domains st))))
      | Some backend \<Rightarrow>
          if br_since req \<noteq> None then Reject (NoDeltas d)
          else
            (let bits = clamp_query_bits (rs_domains st) (br_prefix_bits req)
             in case find (\<lambda>b. \<not> is_ok (hash_from_str b)) (br_buckets req) of
                  Some b \<Rightarrow> Reject (MalformedKey b)
                | None \<Rightarrow>
                    (let keys = mask_keys bits (br_buckets req)
                     in if br_stream req then
                          ReplyStream (ItemHeader PROTOCOL_VERSION 0 #
                            stream_added backend bits (rs_bucket_budget st) False (resume_from (br_resume_at req) keys))
                        else
                          (case added_tags backend bits (rs_bucket_budget st) keys [] of
                             Inr tags \<Rightarrow> ReplySnapshot PROTOCOL_VERSION 0 tags
                           | Inl BackendBudget \<Rightarrow> Reject OverBudget
                           | Inl BackendFailed \<Rightarrow> Reject InternalError))))"

section \<open>The handler\<close>

definition is_budget_exceeded :: "store_error \<Rightarrow> bool" where
  "is_budget_exceeded e = (case e of BudgetExceeded _ \<Rightarrow> True | _ \<Rightarrow> False)"

definition native_handler :: "crypto \<Rightarrow> repo_state \<Rightarrow> bucket_request \<Rightarrow> bucket_reply" where
  "native_handler C st req =
     (let s = rs_store st; bits = min (br_prefix_bits req) 256; budget = rs_bucket_budget st
      in case find (\<lambda>b. \<not> is_ok (hash_from_str b)) (br_buckets req) of
           Some b \<Rightarrow> Reject (MalformedKey b)
         | None \<Rightarrow>
             if br_stream req \<and> br_since req = None then
               ReplyStream (ItemHeader PROTOCOL_VERSION (mapping_cursor s) #
                 stream_native C s bits budget False (resume_from (br_resume_at req) (mask_keys bits (br_buckets req))) [])
             else
               (case br_since req of
                  None \<Rightarrow>
                    (case native_tags C s bits budget (br_buckets req) [] of
                       Inr tags \<Rightarrow> ReplySnapshot PROTOCOL_VERSION (mapping_cursor s) tags
                     | Inl e \<Rightarrow> Reject (if is_budget_exceeded e then OverBudget else InternalError))
                | Some since \<Rightarrow>
                    (case native_changes C s bits budget (zip (br_buckets req) since) [] of
                       Inr changes \<Rightarrow> ReplyDelta PROTOCOL_VERSION (mapping_cursor s) changes
                     | Inl e \<Rightarrow> Reject (if is_budget_exceeded e then OverBudget else InternalError))))"

definition buckets_handler :: "crypto \<Rightarrow> repo_state \<Rightarrow> bucket_request \<Rightarrow> bucket_reply" where
  "buckets_handler C st req =
     (case ensure_supported (br_version req) of
        Inl e \<Rightarrow> Reject (BadVersion e)
      | Inr _ \<Rightarrow>
          if (case br_since req of None \<Rightarrow> False | Some since \<Rightarrow> length since \<noteq> length (br_buckets req))
          then Reject SinceLength
          else
            (case resolve_domain (br_domain req) (served (rs_domains st)) (dc_native (rs_domains st)) of
               Inl e \<Rightarrow> Reject (DomainRejected e)
             | Inr d \<Rightarrow>
                 if d = Sha256 \<and> br_prefix_bits req < dc_min_query_bits (rs_domains st) then
                   Reject (BelowFloor (dc_min_query_bits (rs_domains st)) (dc_max_query_bits (rs_domains st)) (br_prefix_bits req))
                 else if d \<noteq> dc_native (rs_domains st) then added_handler st d req
                 else native_handler C st req))"

end
