(* ===== verification/ServerPull.thy ===== *)
theory ServerPull
  imports StoreServe ServerBuckets NetPullSpec
begin

text \<open>
  The pull client against the model of the server: \<open>POST /repo/buckets\<close> meets the contracts of
  \<open>NetPullSpec\<close>, so that a pull returns the store's snapshot and an incremental pull its changes.
\<close>

section \<open>A network that reaches one repository\<close>

text \<open>
  The JSON codec of the wire types is a parameter that must read back what it wrote.  The world of
  the network counts the requests; \<open>faults\<close> says which of them fail in transport.
\<close>

record wire =
  enc_snapshot :: "snapshot_reply \<Rightarrow> byte list"
  dec_snapshot :: "byte list \<Rightarrow> snapshot_reply option"
  enc_delta :: "mapping_delta \<Rightarrow> byte list"
  dec_delta :: "byte list \<Rightarrow> mapping_delta option"

definition wire_ok :: "wire \<Rightarrow> bool" where
  "wire_ok W \<longleftrightarrow> (\<forall>x. dec_snapshot W (enc_snapshot W x) = Some x) \<and> (\<forall>x. dec_delta W (enc_delta W x) = Some x)"

definition reply_http :: "wire \<Rightarrow> bucket_reply \<Rightarrow> http_body http_result" where
  "reply_http W reply =
     (case reply of
        ReplySnapshot v c tags \<Rightarrow>
          HttpOk \<lparr>body_bytes = enc_snapshot W \<lparr>sn_version = v, sn_cursor = nat c, sn_tags = tags\<rparr>, body_fails = False\<rparr>
      | ReplyDelta v c changes \<Rightarrow>
          HttpOk \<lparr>body_bytes = enc_delta W \<lparr>md_version = v, md_cursor = nat c, md_changes = changes\<rparr>, body_fails = False\<rparr>
      | ReplyStream items \<Rightarrow> HttpStatus 500 []
      | Reject reason \<Rightarrow> HttpStatus (reject_code reason) [])"

definition repo_net :: "crypto \<Rightarrow> repo_state \<Rightarrow> wire \<Rightarrow> (nat \<Rightarrow> ustring option) \<Rightarrow> nat net" where
  "repo_net C st W faults =
     \<lparr>net_post = (\<lambda>r w. (case faults w of Some msg \<Rightarrow> HttpTransport msg | None \<Rightarrow> reply_http W (buckets_handler C st r), Suc w)),
      net_open = (\<lambda>r w. (HttpTransport [], Suc w)), net_read = (\<lambda>n w. (Inr [], w)), net_now = (\<lambda>w. w),
      net_sleep = (\<lambda>ms w. w), json_snapshot = dec_snapshot W, json_delta = dec_delta W,
      json_header = (\<lambda>_. None), json_line = (\<lambda>_. None), json_trailer = (\<lambda>_. None), net_lower = to_ascii_lowercase\<rparr>"

text \<open>The bucket of a hash in its hex form.\<close>

definition hex_bucket :: "nat \<Rightarrow> ustring \<Rightarrow> ustring" where
  "hex_bucket bits k = (case hash_from_str k of Inr h \<Rightarrow> bucket_key h bits | Inl _ \<Rightarrow> [])"

text \<open>A request of a healthy repository's native domain, for masked keys.\<close>

definition native_request :: "crypto \<Rightarrow> repo_state \<Rightarrow> wire \<Rightarrow> nat \<Rightarrow> bucket_request \<Rightarrow> bool" where
  "native_request C st W bits r \<longleftrightarrow> store_ok (rs_store st) \<and> hex_ok C \<and> wire_ok W \<and> br_stream r = False \<and>
     br_prefix_bits r = bits \<and> br_domain r \<in> {None, Some (domain_as_str (dc_native (rs_domains st)))} \<and>
     (\<forall>b\<in>set (br_buckets r). \<exists>lo. hash_ok lo \<and> b = bucket_key lo bits)"

lemma resolve_native:
  "br_domain r \<in> {None, Some (domain_as_str (dc_native dc))} \<Longrightarrow>
    resolve_domain (br_domain r) (served dc) (dc_native dc) = Inr (dc_native dc)"
proof -
  have ws: "\<not> is_ws 98" "\<not> is_ws 115" "\<not> is_ws 51" "\<not> is_ws 54" by (simp_all add: is_ws_def)
  have "trim (domain_as_str x) = domain_as_str x" "domain_as_str x \<noteq> []" "domain_from_str (domain_as_str x) = Inr x" for x
    using ws by (cases x; simp add: trim_def trim_start_def trim_end_def domain_from_str_def to_ascii_lowercase_def ascii_lower_def)+
  then show "br_domain r \<in> {None, Some (domain_as_str (dc_native dc))} \<Longrightarrow> ?thesis"
    by (auto simp: resolve_domain_def Let_def served_def simp del: domain_as_str.simps)
qed

section \<open>What the native domain answers\<close>

lemma other_vec:
  assumes "store_ok s" "hex_ok C" "\<forall>h. hash_ok h \<longrightarrow> k \<noteq> to_hex h" "set rows \<subseteq> set (joined s)"
  shows "get_vec (fold (push_row C) rows []) k = []"
proof -
  have "hex_encode C (fst row) \<noteq> k" if "row \<in> set rows" for row
  proof -
    have "hash_ok (fst row)" using row_hash_ok [OF assms(1)] assms(4) that by blast
    moreover have "hex_encode C (fst row) = to_hex (fst row)" using assms(2) by (simp add: hex_ok_def)
    ultimately show ?thesis using assms(3) by metis
  qed
  then show ?thesis by (auto simp: fold_push_get filter_empty_conv)
qed

lemma fold_push_nonempty: "map_of m k \<noteq> Some [] \<Longrightarrow> map_of (fold (push_row C) rows m) k \<noteq> Some []"
  by (induction rows arbitrary: m) (auto simp: push_row_def push_entry_def split: prod.split)

lemma bucket_view:
  assumes "store_ok s" "hex_ok C" "hash_ok lo"
    and "bucket C s (bucket_key lo bits) (bucket_upper lo bits) budget = Inr (part, spent)"
  shows "get_vec part k = (if hex_bucket bits k = bucket_key lo bits then get_vec (snapshot C s) k else [])" and "keyed part"
    and "map_of part k \<noteq> Some []"
proof -
  have part: "part = fold (push_row C) (bucket_rows C s (bucket_key lo bits) (bucket_upper lo bits)) []"
    using drain_Inr [OF assms(4) [unfolded bucket_drain]] .
  then show "keyed part" by (simp add: fold_push_keyed)
  show "map_of part k \<noteq> Some []" unfolding part by (rule fold_push_nonempty) simp
  show "get_vec part k = (if hex_bucket bits k = bucket_key lo bits then get_vec (snapshot C s) k else [])"
  proof (cases "\<exists>h. hash_ok h \<and> k = to_hex h")
    case True
    then obtain h where h: "hash_ok h" "k = to_hex h" by blast
    then have "hex_bucket bits k = bucket_key h bits" by (simp add: hex_bucket_def hash_from_str_to_hex)
    then show ?thesis using bucket_vec [OF assms(1-3) h(1)] snapshot_vec [OF assms(1,2) h(1)] by (simp add: part h(2))
  next
    case False
    have "set (bucket_rows C s (bucket_key lo bits) (bucket_upper lo bits)) \<subseteq> set (joined s)"
      by (auto simp: bucket_rows_def)
    then have "get_vec part k = []" unfolding part using other_vec [OF assms(1,2)] False by blast
    moreover have "get_vec (snapshot C s) k = []"
      unfolding snapshot_def using False by (intro other_vec [OF assms(1,2)]) auto
    ultimately show ?thesis by simp
  qed
qed

lemma map_of_replace: "keyed part \<Longrightarrow> map_of (replace_entries part m) = map_of m ++ map_of part"
proof (induction part arbitrary: m)
  case (Cons kv part)
  obtain k v where kv: "kv = (k, v)" by fastforce
  have "keyed part" "map_of part k = None" using Cons.prems by (auto simp: keyed_def kv map_of_eq_None_iff)
  then show ?case using Cons.IH [of "AList.update k v m"] by (auto simp: replace_entries_def kv fun_eq_iff map_add_def split: option.split)
qed (simp add: replace_entries_def)

lemma keyed_replace [simp]: "keyed m \<Longrightarrow> keyed (replace_entries part m)"
  unfolding replace_entries_def by (induction part arbitrary: m) auto

lemma masked_masked: "hash_ok lo \<Longrightarrow> masked (masked lo bits) bits = masked lo bits"
proof -
  assume lo: "hash_ok lo"
  then have m: "hash_ok (masked lo bits)" by (simp add: hash_ok_def)
  have "be_val (masked (masked lo bits) bits) = be_val (masked lo bits)"
    unfolding masked_be_val [OF m] masked_be_val [OF lo] by simp
  then show ?thesis by (intro be_val_inj) simp_all
qed

lemma parse_masked:
  assumes "hash_ok lo"
  shows "hash_from_str (bucket_key lo bits) = Inr (masked lo bits)" and "hash_ok (masked lo bits)"
    and "bucket_key (masked lo bits) bits = bucket_key lo bits" and "bucket_upper (masked lo bits) bits = bucket_upper lo bits"
proof -
  show m: "hash_ok (masked lo bits)" using assms by (simp add: hash_ok_def)
  then show "hash_from_str (bucket_key lo bits) = Inr (masked lo bits)"
    by (simp add: bucket_key_def hash_from_str_to_hex)
  have mm: "masked (masked lo bits) bits = masked lo bits" by (rule masked_masked [OF assms])
  then show "bucket_key (masked lo bits) bits = bucket_key lo bits" by (simp add: bucket_key_def)
  have "masked h (min bits 256) = masked h bits" for h by (simp add: masked_def)
  then show "bucket_upper (masked lo bits) bits = bucket_upper lo bits" by (simp add: bucket_upper_def Let_def mm min_eq_0 del: carry_loop.simps)
qed

lemma native_tags_view:
  assumes "store_ok s" "hex_ok C" "\<forall>b\<in>set keys. \<exists>lo. hash_ok lo \<and> b = bucket_key lo bits"
    and "native_tags C s bits remaining keys tags = Inr out" "keyed tags"
    and "\<forall>k. get_vec tags k = (if hex_bucket bits k \<in> set seen then get_vec (snapshot C s) k else [])"
  shows "keyed out \<and> (\<forall>k. get_vec out k = (if hex_bucket bits k \<in> set seen \<union> set keys then get_vec (snapshot C s) k else []))"
  using assms(3-)
proof (induction keys arbitrary: remaining tags seen)
  case (Cons b keys)
  obtain lo where lo: "hash_ok lo" "b = bucket_key lo bits" using Cons.prems(1) by auto
  note p = parse_masked [OF lo(1), of bits]
  obtain part spent where run: "bucket C s (bucket_key lo bits) (bucket_upper lo bits) remaining = Inr (part, spent)"
    "native_tags C s bits (remaining - spent) keys (replace_entries part tags) = Inr out"
    using Cons.prems(2) by (auto simp: lo(2) p split: sum.splits)
  note part = bucket_view [OF assms(1,2) lo(1) run(1)]
  have "get_vec (replace_entries part tags) k =
      (if hex_bucket bits k \<in> set (b # seen) then get_vec (snapshot C s) k else [])" for k
  proof (cases "map_of part k")
    case None
    then have "get_vec part k = []" by (simp add: get_vec_def)
    moreover have "get_vec (replace_entries part tags) k = get_vec tags k"
      using None by (simp add: get_vec_def map_of_replace [OF part(2)] map_add_def)
    ultimately show ?thesis using part(1) [of k] Cons.prems(4) by (auto simp: lo(2) split: if_splits)
  next
    case (Some v)
    then have "get_vec (replace_entries part tags) k = get_vec part k"
      by (simp add: get_vec_def map_of_replace [OF part(2)])
    moreover have "hex_bucket bits k = b"
      using Some part(1,3) [of k] by (auto simp: get_vec_def lo(2) split: if_splits)
    ultimately show ?thesis using part(1) [of k] Some by (auto simp: lo(2))
  qed
  then show ?case
    using Cons.IH [OF _ run(2), of "b # seen"] Cons.prems(1,3) by simp
qed simp

lemma native_changes_ans:
  assumes "\<forall>b\<in>fst ` set keys. \<exists>lo. hash_ok lo \<and> b = bucket_key lo bits" "store_ok s" "hex_ok C"
    and "native_changes C s bits remaining keys changes = Inr out"
  shows "out = changes @ concat (map (\<lambda>(b, since). map (row_change C)
      (delta_rows C s b (bucket_upper (projr (hash_from_str b)) bits) (min (int since) (2 ^ 63 - 1)))) keys)"
  using assms(1,4)
proof (induction keys arbitrary: remaining changes)
  case (Cons key keys)
  obtain b since where key: "key = (b, since)" by fastforce
  obtain lo where lo: "hash_ok lo" "b = bucket_key lo bits" using Cons.prems(1) by (auto simp: key)
  note p = parse_masked [OF lo(1), of bits]
  obtain part spent where run: "bucket_delta C s b (bucket_upper lo bits) since remaining = Inr (part, spent)"
    "native_changes C s bits (remaining - spent) keys (changes @ part) = Inr out"
    using Cons.prems(2) by (auto simp: key lo(2) p split: sum.splits)
  have "part = map (row_change C) (delta_rows C s b (bucket_upper lo bits) (min (int since) (2 ^ 63 - 1)))"
    using drain_Inr [OF run(1) [unfolded delta_drain]] by (simp add: fold_snoc_map)
  then show ?case using Cons.IH [OF _ run(2)] Cons.prems(1) by (simp add: key lo(2) p)
qed simp

lemma keys_parse:
  assumes "\<forall>b\<in>set keys. \<exists>lo. hash_ok lo \<and> b = bucket_key lo bits"
  shows "find (\<lambda>b. \<not> is_ok (hash_from_str b)) keys = None"
  using assms parse_masked(1) by (fastforce simp: find_None_iff)

lemma clip_bits: "bucket_key h (min bits 256) = bucket_key h bits" "bucket_upper h (min bits 256) = bucket_upper h bits"
  by (simp_all add: bucket_key_def masked_def bucket_upper_def Let_def)

lemma native_tags_clip: "native_tags C s (min bits 256) n ks tags = native_tags C s bits n ks tags"
  by (induction ks arbitrary: n tags) (simp_all add: clip_bits split: sum.split)

lemma native_changes_clip: "native_changes C s (min bits 256) n ks changes = native_changes C s bits n ks changes"
  by (induction ks arbitrary: n changes) (auto simp add: clip_bits split: sum.split)

text \<open>The only replies that carry a body are those of the native domain.\<close>

lemma native_reply:
  assumes "native_request C st W bits r" "net_post (repo_net C st W faults) r w = (HttpOk body, w')"
  shows "case br_since r of
      None \<Rightarrow> \<exists>tags. native_tags C (rs_store st) bits (rs_bucket_budget st) (br_buckets r) [] = Inr tags \<and>
        body = \<lparr>body_bytes = enc_snapshot W \<lparr>sn_version = PROTOCOL_VERSION, sn_cursor = nat (mapping_cursor (rs_store st)), sn_tags = tags\<rparr>,
          body_fails = False\<rparr>
    | Some since \<Rightarrow> \<exists>changes. native_changes C (rs_store st) bits (rs_bucket_budget st) (zip (br_buckets r) since) [] = Inr changes \<and>
        body = \<lparr>body_bytes = enc_delta W \<lparr>md_version = PROTOCOL_VERSION, md_cursor = nat (mapping_cursor (rs_store st)), md_changes = changes\<rparr>,
          body_fails = False\<rparr>"
proof -
  have dom: "br_domain r \<in> {None, Some (domain_as_str (dc_native (rs_domains st)))}" and bits: "br_prefix_bits r = bits"
    and stream: "\<not> br_stream r" and keys: "find (\<lambda>b. \<not> is_ok (hash_from_str b)) (br_buckets r) = None"
    using assms(1) keys_parse unfolding native_request_def by blast+
  show ?thesis
    using assms(2) dom
    by (auto simp: repo_net_def reply_http_def buckets_handler_def native_handler_def resolve_native bits stream keys native_tags_clip native_changes_clip Let_def
        split: option.splits sum.splits if_splits)
qed

lemma capped_whole:
  "read_capped_counted json \<lparr>body_bytes = bytes, body_fails = False\<rparr> cap = Inr (v, len) \<Longrightarrow> json bytes = Some v"
  by (auto simp: read_capped_counted_def Let_def split: if_splits option.splits)

definition native_ans :: "crypto \<Rightarrow> repo_state \<Rightarrow> nat \<Rightarrow> ustring \<Rightarrow> nat \<Rightarrow> delta_mapping list" where
  "native_ans C st bits b since = map (row_change C)
     (delta_rows C (rs_store st) b (bucket_upper (projr (hash_from_str b)) bits) (min (int since) (2 ^ 63 - 1)))"

lemma net_json [simp]: "json_snapshot (repo_net C st W faults) = dec_snapshot W" "json_delta (repo_net C st W faults) = dec_delta W"
  by (simp_all add: repo_net_def)

lemma native_snapshot_reply:
  assumes "br_since r = None" "native_request C st W bits r" "net_post (repo_net C st W faults) r w = (HttpOk body, w')"
    and "read_capped_counted (json_snapshot (repo_net C st W faults)) body RESPONSE_SIZE_CAP = Inr (sn, len)"
  shows "keyed (sn_tags sn) \<and> (\<forall>h. get_vec (sn_tags sn) h =
      (if hex_bucket bits h \<in> set (br_buckets r) then get_vec (snapshot C (rs_store st)) h else [])) \<and>
    sn_cursor sn = nat (mapping_cursor (rs_store st))"
proof -
  have ok: "store_ok (rs_store st)" "hex_ok C" "wire_ok W" "\<forall>b\<in>set (br_buckets r). \<exists>lo. hash_ok lo \<and> b = bucket_key lo bits"
    using assms(2) unfolding native_request_def by blast+
  obtain tags where tags: "native_tags C (rs_store st) bits (rs_bucket_budget st) (br_buckets r) [] = Inr tags"
    "body = \<lparr>body_bytes = enc_snapshot W \<lparr>sn_version = PROTOCOL_VERSION, sn_cursor = nat (mapping_cursor (rs_store st)), sn_tags = tags\<rparr>,
          body_fails = False\<rparr>"
    using native_reply [OF assms(2,3)] assms(1) by auto
  have "sn = \<lparr>sn_version = PROTOCOL_VERSION, sn_cursor = nat (mapping_cursor (rs_store st)), sn_tags = tags\<rparr>"
    using capped_whole [OF assms(4) [unfolded tags(2)]] ok(3) by (simp add: wire_ok_def)
  then show ?thesis
    using native_tags_view [OF ok(1,2,4) tags(1), of "[]"] by simp
qed

lemma native_delta_reply:
  assumes "br_since r = Some s" "length s = length (br_buckets r)" "native_request C st W bits r"
    and "net_post (repo_net C st W faults) r w = (HttpOk body, w')"
    and "read_capped_counted (json_delta (repo_net C st W faults)) body RESPONSE_SIZE_CAP = Inr (md, len)"
  shows "md_changes md = concat (map (\<lambda>(k, c). native_ans C st bits k c) (zip (br_buckets r) s)) \<and>
    md_cursor md = nat (mapping_cursor (rs_store st))"
proof -
  have ok: "store_ok (rs_store st)" "hex_ok C" "wire_ok W" "\<forall>b\<in>set (br_buckets r). \<exists>lo. hash_ok lo \<and> b = bucket_key lo bits"
    using assms(3) unfolding native_request_def by blast+
  have keys: "\<forall>b\<in>fst ` set (zip (br_buckets r) s). \<exists>lo. hash_ok lo \<and> b = bucket_key lo bits"
    using ok(4) by (auto dest: set_zip_leftD)
  obtain changes where ch: "native_changes C (rs_store st) bits (rs_bucket_budget st) (zip (br_buckets r) s) [] = Inr changes"
    "body = \<lparr>body_bytes = enc_delta W \<lparr>md_version = PROTOCOL_VERSION, md_cursor = nat (mapping_cursor (rs_store st)), md_changes = changes\<rparr>,
          body_fails = False\<rparr>"
    using native_reply [OF assms(3,4)] assms(1) by auto
  have "md = \<lparr>md_version = PROTOCOL_VERSION, md_cursor = nat (mapping_cursor (rs_store st)), md_changes = changes\<rparr>"
    using capped_whole [OF assms(5) [unfolded ch(2)]] ok(3) by (simp add: wire_ok_def)
  then show ?thesis
    using native_changes_ans [OF keys ok(1,2) ch(1)] by (simp add: native_ans_def case_prod_beta)
qed

interpretation repo_pull: bucket_server "repo_net C st W faults" "native_request C st W bits" "hex_bucket bits"
  "get_vec (snapshot C (rs_store st))" "nat (mapping_cursor (rs_store st))" "nat (mapping_cursor (rs_store st))"
  for C st W faults bits
  using native_snapshot_reply by unfold_locales (blast | simp)+

interpretation repo_delta: delta_server "repo_net C st W faults" "native_request C st W bits" "native_ans C st bits"
  "nat (mapping_cursor (rs_store st))" "nat (mapping_cursor (rs_store st))"
  for C st W faults bits
  using native_delta_reply by unfold_locales (blast | simp)+

section \<open>Pulls against a repository\<close>

lemma request_native:
  assumes "store_ok (rs_store st)" "hex_ok C" "wire_ok W" "d \<in> {None, Some (dc_native (rs_domains st))}"
    "\<forall>b\<in>set buckets. \<exists>lo. hash_ok lo \<and> b = bucket_key lo bits" "set keys \<subseteq> set buckets"
  shows "native_request C st W bits (bucket_req bits keys since d False None)"
  using assms by (auto simp: native_request_def bucket_req_def simp del: domain_as_str.simps)

text \<open>
  C15. A pull over an unreliable network.  Whatever requests fail in transport, however the windows are cut,
  shrunk, retried and bisected: when a materialised pull of distinct buckets from a repository succeeds, the
  tags it returns for every hash of these buckets are exactly those of the repository's snapshot, none lost and
  none merged twice, it returns nothing else, and its cursor is the repository's.
\<close>

theorem pull_exact:
  assumes "store_ok (rs_store st)" "hex_ok C" "wire_ok W" "d \<in> {None, Some (dc_native (rs_domains st))}"
    and "distinct buckets" "\<forall>b\<in>set buckets. \<exists>lo. hash_ok lo \<and> b = bucket_key lo bits"
    and "mapping_cursor (rs_store st) < 2 ^ 64"
    and "fetch_buckets_in (repo_net C st W faults) bits buckets d w0 False io0 = Some (Inr m, io1)"
  shows "(\<forall>h. get_vec (sn_tags m) h = (if hex_bucket bits h \<in> set buckets then get_vec (snapshot C (rs_store st)) h else [])) \<and>
    sn_cursor m = nat (mapping_cursor (rs_store st))"
proof -
  have c: "nat (mapping_cursor (rs_store st)) \<le> 2 ^ 64 - 1" using assms(7) by simp
  have req: "\<forall>keys. set keys \<subseteq> set buckets \<longrightarrow> native_request C st W bits (bucket_req bits keys None d False None)"
    using request_native [OF assms(1-4,6)] by blast
  note exact = repo_pull.fetch_exact [OF assms(8) [unfolded fetch_buckets_in_def] assms(5) c req]
  show ?thesis using exact by (intro conjI allI) (blast, simp)
qed

text \<open>
  C17. A materialised pull always returns.  And when no request is ever answered it gives up, at a window no
  larger than the floor, with the error that names how far it got; it never hangs.
\<close>

theorem pull_returns:
  "fetch_buckets_inner N bits buckets d merged_cap w0 False io0 \<noteq> None \<and>
   ((\<forall>r w. \<exists>msg w'. net_post N r w = (HttpTransport msg, w')) \<longrightarrow>
     (\<exists>ws err io1. ws \<le> MIN_WINDOW \<and>
       fetch_buckets_inner N bits buckets d merged_cap w0 False io0 =
         Some (Inl (FloorExhausted bits ws 0 (length buckets) 0 err), io1)))"
proof (intro conjI impI)
  show "fetch_buckets_inner N bits buckets d merged_cap w0 False io0 \<noteq> None"
    unfolding fetch_buckets_inner_def by (rule pull_loop_returns)
  assume dead: "\<forall>r w. \<exists>msg w'. net_post N r w = (HttpTransport msg, w')"
  let ?e = "if length buckets = 0 then 0 else window_end buckets None 0 BUCKET_REQUEST_BODY_BUDGET (max w0 MIN_WINDOW)"
  have attempt: "\<exists>reason err st. fetch_attempt N bits buckets d merged_cap False empty_reply 0 0 e io0 = Some (Inl (Retryable reason err), st)" for e io0
  proof -
    obtain msg w' where post: "net_post N (bucket_req bits (slice_of buckets 0 e) None d False None) (io_world io0) = (HttpTransport msg, w')"
      using dead by blast
    show ?thesis
      by (simp add: fetch_attempt_def fetch_buckets_chunk_bisecting.simps [of N bits buckets d] post classify_ureq_def Let_def)
  qed
  obtain res io1 where run: "retry_loop N bits buckets d merged_cap False empty_reply 0 0 0 0 ?e (?e - 0) io0 = Some (res, io1)"
    using retry_loop_returns [OF materialised_attempt] by (metis option.exhaust surj_pair)
  have "\<exists>ws err. ws \<le> MIN_WINDOW \<and> res = Inl (FloorExhausted bits ws 0 (length buckets) (length (sn_tags empty_reply)) err)"
    by (rule retry_loop_rule [OF run, where I = "\<lambda>e ws io. True" and Q = "\<lambda>res io. \<exists>ws err. ws \<le> MIN_WINDOW \<and>
        res = Inl (FloorExhausted bits ws 0 (length buckets) (length (sn_tags empty_reply)) err)"])
      (use attempt in \<open>auto, (metis Inl_Inr_False Pair_inject Inl_inject option.inject window_error.distinct(1))+\<close>)
  then show "\<exists>ws err io1. ws \<le> MIN_WINDOW \<and> fetch_buckets_inner N bits buckets d merged_cap w0 False io0 =
         Some (Inl (FloorExhausted bits ws 0 (length buckets) 0 err), io1)"
    using run by (auto simp: fetch_buckets_inner_def pull_loop.simps [of N] Let_def empty_reply_def)
qed


section \<open>The incremental pull\<close>

text \<open>The status and origin of a pair, as a client keeps it.\<close>

definition row_state :: "map_row \<Rightarrow> mapping_status \<times> ustring option" where
  "row_state r = (if mr_status r = 1 then Deleted else Current, mr_origin r)"

definition change_entry :: "delta_mapping \<Rightarrow> (ustring \<times> ustring) \<times> (mapping_status \<times> ustring option)" where
  "change_entry c = ((dm_hash c, dm_tag c), (dm_status c, dm_origin c))"

lemma map_of_determined:
  "(\<And>e. e \<in> set xs \<Longrightarrow> fst e = k \<Longrightarrow> snd e = v) \<Longrightarrow> map_of xs k = (if k \<in> fst ` set xs then Some v else None)"
  by (induction xs) force+

text \<open>A row below the old cursor is an old row.\<close>

lemma cur_row_old:
  assumes "store_ok s" "store_adv s s'" "cur_row s' h t = Some r'" "mr_seq r' \<le> mapping_cursor s"
  shows "cur_row s h t = Some r'"
proof -
  obtain i j where ij: "map_of (repo_hashes s') h = Some i" "map_of (repo_tags s') t = Some j"
    "map_of (repo_mappings s') (i, j) = Some r'" using assms(3) by (auto simp: cur_row_key)
  have adv: "advances mr_seq (repo_mappings s) (repo_mappings s')" and ok': "store_ok s'"
    and keep: "\<forall>h i. map_of (repo_hashes s) h = Some i \<longrightarrow> map_of (repo_hashes s') h = Some i"
      "\<forall>t i. map_of (repo_tags s) t = Some i \<longrightarrow> map_of (repo_tags s') t = Some i"
    using assms(2) by (simp_all add: store_adv_def)
  have old: "map_of (repo_mappings s) (i, j) = Some r'"
    using adv ij(3) assms(4) unfolding advances_def mapping_cursor_def by (metis not_le)
  then have "interned s (i, j)" using assms(1) unfolding store_ok_def by blast
  then obtain h0 t0 where k: "(h0, i) \<in> set (repo_hashes s)" "(t0, j) \<in> set (repo_tags s)"
    by (auto simp: interned_def)
  have ids: "ids_ok (repo_hashes s)" "ids_ok (repo_tags s)" "ids_ok (repo_hashes s')" "ids_ok (repo_tags s')"
    using assms(1) ok' by (simp_all add: store_ok_def)
  then have k0: "map_of (repo_hashes s) h0 = Some i" "map_of (repo_tags s) t0 = Some j"
    using k by (simp_all add: ids_ok_def keyed_def)
  then have "h0 = h" "t0 = t"
    using keep ij(1,2) ids.lookup_inj [OF ids(3)] ids.lookup_inj [OF ids(4)] by blast+
  then show ?thesis using k0 old by (auto simp: cur_row_key)
qed

lemma native_ans_iff:
  assumes "store_ok (rs_store st)" "hex_ok C" "hash_ok lo" "since < 2 ^ 63"
  shows "c \<in> set (native_ans C st bits (bucket_key lo bits) since) \<longleftrightarrow>
    (\<exists>h t r. c = row_change C (h, t, r) \<and> bucket_key h bits = bucket_key lo bits \<and> cur_row (rs_store st) h t = Some r \<and> int since < mr_seq r)"
proof -
  have "min (int since) (2 ^ 63 - 1) = int since" using assms(4) by (simp add: min_def)
  then show ?thesis
    using delta_rows_iff [OF assms(1-3), of _ bits "int since"] joined_iff [OF assms(1)]
    by (auto simp: native_ans_def parse_masked [OF assms(3)] image_iff) blast
qed

lemma row_change_entry: "hex_ok C \<Longrightarrow> change_entry (row_change C (h, t, r)) = ((to_hex h, t), row_state r)"
  by (simp add: change_entry_def row_change_def row_state_def hex_ok_def)

text \<open>The changes above a cursor that any list of buckets carries, laid over the old rows, are the new rows.\<close>

lemma overlay_changes:
  assumes "store_ok s" "store_adv s (rs_store st)" "hex_ok C" "hash_ok h"
    and "mapping_cursor s < 2 ^ 63" "\<forall>b\<in>set buckets. \<exists>lo. hash_ok lo \<and> b = bucket_key lo bits"
    and "bucket_key h bits \<in> set buckets"
    and changes: "set changes = (\<Union>b\<in>set buckets. set (native_ans C st bits b (nat (mapping_cursor s))))"
  shows "map_option row_state (cur_row (rs_store st) h t) =
    (case map_of (map change_entry changes) (to_hex h, t) of Some v \<Rightarrow> Some v | None \<Rightarrow> map_option row_state (cur_row s h t))"
proof -
  let ?s' = "rs_store st" and ?c = "nat (mapping_cursor s)"
  have ok': "store_ok ?s'" using assms(2) by (rule store_adv_ok)
  have c: "int ?c = mapping_cursor s" "?c < 2 ^ 63"
    using max_seq_nonneg [of mr_seq "repo_mappings s"] assms(1,5) by (auto simp: mapping_cursor_def store_ok_def)
  have mem: "x \<in> set changes \<longleftrightarrow> (\<exists>h t r. x = row_change C (h, t, r) \<and> bucket_key h bits \<in> set buckets \<and>
      cur_row ?s' h t = Some r \<and> mapping_cursor s < mr_seq r)" for x
    using assms(6) native_ans_iff [OF ok' assms(3) _ c(2), of _ x bits] unfolding changes c(1) by fastforce
  have entry: "\<exists>r. cur_row ?s' h t = Some r \<and> mapping_cursor s < mr_seq r \<and> snd e = row_state r"
    if e: "e \<in> set (map change_entry changes)" "fst e = (to_hex h, t)" for e
  proof -
    obtain x where x: "x \<in> set changes" "e = change_entry x" using e(1) by auto
    then obtain h' t' r where r: "x = row_change C (h', t', r)" "cur_row ?s' h' t' = Some r" "mapping_cursor s < mr_seq r"
      using mem by blast
    have "(h', t', r) \<in> set (joined ?s')" using r(2) joined_iff [OF ok'] by blast
    then have "length h' = length h" using joined_hash_length [OF ok'] assms(4) by (force simp: hash_ok_def)
    moreover have "to_hex h' = to_hex h" "t' = t" using e(2) unfolding x(2) r(1) row_change_entry [OF assms(3)] by simp_all
    ultimately have "h' = h" using to_hex_inj by blast
    then show ?thesis using r \<open>t' = t\<close> by (simp add: x(2) row_change_entry [OF assms(3)])
  qed
  show ?thesis
  proof (cases "cur_row ?s' h t")
    case None
    then have "(to_hex h, t) \<notin> fst ` set (map change_entry changes)" using entry by (metis imageE option.distinct(1))
    then have "map_of (map change_entry changes) (to_hex h, t) = None" by (simp only: map_of_eq_None_iff not_False_eq_True)
    moreover have "cur_row s h t = None" using cur_row_adv [OF assms(1,2)] None by (metis option.distinct(1) option.exhaust)
    ultimately show ?thesis by (simp add: None)
  next
    case (Some r)
    have "map_of (map change_entry changes) (to_hex h, t) =
        (if (to_hex h, t) \<in> fst ` set (map change_entry changes) then Some (row_state r) else None)"
      by (rule map_of_determined) (use entry Some in fastforce)
    moreover have "(to_hex h, t) \<in> fst ` set (map change_entry changes) \<longleftrightarrow> mapping_cursor s < mr_seq r"
    proof
      assume "(to_hex h, t) \<in> fst ` set (map change_entry changes)"
      then show "mapping_cursor s < mr_seq r" using entry Some by fastforce
    next
      assume "mapping_cursor s < mr_seq r"
      then have "row_change C (h, t, r) \<in> set changes" using mem assms(7) Some by blast
      then have "((to_hex h, t), row_state r) \<in> set (map change_entry changes)"
        using row_change_entry [OF assms(3), of h t r] by (metis image_eqI image_set)
      then show "(to_hex h, t) \<in> fst ` set (map change_entry changes)"
        by (intro image_eqI [of _ fst "((to_hex h, t), row_state r)"]) simp_all
    qed
    moreover have "\<not> mapping_cursor s < mr_seq r \<Longrightarrow> cur_row s h t = Some r"
      using cur_row_old [OF assms(1,2) Some] by simp
    ultimately show ?thesis using Some by simp
  qed
qed

text \<open>
  C16. The incremental pull.  A client that knows the state of every pair of some buckets as of a store \<open>s\<close>
  pulls their changes since the cursor of \<open>s\<close>, after the store has gone through any run of submissions, seeds,
  bulk writes, moderator deletions and replays.  When the pull succeeds, whatever was bisected on the way, the
  changes laid over what the client knew are exactly the present state of these buckets, tombstones and origins
  included, and the cursor returned is the present one.
\<close>

theorem incremental_pull_exact:
  assumes "store_ok s" "(mapping_step lc C)\<^sup>*\<^sup>* s (rs_store st)" "hex_ok C" "wire_ok W"
    and "d \<in> {None, Some (dc_native (rs_domains st))}" "\<forall>b\<in>set buckets. \<exists>lo. hash_ok lo \<and> b = bucket_key lo bits"
    and "mapping_cursor (rs_store st) < 2 ^ 63"
    and "fetch_bucket_delta_in (repo_net C st W faults) bits buckets (map (\<lambda>_. nat (mapping_cursor s)) buckets) d io0 = (Inr m, io1)"
  shows "(\<forall>h t. hash_ok h \<and> bucket_key h bits \<in> set buckets \<longrightarrow>
      map_option row_state (cur_row (rs_store st) h t) =
      (case map_of (map change_entry (md_changes m)) (to_hex h, t) of
         Some v \<Rightarrow> Some v | None \<Rightarrow> map_option row_state (cur_row s h t))) \<and>
    md_cursor m = nat (mapping_cursor (rs_store st))"
proof -
  have adv: "store_adv s (rs_store st)" by (rule mapping_steps_adv [OF assms(2,1)])
  have "mapping_cursor s \<le> mapping_cursor (rs_store st)"
    using mappings.cursor_mono [OF assms(2,1)] by (simp add: mapping_cursor_def)
  then have c: "mapping_cursor s < 2 ^ 63" using assms(7) by simp
  have c': "nat (mapping_cursor (rs_store st)) \<le> 2 ^ 64 - 1" using assms(7) by simp
  have req: "\<forall>keys s. set keys \<subseteq> set buckets \<longrightarrow> native_request C st W bits (bucket_req bits keys (Some s) d False None)"
    using request_native [OF store_adv_ok [OF adv] assms(3-6)] by blast
  let ?since = "map (\<lambda>_. nat (mapping_cursor s)) buckets"
  have len: "length ?since = length buckets" by simp
  note exact = repo_delta.delta_exact [OF assms(8) [unfolded fetch_bucket_delta_in_def] len c' req]
  have "zip buckets ?since = map (\<lambda>b. (b, nat (mapping_cursor s))) buckets" by (simp add: zip_map2 map_idI zip_same_conv_map)
  then have ch: "set (md_changes m) = (\<Union>b\<in>set buckets. set (native_ans C st bits b (nat (mapping_cursor s))))"
    unfolding exact(1) by auto
  show ?thesis
    using overlay_changes [OF assms(1) adv assms(3) _ c assms(6) _ ch] exact(2,3) by (intro conjI allI impI) (blast, simp)
qed

section \<open>Witnesses\<close>

text \<open>A codec that writes numbers in unary, to show that the laws can hold.\<close>

definition put_nat :: "nat \<Rightarrow> byte list" where
  "put_nat n = replicate n 1 @ [0]"

fun get_nat :: "byte list \<Rightarrow> (nat \<times> byte list) option" where
  "get_nat [] = None"
| "get_nat (b # bs) = (if b = 0 then Some (0, bs) else map_option (\<lambda>(n, r). (Suc n, r)) (get_nat bs))"

lemma get_put_nat [simp]: "get_nat (put_nat n @ r) = Some (n, r)"
  by (induction n) (simp_all add: put_nat_def)

definition put_list :: "('a \<Rightarrow> byte list) \<Rightarrow> 'a list \<Rightarrow> byte list" where
  "put_list f xs = put_nat (length xs) @ concat (map f xs)"

fun get_many :: "(byte list \<Rightarrow> ('a \<times> byte list) option) \<Rightarrow> nat \<Rightarrow> byte list \<Rightarrow> ('a list \<times> byte list) option" where
  "get_many g 0 bs = Some ([], bs)"
| "get_many g (Suc n) bs =
     (case g bs of None \<Rightarrow> None | Some (x, r) \<Rightarrow> map_option (\<lambda>(xs, r'). (x # xs, r')) (get_many g n r))"

definition get_list :: "(byte list \<Rightarrow> ('a \<times> byte list) option) \<Rightarrow> byte list \<Rightarrow> ('a list \<times> byte list) option" where
  "get_list g bs = (case get_nat bs of None \<Rightarrow> None | Some (n, r) \<Rightarrow> get_many g n r)"

lemma get_put_list: "(\<And>x r. g (f x @ r) = Some (x, r)) \<Longrightarrow> get_list g (put_list f xs @ r) = Some (xs, r)"
proof -
  assume g: "\<And>x r. g (f x @ r) = Some (x, r)"
  have "get_many g (length xs) (concat (map f xs) @ r) = Some (xs, r)" by (induction xs) (simp_all add: g)
  then show ?thesis by (simp add: get_list_def put_list_def)
qed

text \<open>A value as a list of lists of numbers.\<close>

definition put_rows :: "nat list list \<Rightarrow> byte list" where
  "put_rows = put_list (put_list put_nat)"

definition get_rows :: "byte list \<Rightarrow> nat list list option" where
  "get_rows bs = map_option fst (get_list (get_list get_nat) bs)"

lemma get_put_rows [simp]: "get_rows (put_rows rows) = Some rows"
  using get_put_list [of "get_list get_nat" "put_list put_nat" rows "[]"] get_put_list [of get_nat put_nat]
  by (simp add: get_rows_def put_rows_def)

definition rows_of_opt :: "ustring option \<Rightarrow> nat list" where
  "rows_of_opt og = (case og of None \<Rightarrow> [0] | Some s \<Rightarrow> 1 # s)"

definition opt_of_rows :: "nat list \<Rightarrow> ustring option" where
  "opt_of_rows r = (case r of Suc 0 # s \<Rightarrow> Some s | _ \<Rightarrow> None)"

lemma opt_rows [simp]: "opt_of_rows (rows_of_opt og) = og"
  by (cases og) (simp_all add: rows_of_opt_def opt_of_rows_def)

fun rows_of_tags :: "origin_tag list \<Rightarrow> nat list list" where
  "rows_of_tags [] = []"
| "rows_of_tags (t # ts) = ot_tag t # rows_of_opt (ot_origin t) # rows_of_tags ts"

fun tags_of_rows :: "nat \<Rightarrow> nat list list \<Rightarrow> origin_tag list \<times> nat list list" where
  "tags_of_rows (Suc n) (t # og # rows) =
     (case tags_of_rows n rows of (ts, r) \<Rightarrow> (\<lparr>ot_tag = t, ot_origin = opt_of_rows og\<rparr> # ts, r))"
| "tags_of_rows n rows = ([], rows)"

lemma tags_rows [simp]: "tags_of_rows (length ts) (rows_of_tags ts @ rows) = (ts, rows)"
  by (induction ts) simp_all

fun rows_of_map :: "(ustring \<times> origin_tag list) list \<Rightarrow> nat list list" where
  "rows_of_map [] = []"
| "rows_of_map ((h, ts) # m) = h # [length ts] # rows_of_tags ts @ rows_of_map m"

fun map_of_rows :: "nat \<Rightarrow> nat list list \<Rightarrow> (ustring \<times> origin_tag list) list" where
  "map_of_rows (Suc n) (h # [k] # rows) = (case tags_of_rows k rows of (ts, r) \<Rightarrow> (h, ts) # map_of_rows n r)"
| "map_of_rows n rows = []"

lemma map_rows [simp]: "map_of_rows (length m) (rows_of_map m) = m"
  by (induction m rule: rows_of_map.induct) simp_all

fun rows_of_changes :: "delta_mapping list \<Rightarrow> nat list list" where
  "rows_of_changes [] = []"
| "rows_of_changes (c # cs) =
     dm_hash c # dm_tag c # [if dm_status c = Deleted then 1 else 0, nat (dm_seq c), nat (- dm_seq c)] #
     rows_of_opt (dm_origin c) # rows_of_changes cs"

fun changes_of_rows :: "nat list list \<Rightarrow> delta_mapping list" where
  "changes_of_rows (h # t # [st, p, n] # og # rows) =
     \<lparr>dm_hash = h, dm_tag = t, dm_status = (if st = 1 then Deleted else Current), dm_seq = int p - int n,
      dm_origin = opt_of_rows og\<rparr> # changes_of_rows rows"
| "changes_of_rows rows = []"

lemma changes_rows [simp]: "changes_of_rows (rows_of_changes cs) = cs"
proof (induction cs)
  case (Cons c cs)
  have "dm_status c = Current \<or> dm_status c = Deleted" by (metis mapping_status.exhaust)
  then show ?case using Cons by auto
qed simp

definition toy_wire :: wire where
  "toy_wire =
     \<lparr>enc_snapshot = (\<lambda>x. put_rows ([sn_version x] # [sn_cursor x] # [length (sn_tags x)] # rows_of_map (sn_tags x))),
      dec_snapshot = (\<lambda>bs. case get_rows bs of
          Some ([v] # [c] # [n] # rows) \<Rightarrow> Some \<lparr>sn_version = v, sn_cursor = c, sn_tags = map_of_rows n rows\<rparr> | _ \<Rightarrow> None),
      enc_delta = (\<lambda>x. put_rows ([md_version x] # [md_cursor x] # rows_of_changes (md_changes x))),
      dec_delta = (\<lambda>bs. case get_rows bs of
          Some ([v] # [c] # rows) \<Rightarrow> Some \<lparr>md_version = v, md_cursor = c, md_changes = changes_of_rows rows\<rparr> | _ \<Rightarrow> None)\<rparr>"

lemma toy_wire_ok: "wire_ok toy_wire"
  by (simp add: wire_ok_def toy_wire_def)

definition toy_state :: repo_state where
  "toy_state = \<lparr>rs_store = toy_store, rs_domains = \<lparr>dc_native = Blake3, dc_added_sha256 = None, dc_max_query_bits = 24,
     dc_min_query_bits = 8\<rparr>, rs_bucket_budget = 100000\<rparr>"

definition toy_key :: ustring where
  "toy_key = bucket_key (replicate 32 1) 4"

lemma toy_state_simps [simp]:
  "rs_store toy_state = toy_store" "dc_native (rs_domains toy_state) = Blake3" "rs_bucket_budget toy_state = 100000"
  "dc_max_query_bits (rs_domains toy_state) = 24" "dc_min_query_bits (rs_domains toy_state) = 8"
  "dc_added_sha256 (rs_domains toy_state) = None"
  by (simp_all add: toy_state_def)

lemma toy_key_ok: "\<forall>b\<in>set [toy_key]. \<exists>lo. hash_ok lo \<and> b = bucket_key lo 4"
  using toy_hash by (auto simp: toy_key_def)

lemma toy_key_parse: "hash_from_str toy_key = Inr (masked (replicate 32 1) 4)" "bucket_key (masked (replicate 32 1) 4) 4 = toy_key"
  unfolding toy_key_def using parse_masked [OF toy_hash] by blast+

lemma toy_window: "window_end [toy_key] None 0 BUCKET_REQUEST_BODY_BUDGET w = 1"
  using window_end_gt [of 0 "[toy_key]" None BUCKET_REQUEST_BODY_BUDGET w] window_end_le [of 0 "[toy_key]" None BUCKET_REQUEST_BODY_BUDGET w]
  by simp

lemma toy_domain: "resolve_domain None (served (rs_domains toy_state)) (dc_native (rs_domains toy_state)) = Inr Blake3"
  by (simp add: resolve_domain_def toy_state_def)

lemma toy_bucket_rows: "bucket_rows toy_crypto toy_store toy_key (bucket_upper (masked (replicate 32 1) 4) 4) = [toy_row]"
proof -
  let ?rows = "bucket_rows toy_crypto toy_store toy_key (bucket_upper (masked (replicate 32 1) 4) 4)"
  have "toy_row \<in> set ?rows"
    using bucket_rows_iff [OF toy_store_ok toy_hex_ok toy_hash, of toy_row 4] parse_masked(4) [OF toy_hash, of 4]
    by (simp add: toy_key_def toy_joined toy_row_def del: replicate.simps lit_Cons)
  moreover have "length ?rows \<le> 1" by (simp add: bucket_rows_def toy_joined)
  ultimately show ?thesis by (cases ?rows) auto
qed

definition toy_tags :: tag_map where
  "toy_tags = [(to_hex (replicate 32 1), [\<lparr>ot_tag = lit ''a'', ot_origin = None\<rparr>])]"

lemma toy_bucket_run: "\<exists>spent. bucket toy_crypto toy_store toy_key (bucket_upper (masked (replicate 32 1) 4) 4) 100000 = Inr (toy_tags, spent)"
proof -
  have "total_cost toy_crypto RESPONSE_ENVELOPE_OVERHEAD [toy_row] \<le> RESPONSE_ENVELOPE_OVERHEAD + 1000"
    by (rule toy_cost_le) simp_all
  also have "\<dots> \<le> 100000" by (simp add: RESPONSE_ENVELOPE_OVERHEAD_def)
  finally have "bucket toy_crypto toy_store toy_key (bucket_upper (masked (replicate 32 1) 4) 4) 100000 =
      Inr (fold (push_row toy_crypto) [toy_row] [], total_cost toy_crypto RESPONSE_ENVELOPE_OVERHEAD [toy_row])"
    unfolding bucket_drain toy_bucket_rows by (rule drain_within) simp
  moreover have "fold (push_row toy_crypto) [toy_row] [] = toy_tags"
    by (simp add: push_row_def toy_row_def toy_tags_def push_entry_def toy_crypto_def del: replicate.simps lit_Cons)
  ultimately show ?thesis by simp
qed

abbreviation toy_request :: bucket_request where
  "toy_request \<equiv> bucket_req 4 [toy_key] None None False None"

lemma toy_reply: "buckets_handler toy_crypto toy_state toy_request = ReplySnapshot PROTOCOL_VERSION (mapping_cursor toy_store) toy_tags"
proof -
  obtain spent where "bucket toy_crypto toy_store toy_key (bucket_upper (masked (replicate 32 1) 4) 4) 100000 = Inr (toy_tags, spent)"
    using toy_bucket_run by blast
  then have "native_tags toy_crypto toy_store 4 100000 [toy_key] [] = Inr (replace_entries toy_tags [])"
    by (simp add: toy_key_parse)
  moreover have "replace_entries toy_tags [] = toy_tags" by (simp add: replace_entries_def toy_tags_def)
  moreover have "min 4 256 = (4 :: nat)" by simp
  ultimately show ?thesis
    by (simp add: buckets_handler_def native_handler_def bucket_req_def toy_domain [simplified] toy_key_parse Let_def)
qed


abbreviation toy_net :: "nat net" where
  "toy_net \<equiv> repo_net toy_crypto toy_state toy_wire (\<lambda>_. None)"

abbreviation toy_sn :: snapshot_reply where
  "toy_sn \<equiv> \<lparr>sn_version = PROTOCOL_VERSION, sn_cursor = 1, sn_tags = toy_tags\<rparr>"

lemma toy_cursor: "mapping_cursor toy_store = 1"
  by (simp add: mapping_cursor_def max_seq_def coalesce_max_def toy_store_def)

lemma toy_post:
  "net_post toy_net toy_request w = (HttpOk \<lparr>body_bytes = enc_snapshot toy_wire toy_sn, body_fails = False\<rparr>, Suc w)"
  by (simp add: repo_net_def reply_http_def toy_reply toy_cursor)

lemma length_put: "length (put_nat n) = n + 1" "length (put_list f xs) = length xs + 1 + sum_list (map (length \<circ> f) xs)"
  by (simp_all add: put_nat_def put_list_def length_concat comp_def)

lemma toy_hex_sum: "sum_list (map Suc (to_hex (replicate 32 1))) = 3168"
  by code_simp

lemma toy_len: "length (enc_snapshot toy_wire toy_sn) \<le> 20000"
  by (simp add: toy_wire_def put_rows_def length_put comp_def toy_tags_def rows_of_opt_def PROTOCOL_VERSION_def toy_hex_sum
      del: replicate.simps)

lemma toy_read: "\<exists>len. read_capped_counted (json_snapshot toy_net) \<lparr>body_bytes = enc_snapshot toy_wire toy_sn, body_fails = False\<rparr>
    RESPONSE_SIZE_CAP = Inr (toy_sn, len) \<and> len \<le> 20000"
proof -
  have "dec_snapshot toy_wire (enc_snapshot toy_wire toy_sn) = Some toy_sn" using toy_wire_ok by (simp add: wire_ok_def)
  then show ?thesis using toy_len
    by (simp add: read_capped_counted_def RESPONSE_SIZE_CAP_def Let_def min_def)
qed

lemma toy_chunk: "\<exists>len io1. fetch_buckets_chunk_bisecting toy_net 4 [toy_key] None 0 MERGED_RESPONSE_SIZE_CAP 0 1 (empty_reply, 0, io0) =
    (Inr (), merge_reply toy_sn empty_reply, len, io1)"
proof -
  obtain len where read: "read_capped_counted (json_snapshot toy_net) \<lparr>body_bytes = enc_snapshot toy_wire toy_sn, body_fails = False\<rparr>
    RESPONSE_SIZE_CAP = Inr (toy_sn, len)" "len \<le> 20000" using toy_read by blast
  have slice: "slice_of [toy_key] 0 1 = [toy_key]" by (simp add: slice_of_def)
  have "ensure_supported (sn_version toy_sn) = Inr ()" by (simp add: ensure_supported_def PROTOCOL_VERSION_def MIN_SUPPORTED_VERSION_def)
  moreover have "\<not> MERGED_RESPONSE_SIZE_CAP < saturating_add_usize 0 (saturating_add_usize 0 len)"
    using read(2) by (simp add: MERGED_RESPONSE_SIZE_CAP_def saturating_add_usize_def)
  ultimately show ?thesis
    by (subst fetch_buckets_chunk_bisecting.simps) (simp only: slice toy_post read Let_def prod.case http_result.case sum.case if_False, simp)
qed

lemma toy_fetch: "\<exists>io1. fetch_buckets_in toy_net 4 [toy_key] None 100 False io0 = Some (Inr (merge_reply (merge_reply toy_sn empty_reply) empty_reply), io1)"
proof -
  let ?io = "on_phase (RequestSent 0 (Suc 0) 1) io0"
  obtain len io1 where chunk: "fetch_buckets_chunk_bisecting toy_net 4 [toy_key] None 0 MERGED_RESPONSE_SIZE_CAP 0 1
      (empty_reply, 0, ?io) = (Inr (), merge_reply toy_sn empty_reply, len, io1)"
    using toy_chunk by blast
  show ?thesis unfolding fetch_buckets_in_def fetch_buckets_inner_def
    by (simp add: pull_loop.simps [of toy_net] retry_loop.simps [of toy_net] toy_window fetch_attempt_def chunk Let_def
        del: One_nat_def)
qed


theorem pull_exact_witness:
  "\<exists>m io1. fetch_buckets_in toy_net 4 [toy_key] None 100 False \<lparr>io_world = 0, io_phases = []\<rparr> = Some (Inr m, io1) \<and>
     get_vec (sn_tags m) (to_hex (replicate 32 1)) = get_vec (snapshot toy_crypto toy_store) (to_hex (replicate 32 1)) \<and> sn_cursor m = 1"
proof -
  obtain m io1 where run: "fetch_buckets_in toy_net 4 [toy_key] None 100 False \<lparr>io_world = 0, io_phases = []\<rparr> = Some (Inr m, io1)"
    using toy_fetch by blast
  have bucket: "hex_bucket 4 (to_hex (replicate 32 1)) \<in> set [toy_key]"
    using toy_hash by (simp add: hex_bucket_def hash_from_str_to_hex toy_key_def del: replicate.simps)
  have "(\<forall>h. get_vec (sn_tags m) h = (if hex_bucket 4 h \<in> set [toy_key] then get_vec (snapshot toy_crypto toy_store) h else [])) \<and>
      sn_cursor m = nat (mapping_cursor toy_store)"
    using pull_exact [of toy_state toy_crypto toy_wire None "[toy_key]" 4 "\<lambda>_. None" 100 "\<lparr>io_world = 0, io_phases = []\<rparr>" m io1]
      toy_store_ok toy_hex_ok toy_wire_ok toy_key_ok run by (simp add: toy_cursor)
  then show ?thesis using run bucket by (intro exI [of _ m] exI [of _ io1]) (simp add: toy_cursor)
qed

theorem pull_returns_witness:
  "\<exists>ws err io1. ws \<le> MIN_WINDOW \<and>
     fetch_buckets_inner (repo_net toy_crypto toy_state toy_wire (\<lambda>_. Some (lit ''timed out''))) 4 [toy_key] None 1000 100 False
       \<lparr>io_world = 0, io_phases = []\<rparr> = Some (Inl (FloorExhausted 4 ws 0 1 0 err), io1)"
proof -
  let ?N = "repo_net toy_crypto toy_state toy_wire (\<lambda>_. Some (lit ''timed out''))"
  have "\<forall>r w. \<exists>msg w'. net_post ?N r w = (HttpTransport msg, w')" by (simp add: repo_net_def)
  then show ?thesis
    using conjunct2 [OF pull_returns [of ?N 4 "[toy_key]" None 1000 100 "\<lparr>io_world = 0, io_phases = []\<rparr>"]] by simp
qed

section \<open>A toy stream\<close>

text \<open>The lines left to read; a header and the trailer are single letters.\<close>

definition toy_stream :: "byte list list net" where
  "toy_stream =
     \<lparr>net_post = (\<lambda>r w. (HttpTransport [], w)), net_open = (\<lambda>r w. (HttpOk (), w)),
      net_read = (\<lambda>n w. case w of [] \<Rightarrow> (Inr [], []) | l # w' \<Rightarrow> (Inr l, w')), net_now = (\<lambda>w. 0), net_sleep = (\<lambda>ms w. w),
      json_snapshot = (\<lambda>_. None), json_delta = (\<lambda>_. None),
      json_header = (\<lambda>l. if l = [104] then Some (PROTOCOL_VERSION, 7) else None),
      json_line = (\<lambda>l. if l = [100] then Some (Trailer (Done True)) else None), json_trailer = (\<lambda>_. None), net_lower = (\<lambda>s. s)\<rparr>"

lemma toy_stream_run:
  "\<exists>m io1. fetch_buckets_inner toy_stream 4 [toy_key] None 1000 100 True \<lparr>io_world = [[104, 10], [100, 10]], io_phases = []\<rparr> = Some (Inr m, io1)"
proof -
  have lines: "read_stream_line toy_stream \<lparr>io_world = [[104, 10], [100, 10]], io_phases = ps\<rparr> =
        (Inr (Some ([104], 1)), \<lparr>io_world = [[100, 10]], io_phases = ps\<rparr>)"
      "read_stream_line toy_stream \<lparr>io_world = [[100, 10]], io_phases = ps\<rparr> = (Inr (Some ([100], 1)), \<lparr>io_world = [], io_phases = ps\<rparr>)" for ps
    by (simp_all add: read_stream_line_def toy_stream_def strip_eol_def MAX_STREAM_LINE_BYTES_def utf8_code_def scalar_def Let_def)
  have header: "stream_header toy_stream \<lparr>io_world = [[104, 10], [100, 10]], io_phases = ps\<rparr> = (Inr 7, \<lparr>io_world = [[100, 10]], io_phases = ps\<rparr>)" for ps
    unfolding stream_header_def lines
    by (simp add: toy_stream_def ensure_supported_def PROTOCOL_VERSION_def MIN_SUPPORTED_VERSION_def)
  have rows: "stream_rows toy_stream deadline committed cap merged sc sb rt \<lparr>io_world = [[100, 10]], io_phases = ps\<rparr> =
      Some (Inr RowsDone, sc, sb, rt, \<lparr>io_world = [], io_phases = ps\<rparr>)" for deadline committed cap merged sc sb rt ps
    by (subst stream_rows.simps) (simp add: lines, simp add: toy_stream_def)
  have loop: "stream_loop toy_stream 4 ks None deadline committed cap merged None sc sb rt \<lparr>io_world = [[104, 10], [100, 10]], io_phases = ps\<rparr> =
      Some (Inr (), sc\<lparr>sn_cursor := min (sn_cursor sc) 7\<rparr>, sb, \<lparr>io_world = [], io_phases = ps\<rparr>)" for ks deadline committed cap merged sc sb rt ps
    by (subst stream_loop.simps) (simp add: header rows, simp add: toy_stream_def header [unfolded toy_stream_def] rows [unfolded toy_stream_def])
  show ?thesis unfolding fetch_buckets_inner_def
    by (simp add: pull_loop.simps [of toy_stream] retry_loop.simps [of toy_stream] toy_window fetch_attempt_def
        fetch_buckets_streaming_def on_phase_def loop Let_def del: One_nat_def)
qed


section \<open>A toy incremental pull\<close>

text \<open>The toy store after its only mapping has been deleted by a moderator.\<close>

definition toy_after :: store where
  "toy_after = toy_store\<lparr>repo_mappings := [((1, 1), \<lparr>mr_status = 1, mr_seq = 2, mr_origin = None\<rparr>)]\<rparr>"

definition toy_dead :: joined_row where
  "toy_dead = (replicate 32 1, lit ''a'', \<lparr>mr_status = 1, mr_seq = 2, mr_origin = None\<rparr>)"

lemma toy_after_delete: "fst (moderator_delete_mapping toy_crypto toy_store (to_hex (replicate 32 1)) (lit ''a'')) = toy_after"
  unfolding moderator_delete_mapping_def toy_hash_decode
  by (simp add: toy_cursor, simp add: toy_store_def toy_after_def store_empty_def)

lemma toy_after_step: "mapping_step lc toy_crypto toy_store toy_after"
  using mapping_step.moderate [of lc toy_crypto toy_store "to_hex (replicate 32 1)" "lit ''a''"]
  by (simp only: toy_after_delete)

lemma toy_after_ok: "store_ok toy_after"
  using store_adv_ok [OF mapping_step_adv [OF toy_after_step toy_store_ok]] .

lemma toy_after_joined: "joined toy_after = [toy_dead]"
  by (simp add: joined_def toy_after_def toy_store_def join_row_def key_of_def toy_dead_def List.map_filter_def)

lemma toy_after_cursor: "mapping_cursor toy_after = 2"
  by (simp add: mapping_cursor_def max_seq_def coalesce_max_def toy_after_def)

definition toy_after_state :: repo_state where
  "toy_after_state = toy_state\<lparr>rs_store := toy_after\<rparr>"

lemma toy_after_state_simps [simp]:
  "rs_store toy_after_state = toy_after" "dc_native (rs_domains toy_after_state) = Blake3"
  "rs_bucket_budget toy_after_state = 100000"
  by (simp_all add: toy_after_state_def)

lemma toy_delta_rows: "delta_rows toy_crypto toy_after toy_key (bucket_upper (masked (replicate 32 1) 4) 4) 1 = [toy_dead]"
proof -
  let ?rows = "delta_rows toy_crypto toy_after toy_key (bucket_upper (masked (replicate 32 1) 4) 4) 1"
  have "toy_dead \<in> set ?rows"
    using delta_rows_iff [OF toy_after_ok toy_hex_ok toy_hash, of toy_dead 4 1] parse_masked(4) [OF toy_hash, of 4]
    by (simp add: toy_key_def toy_after_joined) (simp add: toy_dead_def del: replicate.simps lit_Cons)
  moreover have "length ?rows \<le> 1" by (simp add: delta_rows_def toy_after_joined)
  ultimately show ?thesis by (cases ?rows) auto
qed

lemma toy_dead_cost: "total_cost toy_crypto RESPONSE_ENVELOPE_OVERHEAD [toy_dead] \<le> 100000"
  by (simp add: total_cost_def row_cost_def toy_dead_def approx_row_cost_def BUCKET_ROW_OVERHEAD_def toy_crypto_def str_len_to_hex
      origin_cost_def str_len_Cons utf8_width_ascii str_len_def [of "[]"] RESPONSE_ENVELOPE_OVERHEAD_def del: replicate.simps)

abbreviation toy_change :: delta_mapping where
  "toy_change \<equiv> \<lparr>dm_hash = to_hex (replicate 32 1), dm_tag = lit ''a'', dm_status = Deleted, dm_seq = 2, dm_origin = None\<rparr>"

lemma toy_dead_change: "row_change toy_crypto toy_dead = toy_change"
  by (simp add: row_change_def toy_dead_def toy_crypto_def del: replicate.simps lit_Cons)

lemma toy_delta_run:
  "\<exists>spent. bucket_delta toy_crypto toy_after toy_key (bucket_upper (masked (replicate 32 1) 4) 4) 1 100000 = Inr ([toy_change], spent)"
proof -
  have m: "min (int 1) (2 ^ 63 - 1) = 1" by simp
  have "drain toy_crypto 100000 (\<lambda>row out. out @ [row_change toy_crypto row]) RESPONSE_ENVELOPE_OVERHEAD [] [toy_dead] =
      Inr (fold (\<lambda>row out. out @ [row_change toy_crypto row]) [toy_dead] [], total_cost toy_crypto RESPONSE_ENVELOPE_OVERHEAD [toy_dead])"
    by (rule drain_within [OF toy_dead_cost]) simp
  then show ?thesis unfolding delta_drain m toy_delta_rows by (simp only: fold_snoc_map) (simp add: toy_dead_change del: replicate.simps lit_Cons)
qed

abbreviation toy_delta_req :: bucket_request where
  "toy_delta_req \<equiv> bucket_req 4 [toy_key] (Some [1]) None False None"

lemma toy_delta_reply: "buckets_handler toy_crypto toy_after_state toy_delta_req = ReplyDelta PROTOCOL_VERSION 2 [toy_change]"
proof -
  obtain spent where "bucket_delta toy_crypto toy_after toy_key (bucket_upper (masked (replicate 32 1) 4) 4) 1 100000 = Inr ([toy_change], spent)"
    using toy_delta_run by blast
  then have "native_changes toy_crypto toy_after 4 100000 [(toy_key, 1)] [] = Inr [toy_change]"
    by (simp add: toy_key_parse del: replicate.simps lit_Cons)
  moreover have "resolve_domain None (served (rs_domains toy_after_state)) Blake3 = Inr Blake3"
    by (simp add: resolve_domain_def)
  moreover have "min 4 256 = (4 :: nat)" by simp
  ultimately show ?thesis
    by (simp add: buckets_handler_def native_handler_def bucket_req_def toy_key_parse toy_after_cursor Let_def
        ensure_supported_def PROTOCOL_VERSION_def MIN_SUPPORTED_VERSION_def del: replicate.simps lit_Cons)
qed

abbreviation toy_md :: mapping_delta where
  "toy_md \<equiv> \<lparr>md_version = PROTOCOL_VERSION, md_cursor = 2, md_changes = [toy_change]\<rparr>"

abbreviation toy_delta_net :: "nat net" where
  "toy_delta_net \<equiv> repo_net toy_crypto toy_after_state toy_wire (\<lambda>_. None)"

lemma toy_delta_post:
  "net_post toy_delta_net toy_delta_req w = (HttpOk \<lparr>body_bytes = enc_delta toy_wire toy_md, body_fails = False\<rparr>, Suc w)"
  by (simp add: repo_net_def reply_http_def toy_delta_reply del: replicate.simps lit_Cons One_nat_def)

lemma toy_delta_len: "length (enc_delta toy_wire toy_md) \<le> 20000"
  by (simp add: toy_wire_def put_rows_def length_put comp_def rows_of_opt_def PROTOCOL_VERSION_def toy_hex_sum del: replicate.simps)

lemma toy_delta_fetch:
  "\<exists>m io1. fetch_bucket_delta_in toy_delta_net 4 [toy_key] [1] None io0 = (Inr m, io1) \<and> md_changes m = [toy_change]"
proof -
  have dec: "dec_delta toy_wire (enc_delta toy_wire toy_md) = Some toy_md" using toy_wire_ok by (simp add: wire_ok_def)
  obtain len where read: "read_capped_counted (json_delta toy_delta_net) \<lparr>body_bytes = enc_delta toy_wire toy_md, body_fails = False\<rparr>
      RESPONSE_SIZE_CAP = Inr (toy_md, len)" "len \<le> 20000"
    using toy_delta_len dec by (simp add: read_capped_counted_def RESPONSE_SIZE_CAP_def Let_def min_def)
  have slice: "slice_of [toy_key] 0 1 = [toy_key]" "slice_of [1 :: nat] 0 1 = [1]" "(1 \<le> length [1 :: nat]) = True"
    by (simp_all add: slice_of_def)
  have "ensure_supported (md_version toy_md) = Inr ()" by (simp add: ensure_supported_def PROTOCOL_VERSION_def MIN_SUPPORTED_VERSION_def)
  moreover have "\<not> MERGED_RESPONSE_SIZE_CAP < saturating_add_usize 0 len"
    using read(2) by (simp add: MERGED_RESPONSE_SIZE_CAP_def saturating_add_usize_def)
  moreover define init where "init = \<lparr>md_version = PROTOCOL_VERSION, md_cursor = 2 ^ 64 - 1, md_changes = ([] :: delta_mapping list)\<rparr>"
  ultimately have chunk: "\<exists>cum io1. fetch_bucket_delta_chunk_bisecting toy_delta_net 4 [toy_key] [1] None MERGED_RESPONSE_SIZE_CAP 0 1
      (init, 0, io0) =
      (Inr (), init\<lparr>md_cursor := min (md_cursor init) 2, md_changes := md_changes init @ [toy_change]\<rparr>, cum, io1)"
    by (subst fetch_bucket_delta_chunk_bisecting.simps)
      (simp only: slice if_True toy_delta_post read Let_def prod.case http_result.case sum.case if_False, simp)
  have "window_end [toy_key] (Some [1]) 0 BUCKET_REQUEST_BODY_BUDGET usize_MAX = 1"
    using window_end_gt [of 0 "[toy_key]" "Some [1]"] window_end_le [of 0 "[toy_key]" "Some [1]"]
    by (metis One_nat_def le_antisym length_Cons less_eq_Suc_le list.size(3) zero_less_one)
  then have chunks: "bucket_chunks [toy_key] (Some [1]) BUCKET_REQUEST_BODY_BUDGET = [(0, 1)]"
    by (simp add: bucket_chunks_def chunk_loop.simps Let_def)
  show ?thesis
    unfolding fetch_bucket_delta_in_def fetch_bucket_delta_inner_def chunks
    using chunk by (auto simp: init_def)
qed

theorem incremental_pull_exact_witness:
  "\<exists>m io1. fetch_bucket_delta_in toy_delta_net 4 [toy_key] [1] None \<lparr>io_world = 0, io_phases = []\<rparr> = (Inr m, io1) \<and>
     map_of (map change_entry (md_changes m)) (to_hex (replicate 32 1), lit ''a'') = Some (Deleted, None) \<and>
     map_option row_state (cur_row toy_after (replicate 32 1) (lit ''a'')) = Some (Deleted, None) \<and> md_cursor m = 2"
proof -
  obtain m io1 where run: "fetch_bucket_delta_in toy_delta_net 4 [toy_key] [1] None \<lparr>io_world = 0, io_phases = []\<rparr> = (Inr m, io1)"
    "md_changes m = [toy_change]" using toy_delta_fetch by blast
  have bucket: "bucket_key (replicate 32 1) 4 \<in> set [toy_key]" by (simp add: toy_key_def)
  have since: "map (\<lambda>_. nat (mapping_cursor toy_store)) [toy_key] = [1]" by (simp add: toy_cursor)
  have entry: "map_of (map change_entry (md_changes m)) (to_hex (replicate 32 1), lit ''a'') = Some (Deleted, None)"
    by (simp add: run(2) change_entry_def del: replicate.simps lit_Cons)
  have "(\<forall>h t. hash_ok h \<and> bucket_key h 4 \<in> set [toy_key] \<longrightarrow>
      map_option row_state (cur_row (rs_store toy_after_state) h t) =
      (case map_of (map change_entry (md_changes m)) (to_hex h, t) of
         Some v \<Rightarrow> Some v | None \<Rightarrow> map_option row_state (cur_row toy_store h t))) \<and>
    md_cursor m = nat (mapping_cursor (rs_store toy_after_state))"
    by (rule incremental_pull_exact [OF toy_store_ok, of "\<lambda>s. s" toy_crypto toy_after_state toy_wire None "[toy_key]" 4 "\<lambda>_. None", unfolded since])
      (use toy_after_step toy_hex_ok toy_wire_ok toy_key_ok run(1) in \<open>simp_all add: r_into_rtranclp toy_after_cursor del: replicate.simps\<close>)
  then show ?thesis using run(1) bucket entry toy_hash
    by (intro exI [of _ m] exI [of _ io1]) (simp add: toy_after_cursor del: replicate.simps lit_Cons)
qed

end
