(* ===== verification/DaemonSync.thy ===== *)
theory DaemonSync
  imports DaemonPull DbDelta ServerPull
begin

text \<open>
  Client and repository together: what a pull of \<open>DaemonPull\<close> over \<open>repo_net\<close>, the unreliable network in
  front of the handler of \<open>ServerBuckets\<close>, makes of the library.  A library is in sync with a store when the
  BLAKE3 domain supplies, for every file the last pull covered, exactly the tags whose present row on the
  store is current.
\<close>

section \<open>What a repository claims\<close>

definition claims :: "(ustring \<Rightarrow> ustring) \<Rightarrow> store \<Rightarrow> hash \<Rightarrow> tag \<Rightarrow> bool" where
  "claims lc s h T \<longleftrightarrow> (\<exists>t r. cur_row s h t = Some r \<and> tag_parse lc t = Inr T \<and> mr_status r \<noteq> 1)"

text \<open>No two tag strings with rows read as the same tag.  Signed submissions are normalised and have this.\<close>

definition one_spelling :: "(ustring \<Rightarrow> ustring) \<Rightarrow> store \<Rightarrow> bool" where
  "one_spelling lc s \<longleftrightarrow> (\<forall>t t' T. t \<in> fst ` set (repo_tags s) \<longrightarrow> t' \<in> fst ` set (repo_tags s) \<longrightarrow>
     tag_parse lc t = Inr T \<longrightarrow> tag_parse lc t' = Inr T \<longrightarrow> t' = t)"

lemma one_spellingD:
  assumes "one_spelling lc s" "cur_row s h t = Some r" "cur_row s h' t' = Some r'" "tag_parse lc t = Inr T" "tag_parse lc t' = Inr T"
  shows "t' = t"
proof -
  have "t \<in> fst ` set (repo_tags s)" "t' \<in> fst ` set (repo_tags s)"
    using assms(2,3) by (auto simp: cur_row_key dest!: map_of_SomeD intro: rev_image_eqI)
  then show ?thesis using assms(1,4,5) unfolding one_spelling_def by blast
qed

lemma claims_row:
  assumes "one_spelling lc s" "cur_row s h t = Some r" "tag_parse lc t = Inr T"
  shows "claims lc s h T \<longleftrightarrow> mr_status r \<noteq> 1"
  using assms one_spellingD [OF assms(1,2) _ assms(3)] unfolding claims_def by (metis option.inject)

lemma row_hash: "store_ok s \<Longrightarrow> cur_row s h t = Some r \<Longrightarrow> hash_ok h"
  using row_hash_ok [of s "(h, t, r)"] by (simp add: joined_iff)

lemma row_seq_pos: "store_ok s \<Longrightarrow> cur_row s h t = Some r \<Longrightarrow> 0 < mr_seq r"
  by (auto simp: store_ok_def seqs_pos_def cur_row_key)

section \<open>Libraries in sync\<close>

definition library_ok :: "client_db \<Rightarrow> bool" where
  "library_ok db \<longleftrightarrow> db_ok db \<and> (\<forall>(i, f)\<in>set (c_files db). \<exists>h. hash_ok h \<and> df_blake3 f = to_hex h)"

text \<open>What other threads may do while a request is under way: import files.\<close>

definition imported :: "int \<Rightarrow> client_db \<Rightarrow> client_db \<Rightarrow> bool" where
  "imported svc db db1 \<longleftrightarrow> library_ok db1 \<and> (\<exists>new. c_files db1 = c_files db @ new \<and> (\<forall>(i, f)\<in>set new. max_file_id db < i)) \<and>
     (\<forall>f t. rows db1 (f, t, svc) = rows db (f, t, svc)) \<and> c_pull db1 = c_pull db"

definition in_sync :: "(ustring \<Rightarrow> ustring) \<Rightarrow> int \<Rightarrow> client_db \<Rightarrow> store \<Rightarrow> bool" where
  "in_sync lc svc db s \<longleftrightarrow>
     (case map_of (c_pull db) (svc, domain_as_str Blake3) of
        None \<Rightarrow> True
      | Some ps \<Rightarrow> ps_cursor ps = Some (mapping_cursor s) \<and>
          (\<exists>m. ps_marker ps = Some m \<and>
             (\<forall>f h T. file_id_by_hash db h = Some f \<longrightarrow> f \<le> m \<longrightarrow> (supplies db svc DOMAIN_BIT_BLAKE3 f T \<longleftrightarrow> claims lc s h T))))"

lemma file_hash_ok:
  assumes "library_ok db" "file_id_by_hash db h = Some f"
  shows "hash_ok h"
proof -
  obtain r where "(f, r) \<in> set (c_files db)" "df_blake3 r = to_hex h"
    using assms by (auto simp: library_ok_def file_id_by_hash_iff)
  then show ?thesis using assms(1) by (auto simp: library_ok_def)
qed

lemma file_le_max: "db_ok db \<Longrightarrow> file_id_by_hash db h = Some f \<Longrightarrow> f \<le> max_file_id db"
  by (auto simp: file_id_by_hash_iff max_file_id_def coalesce_max_def intro!: Max_ge rev_image_eqI)

lemma imported_file:
  assumes "library_ok db" "imported svc db db1"
  shows "file_id_by_hash db1 h = Some f \<and> f \<le> max_file_id db \<longleftrightarrow> file_id_by_hash db h = Some f"
proof -
  have ok: "db_ok db" "db_ok db1" using assms by (simp_all add: library_ok_def imported_def)
  obtain new where new: "c_files db1 = c_files db @ new" "\<forall>(i, f)\<in>set new. max_file_id db < i" using assms(2) by (auto simp: imported_def)
  show ?thesis using new file_le_max [OF ok(1)] by (auto simp: file_id_by_hash_iff [OF ok(1)] file_id_by_hash_iff [OF ok(2)])
qed

section \<open>What a fetch brings\<close>

definition delta_of_keys :: "crypto \<Rightarrow> repo_state \<Rightarrow> nat \<Rightarrow> ustring list \<Rightarrow> (ustring \<Rightarrow> nat) \<Rightarrow> mapping_delta \<Rightarrow> bool" where
  "delta_of_keys C st bits keys g md \<longleftrightarrow>
     set (md_changes md) = (\<Union>b\<in>set keys. set (native_ans C st bits b (g b))) \<and> md_cursor md = nat (mapping_cursor (rs_store st))"

definition masked_keys :: "nat \<Rightarrow> ustring list \<Rightarrow> bool" where
  "masked_keys bits keys \<longleftrightarrow> (\<forall>b\<in>set keys. \<exists>lo. hash_ok lo \<and> b = bucket_key lo bits)"

lemma input_of_change:
  assumes "hex_ok C" "hash_ok h"
  shows "delta_input_of lc (row_change C (h, t, r)) =
    (case tag_parse lc t of Inl _ \<Rightarrow> None
     | Inr T \<Rightarrow> Some \<lparr>di_hash = h, di_tag = T, di_status = (if mr_status r = 1 then Deleted else Current), di_seq = mr_seq r, di_origin = mr_origin r\<rparr>)"
  using assms by (simp add: delta_input_of_def row_change_def hex_ok_def hash_from_str_to_hex split: sum.split)

lemma input_mem:
  assumes "store_ok (rs_store st)" "hex_ok C" "masked_keys bits keys" "delta_of_keys C st bits keys g md" "\<And>b. g b < 2 ^ 63"
    "c \<in> set (mapping_delta_inputs lc (md_changes md))"
  obtains h t r where "cur_row (rs_store st) h t = Some r" "tag_parse lc t = Inr (di_tag c)" "di_hash c = h"
    "di_status c = (if mr_status r = 1 then Deleted else Current)" "int (g (bucket_key h bits)) < mr_seq r"
proof -
  obtain x where x: "x \<in> set (md_changes md)" "delta_input_of lc x = Some c"
    using assms(6) by (auto simp: mapping_delta_inputs_def map_filter_mem)
  then obtain b where b: "b \<in> set keys" "x \<in> set (native_ans C st bits b (g b))" using assms(4) by (auto simp: delta_of_keys_def)
  then obtain lo where lo: "hash_ok lo" "b = bucket_key lo bits" using assms(3) by (auto simp: masked_keys_def)
  obtain h t r where r: "x = row_change C (h, t, r)" "bucket_key h bits = b" "cur_row (rs_store st) h t = Some r" "int (g b) < mr_seq r"
    using native_ans_iff [OF assms(1,2) lo(1) assms(5), of x bits] b(2) unfolding lo(2) by blast
  show thesis
    using that [OF r(3)] x(2) r(2,4) unfolding r(1) input_of_change [OF assms(2) row_hash [OF assms(1) r(3)]]
    by (auto split: sum.splits)
qed

lemma input_made:
  assumes "store_ok (rs_store st)" "hex_ok C" "masked_keys bits keys" "delta_of_keys C st bits keys g md" "\<And>b. g b < 2 ^ 63"
    "cur_row (rs_store st) h t = Some r" "tag_parse lc t = Inr T" "bucket_key h bits \<in> set keys" "int (g (bucket_key h bits)) < mr_seq r"
  shows "\<lparr>di_hash = h, di_tag = T, di_status = (if mr_status r = 1 then Deleted else Current), di_seq = mr_seq r, di_origin = mr_origin r\<rparr>
    \<in> set (mapping_delta_inputs lc (md_changes md))"
proof -
  have h: "hash_ok h" by (rule row_hash [OF assms(1,6)])
  have "row_change C (h, t, r) \<in> set (native_ans C st bits (bucket_key h bits) (g (bucket_key h bits)))"
    using native_ans_iff [OF assms(1,2) h assms(5)] assms(6,9) by blast
  then have "row_change C (h, t, r) \<in> set (md_changes md)" using assms(4,8) by (auto simp: delta_of_keys_def)
  moreover have "delta_input_of lc (row_change C (h, t, r)) =
      Some \<lparr>di_hash = h, di_tag = T, di_status = (if mr_status r = 1 then Deleted else Current), di_seq = mr_seq r, di_origin = mr_origin r\<rparr>"
    unfolding input_of_change [OF assms(2) h] using assms(7) by simp
  ultimately show ?thesis by (auto simp: mapping_delta_inputs_def map_filter_mem)
qed

text \<open>What the changes say last about a tag of an owned file is what its present row says, if the row is newer than the cursor of its bucket.\<close>

lemma last_change_fetched:
  assumes "store_ok (rs_store st)" "hex_ok C" "masked_keys bits keys" "delta_of_keys C st bits keys g md" "\<And>b. g b < 2 ^ 63"
    "one_spelling lc (rs_store st)" "db_ok db" "file_id_by_hash db h = Some f" "bucket_key h bits \<in> set keys"
  shows "cur_row (rs_store st) h t = Some r \<Longrightarrow> tag_parse lc t = Inr T \<Longrightarrow>
      last_change db (mapping_delta_inputs lc (md_changes md)) (f, T) =
      (if int (g (bucket_key h bits)) < mr_seq r then Some (if mr_status r = 1 then Deleted else Current) else None)"
    and "\<nexists>t r. cur_row (rs_store st) h t = Some r \<and> tag_parse lc t = Inr T \<Longrightarrow>
      last_change db (mapping_delta_inputs lc (md_changes md)) (f, T) = None"
proof -
  let ?in = "mapping_delta_inputs lc (md_changes md)"
  have pair: "\<exists>t r. cur_row (rs_store st) h t = Some r \<and> tag_parse lc t = Inr T \<and>
      snd e = (if mr_status r = 1 then Deleted else Current) \<and> int (g (bucket_key h bits)) < mr_seq r"
    if e: "e \<in> set (rev (change_pairs db ?in))" "fst e = (f, T)" for e
  proof -
    obtain c where c: "c \<in> set ?in" "file_id_by_hash db (di_hash c) = Some f" "di_tag c = T" "snd e = di_status c"
      using e unfolding set_rev change_pairs_def map_filter_mem by auto
    obtain h' t r where r: "cur_row (rs_store st) h' t = Some r" "tag_parse lc t = Inr (di_tag c)" "di_hash c = h'"
        "di_status c = (if mr_status r = 1 then Deleted else Current)" "int (g (bucket_key h' bits)) < mr_seq r"
      by (rule input_mem [OF assms(1-5) c(1)])
    have "h' = h" using file_id_by_hash_inj [OF assms(7,8)] c(2) r(3) by blast
    then show ?thesis using r c(3,4) by auto
  qed
  show "last_change db ?in (f, T) = None" if "\<nexists>t r. cur_row (rs_store st) h t = Some r \<and> tag_parse lc t = Inr T"
    using pair that unfolding last_change_def by (force simp: map_of_eq_None_iff simp del: set_rev rev_map)
  show "last_change db ?in (f, T) = (if int (g (bucket_key h bits)) < mr_seq r then Some (if mr_status r = 1 then Deleted else Current) else None)"
    if t: "cur_row (rs_store st) h t = Some r" "tag_parse lc t = Inr T"
  proof -
    let ?v = "if mr_status r = 1 then Deleted else Current"
    have eq: "snd e = ?v \<and> int (g (bucket_key h bits)) < mr_seq r" if e: "e \<in> set (rev (change_pairs db ?in))" "fst e = (f, T)" for e
    proof -
      obtain t' r' where r': "cur_row (rs_store st) h t' = Some r'" "tag_parse lc t' = Inr T"
          "snd e = (if mr_status r' = 1 then Deleted else Current)" "int (g (bucket_key h bits)) < mr_seq r'"
        using pair [OF e] by blast
      then have "t' = t" using one_spellingD [OF assms(6) t(1) r'(1) t(2)] by blast
      then show ?thesis using r' t(1) by simp
    qed
    have "last_change db ?in (f, T) = (if (f, T) \<in> fst ` set (rev (change_pairs db ?in)) then Some ?v else None)"
      unfolding last_change_def by (rule map_of_determined) (use eq in blast)
    moreover have "(f, T) \<in> fst ` set (rev (change_pairs db ?in)) \<longleftrightarrow> int (g (bucket_key h bits)) < mr_seq r"
    proof
      assume "(f, T) \<in> fst ` set (rev (change_pairs db ?in))"
      then show "int (g (bucket_key h bits)) < mr_seq r" using eq by (metis imageE)
    next
      assume "int (g (bucket_key h bits)) < mr_seq r"
      from input_made [OF assms(1-5) t assms(9) this] assms(8)
      have "((f, T), ?v) \<in> set (change_pairs db ?in)" by (force simp: change_pairs_def map_filter_mem)
      then show "(f, T) \<in> fst ` set (rev (change_pairs db ?in))" by (force simp: image_iff)
    qed
    ultimately show ?thesis by simp
  qed
qed

text \<open>The buckets pulled in full are those asked for from zero.\<close>

lemma full_ranges_iff:
  assumes "masked_keys bits keys" "db_ok db" "file_id_by_hash db h = Some f" "hash_ok h" "bucket_key h bits \<in> set keys"
  shows "(\<exists>(lo, hi)\<in>set (full_ranges bits keys (map g keys)). in_bucket db (domain_as_str Blake3) lo hi f) \<longleftrightarrow> g (bucket_key h bits) = 0"
proof -
  have blake: "domain_as_str Blake3 \<noteq> lit ''sha256''" by simp
  obtain r where r: "(f, r) \<in> set (c_files db)" "df_blake3 r = to_hex h" using assms(3) file_id_by_hash_iff [OF assms(2)] by blast
  have one: "r' = r" if "(f, r') \<in> set (c_files db)" for r' using r(1) that db_okD(5) [OF assms(2)] by (meson eq_key_imp_eq_value)
  have inb: "in_bucket db (domain_as_str Blake3) lo hi f \<longleftrightarrow> lo \<le> to_hex h \<and> to_hex h < hi" for lo hi
  proof -
    have "in_bucket db (domain_as_str Blake3) lo hi f \<longleftrightarrow>
        (\<exists>r'. (f, r') \<in> set (c_files db) \<and> lo \<le> df_blake3 r' \<and> df_blake3 r' < hi)"
      unfolding in_bucket_def if_not_P [OF blake] list_ex_iff option.case by auto
    then show ?thesis using r one by metis
  qed
  have ranges: "(lo, hi) \<in> set (full_ranges bits keys (map g keys)) \<longleftrightarrow>
      (\<exists>l. hash_ok l \<and> bucket_key l bits \<in> set keys \<and> g (bucket_key l bits) = 0 \<and> lo = bucket_key l bits \<and> hi = bucket_upper l bits)" for lo hi
  proof -
    have "(lo, hi) \<in> set (full_ranges bits keys (map g keys)) \<longleftrightarrow>
        (\<exists>k\<in>set keys. g k = 0 \<and> map_option (\<lambda>l. (bucket_key l bits, bucket_upper l bits)) (result_ok (hash_from_str k)) = Some (lo, hi))"
      by (auto simp: full_ranges_def map_filter_mem zip_map2 zip_same_conv_map split: if_splits)
    also have "\<dots> \<longleftrightarrow> (\<exists>l. hash_ok l \<and> bucket_key l bits \<in> set keys \<and> g (bucket_key l bits) = 0 \<and> lo = bucket_key l bits \<and> hi = bucket_upper l bits)"
      (is "?a \<longleftrightarrow> ?b")
    proof
      assume ?a
      then obtain k where k: "k \<in> set keys" "g k = 0"
        "map_option (\<lambda>l. (bucket_key l bits, bucket_upper l bits)) (result_ok (hash_from_str k)) = Some (lo, hi)" by blast
      then obtain l where "hash_ok l" "k = bucket_key l bits" using assms(1) by (auto simp: masked_keys_def)
      then show ?b using k parse_masked [of l bits] by auto
    next
      assume ?b
      then show ?a using parse_masked by fastforce
    qed
    finally show ?thesis .
  qed
  show ?thesis
  proof
    assume "\<exists>(lo, hi)\<in>set (full_ranges bits keys (map g keys)). in_bucket db (domain_as_str Blake3) lo hi f"
    then obtain lo hi where "(lo, hi) \<in> set (full_ranges bits keys (map g keys))" "lo \<le> to_hex h \<and> to_hex h < hi"
      unfolding inb by blast
    then show "g (bucket_key h bits) = 0" using ranges key_range [OF _ assms(4)] by metis
  next
    assume "g (bucket_key h bits) = 0"
    then have "(bucket_key h bits, bucket_upper h bits) \<in> set (full_ranges bits keys (map g keys))" using ranges assms(4,5) by blast
    moreover have "bucket_key h bits \<le> to_hex h \<and> to_hex h < bucket_upper h bits" using key_range [OF assms(4,4)] by simp
    ultimately show "\<exists>(lo, hi)\<in>set (full_ranges bits keys (map g keys)). in_bucket db (domain_as_str Blake3) lo hi f"
      unfolding inb by blast
  qed
qed

text \<open>
  The merge of a fetch.  A bucket is asked for either from zero, or from the cursor of a store \<open>s\<close> that has
  since become the present one, and then the library knew what \<open>s\<close> claims about the file.
\<close>

lemma merge_fetched_sync:
  assumes st: "store_ok (rs_store st)" "hex_ok C" "one_spelling lc (rs_store st)"
    and keys: "masked_keys bits (dp_keys p)" "delta_of_keys C st bits (dp_keys p) g md" "\<And>b. g b < 2 ^ 63" "dp_sha_map p = None"
    and db: "db_ok db" "file_id_by_hash db h = Some f" "hash_ok h" "bucket_key h bits \<in> set (dp_keys p)"
    and known: "g (bucket_key h bits) \<noteq> 0 \<Longrightarrow> store_ok s \<and> store_adv s (rs_store st) \<and> int (g (bucket_key h bits)) = mapping_cursor s \<and>
      (supplies db svc DOMAIN_BIT_BLAKE3 f T \<longleftrightarrow> claims lc s h T)"
    and run: "merge_fetched lc now svc Blake3 bits p md (map g (dp_keys p)) db = (db', stats)"
  shows "supplies db' svc DOMAIN_BIT_BLAKE3 f T \<longleftrightarrow> claims lc (rs_store st) h T"
proof -
  let ?b = "bucket_key h bits" and ?in = "mapping_delta_inputs lc (md_changes md)"
  have bit: "domain_bit (domain_as_str Blake3) = DOMAIN_BIT_BLAKE3" by (simp add: domain_bit_def)
  have run': "merge_mapping_delta db now svc (domain_as_str Blake3) ?in (full_ranges bits (dp_keys p) (map g (dp_keys p)))
      (md_cursor md) (dp_current p) = (db', stats)"
    using run keys(4) by (simp add: merge_fetched_def)
  obtain db1 where step: "domain_step svc (domain_bit (domain_as_str Blake3)) (\<lambda>q s. apply_last (last_change db ?in q)
      (s \<and> \<not> (\<exists>(lo, hi)\<in>set (full_ranges bits (dp_keys p) (map g (dp_keys p))). in_bucket db (domain_as_str Blake3) lo hi (fst q)))) db db1"
    and db': "db' = set_mapping_pull_state db1 svc (domain_as_str Blake3) (md_cursor md) (dp_current p)"
    using delta_merge_step [OF db(1) run'] by blast
  have "supplies db' = supplies db1" by (rule supplies_rows) (simp add: db')
  have res: "supplies db' svc DOMAIN_BIT_BLAKE3 f T \<longleftrightarrow>
      apply_last (last_change db ?in (f, T)) (supplies db svc DOMAIN_BIT_BLAKE3 f T \<and> g ?b \<noteq> 0)"
  proof -
    have "supplies db1 svc (domain_bit (domain_as_str Blake3)) f T \<longleftrightarrow> apply_last (last_change db ?in (f, T))
        (supplies db svc (domain_bit (domain_as_str Blake3)) f T \<and>
         \<not> (\<exists>(lo, hi)\<in>set (full_ranges bits (dp_keys p) (map g (dp_keys p))). in_bucket db (domain_as_str Blake3) lo hi (fst (f, T))))"
      using step unfolding domain_step_def by blast
    then show ?thesis unfolding fst_conv full_ranges_iff [OF keys(1) db] bit \<open>supplies db' = supplies db1\<close> .
  qed
  note last = last_change_fetched [OF st(1,2) keys(1-3) st(3) db(1,2,4)]
  show ?thesis
  proof (cases "\<exists>t r. cur_row (rs_store st) h t = Some r \<and> tag_parse lc t = Inr T")
    case False
    then have none: "\<not> claims lc (rs_store st) h T" unfolding claims_def by blast
    have "\<not> claims lc s h T" if "g ?b \<noteq> 0"
    proof
      assume "claims lc s h T"
      then obtain t r where "cur_row s h t = Some r" "tag_parse lc t = Inr T" by (auto simp: claims_def)
      then show False using False cur_row_adv known [OF that] by metis
    qed
    then show ?thesis using res last(2) [OF False] none known by (auto simp: apply_last_def)
  next
    case True
    then obtain t r where t: "cur_row (rs_store st) h t = Some r" "tag_parse lc t = Inr T" by blast
    note now = claims_row [OF st(3) t] and ch = last(1) [OF t]
    show ?thesis
    proof (cases "int (g ?b) < mr_seq r")
      case True
      then show ?thesis using res ch now by (simp add: apply_last_def)
    next
      case False
      then have k: "g ?b \<noteq> 0" using row_seq_pos [OF st(1) t(1)] by auto
      then have old: "store_ok s" "store_adv s (rs_store st)" "mr_seq r \<le> mapping_cursor s" using known False by auto
      have "cur_row s h t = Some r" by (rule cur_row_old [OF old(1,2) t(1) old(3)])
      then have "claims lc s h T" if "mr_status r \<noteq> 1" using that t(2) by (auto simp: claims_def)
      moreover have "mr_status r \<noteq> 1" if old_claim: "claims lc s h T"
      proof -
        obtain t' r' where r': "cur_row s h t' = Some r'" "tag_parse lc t' = Inr T" "mr_status r' \<noteq> 1"
          using old_claim unfolding claims_def by blast
        obtain r2 where "cur_row (rs_store st) h t' = Some r2" by (rule cur_row_adv [OF old(1,2) r'(1)])
        then have "t' = t" using one_spellingD [OF st(3) t(1) _ t(2) r'(2)] by blast
        then show ?thesis using r' \<open>cur_row s h t = Some r\<close> by simp
      qed
      ultimately show ?thesis using res ch now False k known by (auto simp: apply_last_def)
    qed
  qed
qed

section \<open>The plan of a pull\<close>

lemma parse_all_hashes:
  "parse_all xs = Inr hs \<Longrightarrow> \<forall>x\<in>set xs. \<exists>h. hash_ok h \<and> x = to_hex h \<Longrightarrow> (\<forall>h\<in>set hs. hash_ok h) \<and> (\<forall>h. hash_ok h \<longrightarrow> to_hex h \<in> set xs \<longrightarrow> h \<in> set hs)"
proof (induction xs arbitrary: hs)
  case (Cons x xs)
  obtain h where h: "hash_ok h" "x = to_hex h" using Cons.prems(2) by auto
  then obtain hs' where "parse_all xs = Inr hs'" "hs = h # hs'"
    using Cons.prems(1) by (auto simp: hash_from_str_to_hex and_then_Inr_iff)
  then show ?case using Cons.IH [of hs'] Cons.prems(2) h by auto
qed simp

lemma set_sort_dedup [simp]: "set (sort_dedup xs) = set xs"
  by (simp add: sort_dedup_def)

definition files_of :: "client_db \<Rightarrow> (int \<Rightarrow> bool) \<Rightarrow> ustring list" where
  "files_of db P = map (\<lambda>(i, f). df_blake3 f) (filter (\<lambda>(i, f). P i) (c_files db))"

lemma parse_files:
  assumes "library_ok db" "parse_all (files_of db P) = Inr hs"
  shows "masked_keys bits (map (\<lambda>h. bucket_key h bits) hs)"
    and "file_id_by_hash db h = Some f \<Longrightarrow> P f \<Longrightarrow> bucket_key h bits \<in> set (map (\<lambda>h. bucket_key h bits) hs)"
proof -
  have hex: "\<forall>x\<in>set (files_of db P). \<exists>h. hash_ok h \<and> x = to_hex h"
    using assms(1) by (auto simp: files_of_def library_ok_def)
  note all = parse_all_hashes [OF assms(2) hex]
  show "masked_keys bits (map (\<lambda>h. bucket_key h bits) hs)" using all by (auto simp: masked_keys_def)
  show "bucket_key h bits \<in> set (map (\<lambda>h. bucket_key h bits) hs)" if f: "file_id_by_hash db h = Some f" "P f"
  proof -
    have "db_ok db" using assms(1) by (simp add: library_ok_def)
    then obtain r where "(f, r) \<in> set (c_files db)" "df_blake3 r = to_hex h" using f(1) file_id_by_hash_iff by blast
    then have "to_hex h \<in> set (files_of db P)" using f(2) by (force simp: files_of_def)
    then show ?thesis using all file_hash_ok [OF assms(1) f(1)] by simp
  qed
qed

lemma plan_blake3:
  assumes "library_ok db" "plan_delta lc svc Blake3 bits db = Inr p"
  shows "masked_keys bits (dp_keys p)" "dp_sha_map p = None" "dp_current p = max_file_id db"
    and "dp_cursor p = mapping_cursor_of db svc (domain_as_str Blake3)" "dp_marker p = last_pull_file_marker db svc (domain_as_str Blake3)"
    and "file_id_by_hash db h = Some f \<Longrightarrow> bucket_key h bits \<in> set (dp_keys p)"
    and "file_id_by_hash db h = Some f \<Longrightarrow> dp_marker p = Some m \<Longrightarrow> m < f \<Longrightarrow> bucket_key h bits \<in> set (dp_new_keys p)"
proof -
  let ?m = "case last_pull_file_marker db svc (domain_as_str Blake3) of None \<Rightarrow> 0 | Some m \<Rightarrow> m"
  obtain owned new where runs: "parse_all (files_of db (\<lambda>_. True)) = Inr owned" "parse_all (files_of db (\<lambda>i. ?m < i)) = Inr new"
    and p: "p = \<lparr>dp_keys = key_list owned bits, dp_sha_map = None, dp_cursor = mapping_cursor_of db svc (domain_as_str Blake3),
      dp_marker = last_pull_file_marker db svc (domain_as_str Blake3), dp_current = max_file_id db,
      dp_new_keys = sort_dedup (map (\<lambda>h. bucket_key h bits) new)\<rparr>"
    using assms(2) by (auto simp: plan_delta_def owned_hashes_def owned_bucket_keys_after_file_id_def files_of_def and_then_Inr_iff
        Let_def simp del: domain_as_str.simps)
  note owned = parse_files [OF assms(1) runs(1)] and new = parse_files [OF assms(1) runs(2)]
  show "masked_keys bits (dp_keys p)" using owned(1) by (simp add: p key_list_def masked_keys_def)
  show "dp_sha_map p = None" "dp_current p = max_file_id db" "dp_cursor p = mapping_cursor_of db svc (domain_as_str Blake3)"
    "dp_marker p = last_pull_file_marker db svc (domain_as_str Blake3)" by (simp_all add: p)
  show "bucket_key h bits \<in> set (dp_keys p)" if "file_id_by_hash db h = Some f"
    using owned(2) [OF that TrueI] by (simp add: p key_list_def)
  show "bucket_key h bits \<in> set (dp_new_keys p)" if "file_id_by_hash db h = Some f" "dp_marker p = Some m" "m < f"
    using new(2) [OF that(1)] that(2,3) by (simp add: p)
qed

text \<open>Every fetch of a plan is a fetch from a cursor given key by key.\<close>

definition since_of :: "delta_plan \<Rightarrow> ustring \<Rightarrow> nat" where
  "since_of p k = (if dp_marker p = None \<or> k \<in> set (dp_new_keys p) then 0
     else nat (max 0 (case dp_cursor p of None \<Rightarrow> 0 | Some c \<Rightarrow> c)))"

lemma since_vector_of: "since_vector p = map (since_of p) (dp_keys p)"
  by (auto simp: since_vector_def since_of_def Let_def)

lemma fetch_delta_repo:
  assumes "store_ok (rs_store st)" "hex_ok C" "wire_ok W" "d \<in> {None, Some (dc_native (rs_domains st))}" "masked_keys bits keys"
    "mapping_cursor (rs_store st) < 2 ^ 63"
    "fetch_bucket_delta_in (repo_net C st W faults) bits keys (map g keys) d io0 = (Inr md, io1)"
  shows "delta_of_keys C st bits keys g md"
proof -
  have req: "\<forall>ks s. set ks \<subseteq> set keys \<longrightarrow> native_request C st W bits (bucket_req bits ks (Some s) d False None)"
    using request_native [OF assms(1-4)] assms(5) unfolding masked_keys_def by blast
  have c: "nat (mapping_cursor (rs_store st)) \<le> 2 ^ 64 - 1" using assms(6) by simp
  note exact = repo_delta.delta_exact [OF assms(7) [unfolded fetch_bucket_delta_in_def] _ c req, simplified]
  have "zip keys (map g keys) = map (\<lambda>k. (k, g k)) keys" by (simp add: zip_map2 zip_same_conv_map)
  then show ?thesis using exact by (auto simp: delta_of_keys_def)
qed

lemma fetch_guarded_repo:
  assumes "store_ok (rs_store st)" "hex_ok C" "wire_ok W" "d \<in> {None, Some (dc_native (rs_domains st))}" "masked_keys bits (dp_keys p)"
    "mapping_cursor (rs_store st) < 2 ^ 63" "fetch_guarded (repo_net C st W faults) bits p d io0 = (Inr (md, since), io1)"
  shows "\<exists>g. since = map g (dp_keys p) \<and> delta_of_keys C st bits (dp_keys p) g md \<and>
    (g = (\<lambda>_. 0) \<or> g = since_of p \<and> \<not> went_backwards p (nat (mapping_cursor (rs_store st))))"
proof -
  obtain md0 io2 where one: "fetch_bucket_delta_in (repo_net C st W faults) bits (dp_keys p) (map (since_of p) (dp_keys p)) d io0 = (Inr md0, io2)"
    using assms(7) by (auto simp: fetch_guarded_def since_vector_of Let_def split: prod.splits sum.splits if_splits)
  note first = fetch_delta_repo [OF assms(1-6) one]
  have cur: "md_cursor md0 = nat (mapping_cursor (rs_store st))" using first by (simp add: delta_of_keys_def)
  show ?thesis
  proof (cases "went_backwards p (md_cursor md0)")
    case False
    then show ?thesis using assms(7) first cur by (auto simp: fetch_guarded_def since_vector_of one Let_def)
  next
    case True
    have zeros: "map (\<lambda>_. 0) (map (since_of p) (dp_keys p)) = map (\<lambda>_. 0) (dp_keys p)" by simp
    have two: "fetch_bucket_delta_in (repo_net C st W faults) bits (dp_keys p) (map (\<lambda>_. 0) (dp_keys p)) d io2 = (Inr md, io1)"
      and since: "since = map (\<lambda>_. 0) (dp_keys p)"
      using assms(7) True unfolding fetch_guarded_def since_vector_of Let_def one zeros by (auto split: prod.splits sum.splits)
    show ?thesis using fetch_delta_repo [OF assms(1-6) two] since by blast
  qed
qed

section \<open>The incremental pull keeps the library in sync\<close>

lemma mapping_cursor_nonneg: "store_ok s \<Longrightarrow> 0 \<le> mapping_cursor s"
  using max_seq_nonneg [of mr_seq "repo_mappings s"] by (simp add: mapping_cursor_def store_ok_def)

lemma wire_domain_native: "wire_domain caps d \<in> {None, Some d}"
  by (simp add: wire_domain_def)

lemma cursor_i64_nat: "0 \<le> c \<Longrightarrow> c < 2 ^ 63 \<Longrightarrow> cursor_i64 (nat c) = c"
  by (simp add: cursor_i64_def)

lemma merge_fetched_state:
  assumes "db_ok db" "merge_fetched lc now svc d bits p md since db = (db', stats)"
  shows "db_ok db'" "c_files db' = c_files db"
    "c_pull db' = AList.update (svc, domain_as_str d) \<lparr>ps_cursor = Some (cursor_i64 (md_cursor md)), ps_marker = Some (dp_current p)\<rparr> (c_pull db)"
proof -
  obtain G db1 where step: "domain_step svc (domain_bit (domain_as_str d)) G db db1"
    and db': "db' = set_mapping_pull_state db1 svc (domain_as_str d) (md_cursor md) (dp_current p)"
    using delta_merge_step [OF assms(1) assms(2) [unfolded merge_fetched_def Let_def]] by blast
  note ok = domain_step_ok [OF step]
  show "db_ok db'" using ok by (simp add: db')
  show "c_files db' = c_files db"
    "c_pull db' = AList.update (svc, domain_as_str d) \<lparr>ps_cursor = Some (cursor_i64 (md_cursor md)), ps_marker = Some (dp_current p)\<rparr> (c_pull db)"
    using same_library_fields [OF conjunct2 [OF ok]] by (simp_all add: db')
qed

lemma imported_supplies: "imported svc db db1 \<Longrightarrow> supplies db1 svc b f T = supplies db svc b f T"
  by (simp add: imported_def supplies_def)

text \<open>
  C1. The incremental pull of the BLAKE3 domain.  A library is in sync with a store \<open>s\<close> of the repository, which
  has since gone through any run of submissions, seeds, bulk writes, moderator deletions and replays, or has been
  rebuilt with a smaller cursor.  Files may be imported while the pull is under way.  If the pull succeeds, over
  whatever failed and bisected requests, the library is in sync with the present store: the domain supplies for
  every file that was owned when the pull began exactly the tags the repository now claims for it, and the cursor
  and the file marker recorded are those of the present store and of that moment.
\<close>

theorem incremental_pull_syncs:
  assumes "library_ok db" "imported svc db (env db)" "in_sync lc svc db s" "store_ok s" "mapping_cursor s < 2 ^ 63"
    and "(mapping_step lc C)\<^sup>*\<^sup>* s (rs_store st) \<or> mapping_cursor (rs_store st) < mapping_cursor s"
    and "store_ok (rs_store st)" "mapping_cursor (rs_store st) < 2 ^ 63" "one_spelling lc (rs_store st)"
    and "hex_ok C" "wire_ok W" "dc_native (rs_domains st) = Blake3"
    and "pull_domain_delta (repo_net C st W faults) lc env now caps svc advertised ceiling Blake3 db io0 = (Inr stats, db', io1)"
  shows "in_sync lc svc db' (rs_store st) \<and>
    (\<forall>h f T. file_id_by_hash db h = Some f \<longrightarrow> (supplies db' svc DOMAIN_BIT_BLAKE3 f T \<longleftrightarrow> claims lc (rs_store st) h T)) \<and>
    map_of (c_pull db') (svc, domain_as_str Blake3) =
      Some \<lparr>ps_cursor = Some (mapping_cursor (rs_store st)), ps_marker = Some (max_file_id db)\<rparr>"
proof -
  define bits where "bits = clamped_prefix_bits advertised ceiling (domain_floor caps Blake3)"
  obtain p where p: "plan_delta lc svc Blake3 bits db = Inr p"
    using assms(13) by (auto simp: pull_domain_delta_def bits_def Let_def split: sum.splits)
  obtain md since where run: "fetch_guarded (repo_net C st W faults) bits p (wire_domain caps Blake3) io0 = (Inr (md, since), io1)"
    and merge: "merge_fetched lc now svc Blake3 bits p md since (env db) = (db', stats)"
    using assms(13) p by (auto simp: pull_domain_delta_def bits_def Let_def split: prod.splits sum.splits)
  note plan = plan_blake3 [OF assms(1) p]
  have wire: "wire_domain caps Blake3 \<in> {None, Some (dc_native (rs_domains st))}" using wire_domain_native assms(12) by metis
  obtain g where g: "since = map g (dp_keys p)" "delta_of_keys C st bits (dp_keys p) g md"
      "g = (\<lambda>_. 0) \<or> g = since_of p \<and> \<not> went_backwards p (nat (mapping_cursor (rs_store st)))"
    using fetch_guarded_repo [OF assms(7,10,11) wire plan(1) assms(8) run] by blast
  have ok: "db_ok db" "library_ok (env db)" "db_ok (env db)" using assms(1,2) by (simp_all add: library_ok_def imported_def)
  have s0: "0 \<le> mapping_cursor s" "0 \<le> mapping_cursor (rs_store st)" using mapping_cursor_nonneg assms(4,7) by blast+
  let ?pull = "map_of (c_pull db) (svc, domain_as_str Blake3)"
  have cur: "dp_cursor p = Option.bind ?pull ps_cursor" "dp_marker p = Option.bind ?pull ps_marker"
    using plan(4,5) by (simp_all add: mapping_cursor_of_def last_pull_file_marker_def)
  have cur_s: "ps_cursor ps = Some (mapping_cursor s)" if "?pull = Some ps" for ps
    using assms(3) that unfolding in_sync_def that option.case by blast
  have bound: "g b < 2 ^ 63" for b
    using g(3) cur(1) cur_s s0(1) assms(5) by (auto simp: since_of_def split: option.splits bind_splits)
  have sync: "supplies db' svc DOMAIN_BIT_BLAKE3 f T \<longleftrightarrow> claims lc (rs_store st) h T" if f: "file_id_by_hash db h = Some f" for h f T
  proof (rule merge_fetched_sync [OF assms(7,10,9) plan(1) g(2) bound plan(2) ok(3) _ file_hash_ok [OF assms(1) f] plan(6) [OF f]])
    show "file_id_by_hash (env db) h = Some f" using imported_file [OF assms(1,2)] f by blast
    show "merge_fetched lc now svc Blake3 bits p md (map g (dp_keys p)) (env db) = (db', stats)" using merge g(1) by simp
    assume g0: "g (bucket_key h bits) \<noteq> 0"
    then have gs: "g = since_of p" "\<not> went_backwards p (nat (mapping_cursor (rs_store st)))" using g(3) by auto
    obtain m where m: "dp_marker p = Some m" "bucket_key h bits \<notin> set (dp_new_keys p)"
      using g0 gs(1) by (auto simp: since_of_def split: if_splits)
    obtain ps where ps: "?pull = Some ps" "ps_marker ps = Some m" using m(1) cur(2) by (auto simp: bind_eq_Some_conv)
    have c: "dp_cursor p = Some (mapping_cursor s)" using cur(1) cur_s [OF ps(1)] ps(1) by simp
    have gb: "int (g (bucket_key h bits)) = mapping_cursor s" using gs(1) m c s0(1) by (simp add: since_of_def)
    have "\<not> mapping_cursor (rs_store st) < mapping_cursor s"
    proof -
      have "mapping_cursor s mod 2 ^ 64 = mapping_cursor s" using s0(1) assms(5) by simp
      then show ?thesis using gs(2) s0 by (auto simp: went_backwards_def c)
    qed
    then have adv: "store_adv s (rs_store st)" using assms(6) mapping_steps_adv [OF _ assms(4)] by blast
    have "f \<le> m" using plan(7) [OF f m(1)] m(2) by linarith
    then have "supplies db svc DOMAIN_BIT_BLAKE3 f T \<longleftrightarrow> claims lc s h T"
      using assms(3) f ps unfolding in_sync_def ps(1) option.case by auto
    then show "store_ok s \<and> store_adv s (rs_store st) \<and> int (g (bucket_key h bits)) = mapping_cursor s \<and>
        (supplies (env db) svc DOMAIN_BIT_BLAKE3 f T \<longleftrightarrow> claims lc s h T)"
      using assms(4) adv gb imported_supplies [OF assms(2)] by simp
  qed
  note state = merge_fetched_state [OF ok(3) merge]
  have "md_cursor md = nat (mapping_cursor (rs_store st))" using g(2) by (simp add: delta_of_keys_def)
  then have pulled: "map_of (c_pull db') (svc, domain_as_str Blake3) =
      Some \<lparr>ps_cursor = Some (mapping_cursor (rs_store st)), ps_marker = Some (max_file_id db)\<rparr>"
    using state(3) plan(3) cursor_i64_nat [OF s0(2) assms(8)] by (simp del: domain_as_str.simps)
  have files: "file_id_by_hash db' = file_id_by_hash (env db)" using state(2) by (simp add: file_id_by_hash_def fun_eq_iff)
  have "in_sync lc svc db' (rs_store st)"
    unfolding in_sync_def pulled option.case files using sync imported_file [OF assms(1,2)] by (simp, blast)
  then show ?thesis using sync pulled by blast
qed

section \<open>A full pull puts the library in sync\<close>

lemma hex_bucket_to_hex: "hash_ok h \<Longrightarrow> hex_bucket bits (to_hex h) = bucket_key h bits"
  by (simp add: hex_bucket_def hash_from_str_to_hex)

lemma snapshot_other: "store_ok s \<Longrightarrow> hex_ok C \<Longrightarrow> \<forall>h. hash_ok h \<longrightarrow> k \<noteq> to_hex h \<Longrightarrow> get_vec (snapshot C s) k = []"
  unfolding snapshot_def by (intro other_vec) auto

lemma snapshot_tag:
  assumes "store_ok s" "hex_ok C" "hash_ok h"
  shows "ot \<in> set (get_vec (snapshot C s) (to_hex h)) \<longleftrightarrow> (\<exists>r. cur_row s h (ot_tag ot) = Some r \<and> mr_status r \<noteq> 1 \<and> mr_origin r = ot_origin ot)"
proof -
  have "ot \<in> set (get_vec (snapshot C s) (to_hex h)) \<longleftrightarrow> map_option row_view (cur_row s h (ot_tag ot)) = Some (0, ot_origin ot)"
    unfolding snapshot_vec [OF assms] current_of_tags [OF assms(1), symmetric] by (cases ot) simp
  moreover have "mr_status r = 0 \<longleftrightarrow> mr_status r \<noteq> 1" if "cur_row s h (ot_tag ot) = Some r" for r
    using that assms(1) unfolding store_ok_def cur_row_key by fastforce
  ultimately show ?thesis by (auto simp: row_view_def)
qed

lemma case_sum_Some_iff: "(case x of Inl e \<Rightarrow> None | Inr a \<Rightarrow> k a) = Some y \<longleftrightarrow> (\<exists>a. x = Inr a \<and> k a = Some y)"
  by (cases x) simp_all

lemma snapshot_entries_claims:
  assumes "store_ok s" "hex_ok C" "keyed tags"
    and view: "\<And>k. get_vec tags k = (if hex_bucket bits k \<in> B then get_vec (snapshot C s) k else [])"
    and db: "db_ok db" "file_id_by_hash db h = Some f" "hash_ok h" "bucket_key h bits \<in> B"
  shows "(f, T) \<in> entry_pairs db (mapping_snapshot_entries lc tags) \<longleftrightarrow> claims lc s h T"
proof -
  have vec: "get_vec tags (to_hex h) = get_vec (snapshot C s) (to_hex h)" using view db(4) by (simp add: hex_bucket_to_hex [OF db(3)])
  have mem: "(k, ots) \<in> set tags \<Longrightarrow> get_vec tags k = ots" for k ots
    using assms(3) by (simp add: get_vec_def keyed_def)
  define parsed where "parsed = (\<lambda>ots :: origin_tag list. List.map_filter (\<lambda>ot. case tag_parse lc (ot_tag ot) of Inl _ \<Rightarrow> None | Inr t \<Rightarrow> Some (t, ot_origin ot)) ots)"
  have T: "T \<in> fst ` set (parsed ots) \<longleftrightarrow> (\<exists>ot\<in>set ots. tag_parse lc (ot_tag ot) = Inr T)" for ots
  proof -
    have "T \<in> fst ` set (parsed ots) \<longleftrightarrow> (\<exists>og. (T, og) \<in> set (parsed ots))" by force
    then show ?thesis unfolding parsed_def map_filter_mem case_sum_Some_iff by auto
  qed
  have entries: "(h', ts) \<in> set (mapping_snapshot_entries lc tags) \<longleftrightarrow>
      (\<exists>k ots. (k, ots) \<in> set tags \<and> hash_from_str k = Inr h' \<and> ts = parsed ots \<and> ts \<noteq> [])" for h' ts
    unfolding mapping_snapshot_entries_def map_filter_mem Let_def parsed_def [symmetric] case_prod_beta case_sum_Some_iff
    by (auto split: if_splits intro: rev_bexI) blast
  show ?thesis
  proof
    assume "(f, T) \<in> entry_pairs db (mapping_snapshot_entries lc tags)"
    then obtain h' ts where h': "(h', ts) \<in> set (mapping_snapshot_entries lc tags)" "file_id_by_hash db h' = Some f" "T \<in> fst ` set ts"
      unfolding entry_pairs_def by blast
    have "h' = h" by (rule file_id_by_hash_inj [OF db(1,2) h'(2)])
    then obtain k ots where k: "(k, ots) \<in> set tags" "hash_from_str k = Inr h" "T \<in> fst ` set (parsed ots)"
      using h'(1,3) unfolding entries by blast
    then obtain ot where ot: "ot \<in> set ots" "tag_parse lc (ot_tag ot) = Inr T" using T by blast
    then have ne: "get_vec (snapshot C s) k \<noteq> []" "ot \<in> set (get_vec (snapshot C s) k)"
      using mem [OF k(1)] view [of k] by (auto split: if_splits)
    then obtain h2 where "hash_ok h2" "k = to_hex h2" using snapshot_other [OF assms(1,2)] by blast
    then have "k = to_hex h" using k(2) by (simp add: hash_from_str_to_hex)
    then show "claims lc s h T" using ne(2) ot(2) snapshot_tag [OF assms(1,2) db(3)] by (auto simp: claims_def)
  next
    assume "claims lc s h T"
    then obtain t r where t: "cur_row s h t = Some r" "tag_parse lc t = Inr T" "mr_status r \<noteq> 1" unfolding claims_def by blast
    let ?ots = "get_vec tags (to_hex h)"
    have ot: "\<lparr>ot_tag = t, ot_origin = mr_origin r\<rparr> \<in> set ?ots" using snapshot_tag [OF assms(1,2) db(3)] t by (simp add: vec)
    then have "map_of tags (to_hex h) = Some ?ots" by (cases "map_of tags (to_hex h)") (simp_all add: get_vec_def)
    then have k: "(to_hex h, ?ots) \<in> set tags" by (rule map_of_SomeD)
    have "T \<in> fst ` set (parsed ?ots)" using T ot t(2) by force
    moreover from this have "parsed ?ots \<noteq> []" by auto
    ultimately show "(f, T) \<in> entry_pairs db (mapping_snapshot_entries lc tags)"
      using entries k hash_from_str_to_hex [OF db(3)] db(2) unfolding entry_pairs_def by blast
  qed
qed

lemma distinct_sort_dedup: "distinct (sort_dedup xs)"
proof -
  have "sorted_wrt (<) (remdups_adj ys)" if "sorted ys" for ys :: "ustring list"
    using that by (induction ys rule: remdups_adj.induct) (auto simp: order_le_less)
  then show ?thesis unfolding sort_dedup_def using strict_sorted_iff by (metis sorted_sort)
qed

lemma record_cursor_state:
  assumes "db_ok db"
  shows "db_ok (record_domain_cursor svc d cursor marker db)" "rows (record_domain_cursor svc d cursor marker db) = rows db"
    "c_files (record_domain_cursor svc d cursor marker db) = c_files db"
    "map_of (c_pull (record_domain_cursor svc d cursor marker db)) (svc, domain_as_str d) =
      (if 0 < cursor then Some \<lparr>ps_cursor = Some (cursor_i64 cursor), ps_marker = Some (case marker of Some m \<Rightarrow> m | None \<Rightarrow> max_file_id db)\<rparr> else None)"
proof -
  have k: "keyed (c_pull db)" using assms by (simp add: db_ok_def)
  show "db_ok (record_domain_cursor svc d cursor marker db)" "c_files (record_domain_cursor svc d cursor marker db) = c_files db"
    using assms by (simp_all add: record_domain_cursor_def clear_mapping_pull_state_def db_ok_def)
      (simp_all add: set_mapping_pull_state_def)
  show "rows (record_domain_cursor svc d cursor marker db) = rows db"
    by (simp add: record_domain_cursor_def clear_mapping_pull_state_def rows_def fun_eq_iff cong: option.case_cong)
      (simp add: set_mapping_pull_state_def cong: option.case_cong)
  show "map_of (c_pull (record_domain_cursor svc d cursor marker db)) (svc, domain_as_str d) =
      (if 0 < cursor then Some \<lparr>ps_cursor = Some (cursor_i64 cursor), ps_marker = Some (case marker of Some m \<Rightarrow> m | None \<Rightarrow> max_file_id db)\<rparr> else None)"
    using k by (simp add: record_domain_cursor_def clear_mapping_pull_state_def map_of_delete split: option.split)
qed


section \<open>A toy library\<close>

definition toy_tag :: tag where
  "toy_tag = \<lparr>namespace = [], subtag = lit ''a''\<rparr>"

definition toy_library :: "db_maps \<Rightarrow> ((int \<times> ustring) \<times> pull_state) list \<Rightarrow> client_db" where
  "toy_library maps pulls =
     \<lparr>c_files = [(1, \<lparr>df_blake3 = to_hex (replicate 32 1), df_sha256 = None, df_sha256_seq = None\<rparr>)], c_sha256_seq = 0,
      c_tags = [(toy_tag, 1)], c_origins = [], c_maps = maps, c_pull = pulls, c_relation_cursor = [], c_relation_pulled = [], c_siblings = [], c_parents = [], c_staging = [],
     c_generation = []\<rparr>"

definition toy_caps :: caps where
  "toy_caps = \<lparr>caps_version = PROTOCOL_VERSION, caps_mode = Bucketed 4, relation_incremental = True, mapping_incremental = True,
     caps_reports = False, repo_key = None, caps_hash_domain = Blake3, hash_domains = [], incremental_domains = None,
     server_version = None, streaming = False, min_query_bits = None, caps_count = None, caps_store_generation = None, caps_name = None\<rparr>"

lemma toy_parse: "tag_parse to_ascii_lowercase (lit ''a'') = Inr toy_tag"
  by (simp add: tag_parse_def tag_normalize_def toy_tag_def str_eval)

lemma toy_library_ok:
  assumes "keyed maps" "keyed pulls" "\<forall>(k, r)\<in>set maps. key_tag k = 1 \<and> m_domains r \<noteq> 0"
  shows "library_ok (toy_library maps pulls)"
proof -
  let ?db = "toy_library maps pulls"
  have "key_tag k = 1 \<and> m_domains r \<noteq> 0" if "map_of maps k = Some r" for k r
    using bspec [OF assms(3) map_of_SomeD [OF that]] by simp
  then have "db_ok ?db" using assms(1,2) unfolding db_ok_def toy_library_def by (simp add: ids_ok_def)
  moreover have "\<forall>(i, f)\<in>set (c_files ?db). \<exists>h. hash_ok h \<and> df_blake3 f = to_hex h"
    using toy_hash by (auto simp: toy_library_def simp del: replicate.simps)
  ultimately show ?thesis by (simp add: library_ok_def)
qed

lemma toy_file: "file_id_by_hash (toy_library maps pulls) (replicate 32 1) = Some 1"
  by (simp add: file_id_by_hash_def toy_library_def)

lemma imported_refl: "library_ok db \<Longrightarrow> imported svc db db"
  by (auto simp: imported_def)

lemma toy_keys: "key_list [replicate 32 1] 4 = [toy_key]"
  by (simp add: key_list_def sort_dedup_def toy_key_def del: replicate.simps)

lemma toy_bits: "clamped_prefix_bits 4 24 None = 4"
  by (simp add: clamped_prefix_bits_def effective_prefix_bits_floored_def)

lemma toy_parse_all: "parse_all [to_hex (replicate 32 1)] = Inr [replicate 32 1]"
  using toy_hash by (simp add: hash_from_str_to_hex del: replicate.simps)

lemma toy_full_run:
  "\<exists>stats db' io1. full_leg toy_net G to_ascii_lowercase (\<lambda>d a b. 100) (\<lambda>db. db) 9 toy_caps 7 24 Blake3 (toy_library [] [])
     \<lparr>io_world = 0, io_phases = []\<rparr> = Some (Inr stats, db', io1)"
proof -
  obtain m io1 where run: "fetch_buckets_in toy_net 4 [toy_key] None 100 False \<lparr>io_world = 0, io_phases = []\<rparr> = Some (Inr m, io1)"
    using toy_fetch by blast
  have "owned_hashes (toy_library [] []) = Inr [replicate 32 1]"
    by (simp add: owned_hashes_def toy_library_def toy_parse_all del: parse_all.simps replicate.simps)
  moreover have "wire_domain toy_caps Blake3 = None" "caps_mode toy_caps = Bucketed 4" "streaming toy_caps = False"
    by (simp_all add: wire_domain_def toy_caps_def)
  ultimately show ?thesis
    using run by (simp add: full_leg_def fetch_blake3_entries_def toy_keys toy_bits fetched_def Let_def split: prod.split)
qed


definition toy_pulls :: "((int \<times> ustring) \<times> pull_state) list" where
  "toy_pulls = [((7, domain_as_str Blake3), \<lparr>ps_cursor = Some 1, ps_marker = Some 1\<rparr>)]"

definition toy_rows :: "64 word \<Rightarrow> db_maps" where
  "toy_rows m = [((1, 1, 7), \<lparr>m_created = 0, m_domains = m, m_origin = None\<rparr>)]"

definition toy_synced :: client_db where
  "toy_synced = toy_library (toy_rows 1) toy_pulls"

lemma toy_rows_ok: "m \<noteq> 0 \<Longrightarrow> library_ok (toy_library (toy_rows m) toy_pulls)"
  by (rule toy_library_ok) (simp_all add: keyed_def toy_rows_def toy_pulls_def)

lemma toy_synced_ok: "library_ok toy_synced"
  unfolding toy_synced_def by (rule toy_rows_ok) simp

lemma toy_synced_file: "file_id_by_hash toy_synced (replicate 32 1) = Some 1"
  unfolding toy_synced_def by (rule toy_file)

lemma toy_synced_supplies: "supplies toy_synced 7 DOMAIN_BIT_BLAKE3 f T \<longleftrightarrow> f = 1 \<and> T = toy_tag"
  by (simp add: supplies_def rows_def toy_synced_def toy_library_def toy_rows_def DOMAIN_BIT_BLAKE3_def)

lemma toy_claims: "claims to_ascii_lowercase toy_store (replicate 32 1) T \<longleftrightarrow> T = toy_tag"
proof -
  have "cur_row toy_store (replicate 32 1) t = Some r \<longleftrightarrow> t = lit ''a'' \<and> r = \<lparr>mr_status = 0, mr_seq = 1, mr_origin = None\<rparr>" for t r
    by (auto simp: cur_row_def toy_store_def split: option.splits if_splits)
  then show ?thesis using toy_parse by (auto simp: claims_def)
qed

lemma toy_in_sync: "in_sync to_ascii_lowercase 7 toy_synced toy_store"
proof -
  have pull: "map_of (c_pull toy_synced) (7, domain_as_str Blake3) = Some \<lparr>ps_cursor = Some 1, ps_marker = Some 1\<rparr>"
    by (simp add: toy_synced_def toy_library_def toy_pulls_def)
  have "h = replicate 32 1 \<and> f = 1" if "file_id_by_hash toy_synced h = Some f" for h f
    using that by (simp add: file_id_by_hash_def toy_synced_def toy_library_def del: replicate.simps split: if_splits)
  then show ?thesis unfolding in_sync_def pull option.case
    using toy_claims toy_synced_supplies by (auto simp: toy_cursor intro!: exI [of _ 1] del: replicate.simps)
qed

lemma toy_one_spelling: "one_spelling lc toy_after"
  by (simp add: one_spelling_def toy_after_def toy_store_def)

lemma toy_plan: "plan_delta to_ascii_lowercase 7 Blake3 4 (toy_library maps toy_pulls) =
  Inr \<lparr>dp_keys = [toy_key], dp_sha_map = None, dp_cursor = Some 1, dp_marker = Some 1, dp_current = 1, dp_new_keys = []\<rparr>"
proof -
  have "owned_hashes (toy_library maps toy_pulls) = Inr [replicate 32 1]"
    by (simp add: owned_hashes_def toy_library_def toy_parse_all del: parse_all.simps replicate.simps)
  moreover have "owned_bucket_keys_after_file_id (toy_library maps toy_pulls) 4 1 = Inr []"
    by (simp add: owned_bucket_keys_after_file_id_def toy_library_def sort_dedup_def)
  moreover have "mapping_cursor_of (toy_library maps toy_pulls) 7 (domain_as_str Blake3) = Some 1" "last_pull_file_marker (toy_library maps toy_pulls) 7 (domain_as_str Blake3) = Some 1"
    "max_file_id (toy_library maps toy_pulls) = 1"
    by (simp_all add: mapping_cursor_of_def last_pull_file_marker_def max_file_id_def coalesce_max_def toy_library_def toy_pulls_def)
  ultimately show ?thesis by (simp add: plan_delta_def toy_keys del: domain_as_str.simps replicate.simps)
qed

lemma toy_delta_leg:
  "\<exists>stats db' io1. pull_domain_delta toy_delta_net to_ascii_lowercase (\<lambda>db. db) 9 toy_caps 7 4 24 Blake3 (toy_library maps toy_pulls)
     \<lparr>io_world = 0, io_phases = []\<rparr> = (Inr stats, db', io1)"
proof -
  obtain m io1 where run: "fetch_bucket_delta_in toy_delta_net 4 [toy_key] [1] None \<lparr>io_world = 0, io_phases = []\<rparr> = (Inr m, io1)"
    using toy_delta_fetch by blast
  have "delta_of_keys toy_crypto toy_after_state 4 [toy_key] (\<lambda>_. 1) m"
    by (rule fetch_delta_repo [of _ _ toy_wire None _ _ "\<lambda>_. None" _ "\<lparr>io_world = 0, io_phases = []\<rparr>" m io1])
      (use run toy_after_ok toy_hex_ok toy_wire_ok toy_key_ok in \<open>simp_all add: masked_keys_def toy_after_cursor\<close>)
  then have "md_cursor m = 2" by (simp add: delta_of_keys_def toy_after_cursor)
  moreover have "wire_domain toy_caps Blake3 = None" "domain_floor toy_caps Blake3 = None" by (simp_all add: wire_domain_def toy_caps_def domain_floor_def)
  ultimately show ?thesis using run
    by (simp add: pull_domain_delta_def toy_bits toy_plan fetch_guarded_def since_vector_def went_backwards_def Let_def split: prod.split)
qed

corollary incremental_pull_syncs_witness:
  "\<exists>stats db' io1. pull_domain_delta toy_delta_net to_ascii_lowercase (\<lambda>db. db) 9 toy_caps 7 4 24 Blake3 toy_synced
     \<lparr>io_world = 0, io_phases = []\<rparr> = (Inr stats, db', io1) \<and>
     supplies toy_synced 7 DOMAIN_BIT_BLAKE3 1 toy_tag \<and> \<not> supplies db' 7 DOMAIN_BIT_BLAKE3 1 toy_tag"
proof -
  obtain stats db' io1 where run: "pull_domain_delta toy_delta_net to_ascii_lowercase (\<lambda>db. db) 9 toy_caps 7 4 24 Blake3 toy_synced
      \<lparr>io_world = 0, io_phases = []\<rparr> = (Inr stats, db', io1)" using toy_delta_leg unfolding toy_synced_def by blast
  have c: "mapping_cursor toy_store < 2 ^ 63" "mapping_cursor (rs_store toy_after_state) < 2 ^ 63" by (simp_all add: toy_cursor toy_after_cursor)
  have steps: "(mapping_step to_ascii_lowercase toy_crypto)\<^sup>*\<^sup>* toy_store (rs_store toy_after_state) \<or>
      mapping_cursor (rs_store toy_after_state) < mapping_cursor toy_store"
    using toy_after_step by (simp add: r_into_rtranclp)
  from incremental_pull_syncs [OF toy_synced_ok imported_refl [OF toy_synced_ok] toy_in_sync toy_store_ok c(1) steps _ c(2) _ toy_hex_ok toy_wire_ok _ run]
  have "supplies db' 7 DOMAIN_BIT_BLAKE3 1 toy_tag \<longleftrightarrow> claims to_ascii_lowercase toy_after (replicate 32 1) toy_tag"
    using toy_after_ok toy_one_spelling toy_synced_file by simp
  moreover have "\<not> claims to_ascii_lowercase toy_after (replicate 32 1) toy_tag"
    by (auto simp: claims_def cur_row_def toy_after_def toy_store_def split: option.splits if_splits)
  ultimately show ?thesis using run toy_synced_supplies by blast
qed

end
