(* ===== verification/DaemonLegs.thy ===== *)
theory DaemonLegs
  imports DaemonSync
begin

text \<open>
  What one leg of a pull leaves alone, over any network, and what the cache of capabilities hides from the
  generation check.
\<close>

section \<open>Legs do not interfere\<close>

lemma bits_disjoint: "d' \<noteq> d \<Longrightarrow> domain_bit (domain_as_str d) AND domain_bit (domain_as_str d') = 0"
  by (cases d; cases d') (simp_all add: domain_bit_def DOMAIN_BIT_BLAKE3_def DOMAIN_BIT_SHA256_def)

text \<open>What a leg may do to the library.\<close>

definition leg_effect :: "int \<Rightarrow> hash_domain \<Rightarrow> client_db \<Rightarrow> client_db \<Rightarrow> bool" where
  "leg_effect svc d db db' \<longleftrightarrow> db_ok db' \<and> c_files db' = c_files db \<and>
     (\<forall>d' f T. d' \<noteq> d \<longrightarrow> supplies db' svc (domain_bit (domain_as_str d')) f T = supplies db svc (domain_bit (domain_as_str d')) f T) \<and>
     (\<forall>f T s. s \<noteq> svc \<longrightarrow> rows db' (f, T, s) = rows db (f, T, s)) \<and>
     (\<forall>k. k \<noteq> (svc, domain_as_str d) \<longrightarrow> map_of (c_pull db') k = map_of (c_pull db) k)"

lemma leg_effect_step:
  assumes "domain_step svc (domain_bit (domain_as_str d)) G db db1" "rows db' = rows db1" "c_files db' = c_files db1" "db_ok db'"
    "\<And>k. k \<noteq> (svc, domain_as_str d) \<Longrightarrow> map_of (c_pull db') k = map_of (c_pull db1) k"
  shows "leg_effect svc d db db'"
  using assms same_library_fields [of db db1] bits_disjoint [of _ d]
  unfolding leg_effect_def domain_step_def supplies_rows [OF assms(2)] by simp

lemma delta_leg_effect:
  assumes "db_ok db" "merge_fetched lc now svc d bits p md since db = (db', stats)"
  shows "leg_effect svc d db db'"
proof -
  obtain G db1 where step: "domain_step svc (domain_bit (domain_as_str d)) G db db1"
    and db': "db' = set_mapping_pull_state db1 svc (domain_as_str d) (md_cursor md) (dp_current p)"
    using delta_merge_step [OF assms(1) assms(2) [unfolded merge_fetched_def Let_def]] by blast
  show ?thesis by (rule leg_effect_step [OF step]) (use domain_step_ok [OF step] in \<open>simp_all add: db'\<close>)
qed

lemma full_leg_effect:
  assumes "db_ok db" "merge_domain_entries now svc d pull db = (db', stats)"
  shows "leg_effect svc d db db'"
proof -
  obtain db1 st1 where db1: "merge_pulled_mappings_in_domain db now svc (domain_as_str d) (pl_entries pull) = (db1, st1)" by fastforce
  have db': "db' = record_domain_cursor svc d (pl_cursor pull) (pl_marker pull) db1"
    using assms(2) by (simp add: merge_domain_entries_def db1)
  note step = domain_merge_step [OF assms(1) db1]
  note rec = record_cursor_state [OF conjunct1 [OF domain_step_ok [OF step]], of svc d "pl_cursor pull" "pl_marker pull", folded db']
  have k: "keyed (c_pull db1)" using domain_step_ok [OF step] by (simp add: db_ok_def)
  show ?thesis
    by (rule leg_effect_step [OF step rec(2,3,1)])
      (use k in \<open>simp add: db' record_domain_cursor_def clear_mapping_pull_state_def map_of_delete split: option.split\<close>)
qed

text \<open>
  C23. A leg of a pull, over any network and whatever it answers.  If it fails the library is as before, up to what
  other threads committed; if it succeeds it has changed only what its own domain supplies to its own service, and
  the pull state of that pair: the other domain's tags and progress and every other service stay.
\<close>

theorem legs_are_independent:
  assumes "db_ok (env db)" "pull_leg N G lc seed env now caps svc ceiling d db io0 = Some (r, db', io1)"
  shows "case r of
      Inl e \<Rightarrow> db' = db \<or> db' = env db
    | Inr stats \<Rightarrow>
        (\<forall>d' f T. d' \<noteq> d \<longrightarrow> supplies db' svc (domain_bit (domain_as_str d')) f T = supplies (env db) svc (domain_bit (domain_as_str d')) f T) \<and>
        (\<forall>f T s. s \<noteq> svc \<longrightarrow> rows db' (f, T, s) = rows (env db) (f, T, s)) \<and>
        (\<forall>k. k \<noteq> (svc, domain_as_str d) \<longrightarrow> map_of (c_pull db') k = map_of (c_pull (env db)) k)"
proof -
  have full: "(case r of Inl e \<Rightarrow> db' = db \<or> db' = env db | Inr stats \<Rightarrow> leg_effect svc d (env db) db')"
    if "full_leg N G lc seed env now caps svc ceiling d db io0 = Some (r, db', io1)"
    using that full_leg_effect [OF assms(1)]
    by (auto simp: full_leg_def split: option.splits prod.splits sum.splits)
  have delta: "(case r of Inl e \<Rightarrow> db' = db \<or> db' = env db | Inr stats \<Rightarrow> leg_effect svc d (env db) db')"
    if "pull_domain_delta N lc env now caps svc advertised ceiling d db io0 = (r, db', io1)" for advertised
    using that delta_leg_effect [OF assms(1)]
    by (auto simp: pull_domain_delta_def Let_def split: option.splits prod.splits sum.splits)
  have "(case r of Inl e \<Rightarrow> db' = db \<or> db' = env db | Inr stats \<Rightarrow> leg_effect svc d (env db) db')"
    using assms(2) full delta by (auto simp: pull_leg_def split: pull_mode.splits if_splits)
  then show ?thesis by (cases r) (simp_all add: leg_effect_def)
qed

corollary legs_are_independent_witness:
  "\<exists>stats db' io1. pull_leg toy_delta_net \<lparr>net_get = (\<lambda>r w. (HttpTransport [], w)), json_caps = (\<lambda>_. None)\<rparr> to_ascii_lowercase
     (\<lambda>d a b. 100) (\<lambda>db. db) 9 toy_caps 7 24 Blake3 (toy_library (toy_rows 3) toy_pulls) \<lparr>io_world = 0, io_phases = []\<rparr> =
       Some (Inr stats, db', io1) \<and> supplies db' 7 DOMAIN_BIT_SHA256 1 toy_tag"
proof -
  let ?db = "toy_library (toy_rows 3) toy_pulls"
  let ?G = "\<lparr>net_get = (\<lambda>r w. (HttpTransport [], w)), json_caps = (\<lambda>_. None)\<rparr>"
  have "caps_mode toy_caps = Bucketed 4" "serves_deltas toy_caps Blake3" by (simp_all add: toy_caps_def serves_deltas_def serves_def)
  then obtain stats db' io1 where run: "pull_leg toy_delta_net ?G to_ascii_lowercase (\<lambda>d a b. 100) (\<lambda>db. db) 9 toy_caps 7 24 Blake3 ?db
      \<lparr>io_world = 0, io_phases = []\<rparr> = Some (Inr stats, db', io1)"
    using toy_delta_leg [of "toy_rows 3"] by (auto simp: pull_leg_def)
  have "db_ok ?db" using toy_rows_ok [of 3] by (simp add: library_ok_def)
  from legs_are_independent [where env = "\<lambda>db. db", OF this run]
  have "supplies db' 7 (domain_bit (domain_as_str Sha256)) 1 toy_tag = supplies ?db 7 (domain_bit (domain_as_str Sha256)) 1 toy_tag"
    by (simp del: domain_as_str.simps)
  moreover have "domain_bit (domain_as_str Sha256) = DOMAIN_BIT_SHA256" by (simp add: domain_bit_def)
  moreover have "supplies ?db 7 DOMAIN_BIT_SHA256 1 toy_tag"
    by (simp add: supplies_def rows_def toy_library_def toy_rows_def DOMAIN_BIT_SHA256_def)
  ultimately show ?thesis using run by auto
qed

section \<open>A cached generation is never seen to change\<close>



end
