(* ===== verification/DbFiles.thy ===== *)
theory DbFiles
  imports DbMerge
begin

text \<open>
  What the file-scoped merge of \<open>DbState\<close> does: the first pass resolves the entries of requested files to
  tag ids, the second replaces, for each requested file, what the domain supplies.
\<close>

section \<open>The merge of some files\<close>

text \<open>What the entries say of a hash: the last entry for it counts.\<close>

definition entry_tags :: "tagged_entries \<Rightarrow> hash \<Rightarrow> tag set" where
  "entry_tags entries h = (case map_of (rev entries) h of None \<Rightarrow> {} | Some tags \<Rightarrow> fst ` set tags)"

definition tags_extend :: "client_db \<Rightarrow> client_db \<Rightarrow> bool" where
  "tags_extend db db' \<longleftrightarrow> (\<forall>t i. map_of (c_tags db) t = Some i \<longrightarrow> map_of (c_tags db') t = Some i)"

lemma tags_extend_intern:
  assumes "db_ok db" "intern_tag_cached db t [] pending = (i, pending', db')"
  shows "tags_extend db db'"
proof -
  have "db' = db \<or> db' = db\<lparr>c_tags := snd (intern_row (c_tags db) t)\<rparr>"
    using assms(2) by (auto simp: intern_tag_cached_def intern_tag_def split: option.splits prod.splits)
  then show ?thesis using ids.intern_keeps [OF db_okD(1) [OF assms(1)]] by (auto simp: tags_extend_def)
qed

text \<open>The ids of a set of tags.\<close>

definition ids_of :: "client_db \<Rightarrow> tag set \<Rightarrow> int list \<Rightarrow> bool" where
  "ids_of db T ids \<longleftrightarrow> (\<forall>t\<in>T. \<exists>i. map_of (c_tags db) t = Some i) \<and> set ids = {i. \<exists>t\<in>T. map_of (c_tags db) t = Some i}"

lemma ids_of_extend:
  assumes "ids_of db T ids" "tags_extend db db'"
  shows "ids_of db' T ids"
proof -
  have "map_of (c_tags db') t = Some i \<longleftrightarrow> map_of (c_tags db) t = Some i" if "t \<in> T" for t i
    using assms that unfolding ids_of_def tags_extend_def by (metis option.inject)
  then show ?thesis using assms(1) unfolding ids_of_def by auto
qed

definition resolving :: "client_db \<Rightarrow> scope_acc \<Rightarrow> bool" where
  "resolving db a \<longleftrightarrow> db_ok (sa_db a) \<and> cached (sa_db a) (sa_pending a) \<and> rows (sa_db a) = rows db \<and> same_library db (sa_db a)"

lemma resolve_tag_spec:
  assumes "resolving db a" "ids_of (sa_db a) T ids" "resolve_tag_of_file f item (a, ids) = (a', ids')"
  shows "resolving db a' \<and> ids_of (sa_db a') (insert (fst item) T) ids' \<and> tags_extend (sa_db a) (sa_db a') \<and>
    sa_resolved a' = sa_resolved a \<and> sa_new_tags a' = sa_new_tags a"
proof -
  obtain t og where item: "item = (t, og)" by fastforce
  have ok: "db_ok (sa_db a)" "cached (sa_db a) (sa_pending a)" using assms(1) by (simp_all add: resolving_def)
  obtain i p1 db1 where i: "intern_tag_cached (sa_db a) t [] (sa_pending a) = (i, p1, db1)" by (metis prod_cases3)
  note it = intern_tag_cached_spec [OF ok i] and ext = tags_extend_intern [OF ok(1) i]
  obtain oid oc1 db2 where o: "origin_id_of db1 og (sa_origins a) = (oid, oc1, db2)" by (metis prod_cases3)
  note oi = origin_id_of_spec [OF it(1) o]
  have a': "a' = a\<lparr>sa_db := db2, sa_pending := p1, sa_origins := oc1,
      sa_new_origin := AList.update (f, i) oid (sa_new_origin a)\<rparr>" and ids': "ids' = List.insert i ids"
    using assms(3) by (simp_all add: resolve_tag_of_file_def item i o Let_def)
  have ext2: "tags_extend (sa_db a) db2" using ext oi(4) by (simp add: tags_extend_def)
  have t: "map_of (c_tags db2) t = Some i" using it(3) oi(4) by simp
  have "ids_of db2 (insert t T) (List.insert i ids)"
    using ids_of_extend [OF assms(2) ext2] t unfolding ids_of_def by auto
  moreover have "resolving db a'"
    using assms(1) oi it same_library_trans by (auto simp: resolving_def a' cached_def)
  ultimately show ?thesis using ext2 by (simp add: a' ids' item)
qed

lemma resolve_tags_spec:
  assumes "resolving db a" "ids_of (sa_db a) T ids" "fold (resolve_tag_of_file f) items (a, ids) = (a', ids')"
  shows "resolving db a' \<and> ids_of (sa_db a') (fst ` set items \<union> T) ids' \<and> tags_extend (sa_db a) (sa_db a') \<and>
    sa_resolved a' = sa_resolved a \<and> sa_new_tags a' = sa_new_tags a"
  using assms
proof (induction items arbitrary: a T ids)
  case Nil
  then show ?case by (simp add: tags_extend_def)
next
  case (Cons item items)
  obtain a1 ids1 where step: "resolve_tag_of_file f item (a, ids) = (a1, ids1)" by fastforce
  note one = resolve_tag_spec [OF Cons.prems(1,2) step]
  have "resolving db a' \<and> ids_of (sa_db a') (fst ` set items \<union> insert (fst item) T) ids' \<and> tags_extend (sa_db a1) (sa_db a') \<and>
      sa_resolved a' = sa_resolved a1 \<and> sa_new_tags a' = sa_new_tags a1"
    using Cons.IH [of a1 "insert (fst item) T" ids1] one Cons.prems(3) by (simp add: step)
  then show ?case using one by (auto simp: tags_extend_def)
qed

text \<open>After the first pass every requested file has the ids of its tags, and nothing else happened.\<close>

definition resolved :: "client_db \<Rightarrow> hash list \<Rightarrow> tagged_entries \<Rightarrow> scope_acc \<Rightarrow> bool" where
  "resolved db hashes entries a \<longleftrightarrow> resolving db a \<and>
     (\<forall>h i. map_of (sa_resolved a) h = Some i \<longrightarrow> file_id_by_hash db h = Some i) \<and>
     (\<forall>h f. h \<in> set hashes \<longrightarrow> file_id_by_hash db h = Some f \<longrightarrow>
        ids_of (sa_db a) (entry_tags entries h) (case map_of (sa_new_tags a) f of None \<Rightarrow> [] | Some l \<Rightarrow> l))"

lemma resolve_entries_spec:
  assumes "db_ok db"
  shows "resolved db hashes entries (fold (resolve_entry hashes) entries
    \<lparr>sa_db = db, sa_pending = [], sa_origins = [], sa_resolved = [], sa_new_tags = [], sa_new_origin = [], sa_matched = 0\<rparr>)"
proof (induction entries rule: rev_induct)
  case Nil
  then show ?case using assms by (simp add: resolved_def resolving_def entry_tags_def ids_of_def)
next
  case (snoc entry entries)
  let ?a0 = "\<lparr>sa_db = db, sa_pending = [], sa_origins = [], sa_resolved = [], sa_new_tags = [], sa_new_origin = [], sa_matched = 0\<rparr>"
  obtain h tags where e: "entry = (h, tags)" by fastforce
  define a where "a = fold (resolve_entry hashes) entries ?a0"
  have IH: "resolved db hashes entries a" using snoc by (simp add: a_def)
  have a: "resolving db a" "\<And>h i. map_of (sa_resolved a) h = Some i \<Longrightarrow> file_id_by_hash db h = Some i"
    using IH by (simp_all add: resolved_def)
  have same: "file_id_by_hash (sa_db a) = file_id_by_hash db" using a(1) by (simp add: resolving_def same_library_file)
  have tags_of: "entry_tags (entries @ [entry]) h' = (if h' = h then fst ` set tags else entry_tags entries h')" for h'
    by (simp add: entry_tags_def e)
  show ?case
  proof (cases "h \<in> set hashes \<and> file_id_by_hash db h \<noteq> None")
    case False
    then have "resolve_entry hashes entry a = a" by (auto simp: resolve_entry_def e same split: option.split)
    then show ?thesis using IH False by (auto simp: resolved_def tags_of a_def)
  next
    case True
    then obtain f where f: "file_id_by_hash db h = Some f" by blast
    let ?a1 = "a\<lparr>sa_resolved := AList.update h f (sa_resolved a), sa_matched := sa_matched a + 1\<rparr>"
    obtain a2 ids where run: "fold (resolve_tag_of_file f) tags (?a1, []) = (a2, ids)" by fastforce
    have "resolving db ?a1" "ids_of (sa_db ?a1) {} []" using a(1) by (simp_all add: resolving_def ids_of_def)
    note two = resolve_tags_spec [OF this run]
    have res: "resolve_entry hashes entry a = a2\<lparr>sa_new_tags := AList.update f ids (sa_new_tags a2)\<rparr>"
      using True run by (simp add: resolve_entry_def e same f)
    have keep: "ids_of (sa_db a2) (entry_tags entries h') (case map_of (sa_new_tags a) f' of None \<Rightarrow> [] | Some l \<Rightarrow> l)"
      if "h' \<in> set hashes" "file_id_by_hash db h' = Some f'" for h' f'
      using ids_of_extend IH two that by (auto simp: resolved_def)
    have "f' \<noteq> f" if "file_id_by_hash db h' = Some f'" "h' \<noteq> h" for h' f'
      using file_id_by_hash_inj [OF assms f] that by blast
    then show ?thesis
      unfolding resolved_def fold_append comp_apply a_def [symmetric]
      using two keep a(2) f by (auto simp: res tags_of resolving_def split: if_splits)
  qed
qed

text \<open>The second pass, on the mask of a key.\<close>

definition mask_at :: "db_maps \<Rightarrow> db_key \<Rightarrow> 64 word option" where
  "mask_at t k = map_option m_domains (map_of t k)"

lemma mask_at_removals:
  "mask_at (fold (remove_one svc (Some b) f) ids t) k =
     map_option (\<lambda>m. if k \<in> (\<lambda>i. (f, i, svc)) ` set ids then m AND NOT b else m) (mask_at t k)"
  "keyed (fold (remove_one svc (Some b) f) ids t) = keyed t"
proof (induction ids arbitrary: t)
  case Nil
  { case 1 show ?case by (cases "mask_at t k") simp_all }
  { case 2 show ?case by simp }
next
  case (Cons i ids)
  { case 1
    have "(m AND NOT b) AND NOT b = m AND NOT b" for m by (simp add: and.assoc)
    then show ?case using Cons.IH(1) [of "remove_one svc (Some b) f i t"]
      by (cases "map_of t k") (auto simp: mask_at_def remove_one_def map_of_retract) }
  { case 2 show ?case using Cons.IH(2) [of "remove_one svc (Some b) f i t"] by (simp add: remove_one_def) }
qed

lemma mask_at_insertions:
  "mask_at (fst (fold (insert_one svc now b og f) ids (t, n))) k =
     (if k \<in> (\<lambda>i. (f, i, svc)) ` set ids then Some (case mask_at t k of None \<Rightarrow> b | Some m \<Rightarrow> m OR b) else mask_at t k)"
  "keyed t \<Longrightarrow> keyed (fst (fold (insert_one svc now b og f) ids (t, n)))"
proof (induction ids arbitrary: t n)
  case Nil
  { case 1 show ?case by simp }
  { case 2 then show ?case by simp }
next
  case (Cons i ids)
  let ?t1 = "\<lambda>t n. fst (insert_one svc now b og f i (t, n))"
  have t1: "insert_one svc now b og f i (t, n) = (?t1 t n, Suc n)" for t n by (simp add: insert_one_def)
  have m: "mask_at (?t1 t n) k' = (if k' = (f, i, svc) then Some (case mask_at t k' of None \<Rightarrow> b | Some m \<Rightarrow> m OR b) else mask_at t k')"
    and key: "keyed t \<Longrightarrow> keyed (?t1 t n)" for k' t n
    by (auto simp: insert_one_def mask_at_def map_of_upsert split: option.splits)
  have idem: "(m OR b) OR b = m OR b" for m by (simp add: or.assoc)
  { case 1 show ?case using Cons.IH(1) [of "?t1 t n" "Suc n"] t1 [of t n] by (auto simp: m idem split: option.splits) }
  { case 2 then show ?case using Cons.IH(2) [of "?t1 t n" "Suc n"] t1 [of t n] by (simp add: key) }
qed

lemma supplies_mask: "supplies db svc c f t =
    (case map_of (c_tags db) t of None \<Rightarrow> False | Some i \<Rightarrow> (case mask_at (c_maps db) (f, i, svc) of None \<Rightarrow> False | Some m \<Rightarrow> m AND c \<noteq> 0))"
  by (auto simp: supplies_def rows_def mask_at_def split: option.split)

lemma merge_other_rows:
  assumes "snd (snd k) \<noteq> svc"
  shows "map_of (fold (remove_one svc (Some b) f) ids t) k = map_of t k"
    "map_of (fst (fold (insert_one svc now b og f) ids (t, n))) k = map_of t k"
proof -
  have no: "k \<noteq> (f, i, svc)" for i using assms by auto
  show "map_of (fold (remove_one svc (Some b) f) ids t) k = map_of t k"
    by (induction ids arbitrary: t) (simp_all add: remove_one_def map_of_retract no option.map_ident)
  show "map_of (fst (fold (insert_one svc now b og f) ids (t, n))) k = map_of t k"
    by (induction ids arbitrary: t n) (simp_all add: insert_one_def map_of_upsert no)
qed

lemma merge_file_spec:
  assumes "db_ok db" "ids_of db T new_ids" "b = domain_bit d"
    and f: "(case map_of (sa_resolved a) h of Some i \<Rightarrow> Some i | None \<Rightarrow> file_id_by_hash (sa_db a) h) = Some f"
    and ids: "(case map_of (sa_new_tags a) f of None \<Rightarrow> [] | Some l \<Rightarrow> l) = new_ids"
    and run: "merge_file svc now (Some b) a h (c_maps db, n) = (t', n')"
  shows "domain_step svc b (\<lambda>p s. if fst p = f then snd p \<in> T else s) db (db\<lparr>c_maps := t'\<rparr>)"
proof -
  note ok = db_okD [OF assms(1)]
  define current where "current = map (\<lambda>(k, r). key_tag k)
    (filter (\<lambda>(k, r). key_file k = f \<and> key_service k = svc \<and> in_scope (Some b) r) (c_maps db))"
  define t1 where "t1 = fold (remove_one svc (Some b) f) (filter (\<lambda>i. i \<notin> set new_ids) current) (c_maps db)"
  define t2 where "t2 = fst (fold (insert_one svc now b (sa_new_origin a) f) (filter (\<lambda>i. i \<notin> set current) new_ids) (t1, n))"
  have t': "t' = sql_delete (\<lambda>k r. key_service k = svc \<and> key_file k = f \<and> m_domains r = 0) t2"
  proof -
    obtain t2' n2 where "fold (insert_one svc now b (sa_new_origin a) f) (filter (\<lambda>i. i \<notin> set current) new_ids) (t1, n) = (t2', n2)"
      by fastforce
    moreover from this have "t2 = t2'" by (simp add: t2_def)
    ultimately show ?thesis
      using run unfolding merge_file_def f ids Let_def option.case prod.case current_def [symmetric] t1_def [symmetric] by simp
  qed
  have current: "i \<in> set current \<longleftrightarrow> (\<exists>m. mask_at (c_maps db) (f, i, svc) = Some m \<and> m AND b \<noteq> 0)" for i
  proof -
    have "i \<in> set current \<longleftrightarrow> (\<exists>r. ((f, i, svc), r) \<in> set (c_maps db) \<and> m_domains r AND b \<noteq> 0)"
      by (auto simp: current_def in_scope_def image_iff)
    then show ?thesis using ok(2) by (auto simp: mask_at_def keyed_def dest: map_of_SomeD intro: map_of_is_SomeI)
  qed
  have k1: "keyed t1" and k2: "keyed t2"
    using ok(2) by (simp_all add: t1_def t2_def mask_at_removals(2) mask_at_insertions(2))
  have m1: "mask_at t1 k = map_option (\<lambda>m. if k \<in> (\<lambda>i. (f, i, svc)) ` (set current - set new_ids) then m AND NOT b else m) (mask_at (c_maps db) k)" for k
    by (simp add: t1_def mask_at_removals(1) set_diff_eq)
  have m2: "mask_at t2 k = (if k \<in> (\<lambda>i. (f, i, svc)) ` (set new_ids - set current)
      then Some (case mask_at t1 k of None \<Rightarrow> b | Some m \<Rightarrow> m OR b) else mask_at t1 k)" for k
    by (simp add: t2_def mask_at_insertions(1) set_diff_eq)
  have m3: "mask_at t' k = (if snd (snd k) = svc \<and> fst k = f \<and> mask_at t2 k = Some 0 then None else mask_at t2 k)" for k
    by (auto simp: t' mask_at_def map_of_delete [OF k2] key_service_def key_file_def split: option.split)
  have out: "mask_at t' (g, i, s) = mask_at (c_maps db) (g, i, s)" if "g \<noteq> f \<or> s \<noteq> svc" for g i s
    using that by (auto simp: m3 m2 m1 option.map_ident image_iff)
  have inn: "mask_at t' (f, i, svc) = (let m0 = mask_at (c_maps db) (f, i, svc);
      m = (if i \<in> set new_ids then Some (case m0 of None \<Rightarrow> b | Some m \<Rightarrow> if m AND b \<noteq> 0 then m else m OR b)
           else map_option (\<lambda>m. if m AND b \<noteq> 0 then m AND NOT b else m) m0) in if m = Some 0 then None else m)" for i
  proof -
    have img: "(f, i, svc) \<in> (\<lambda>i. (f, i, svc)) ` S \<longleftrightarrow> i \<in> S" for S by auto
    show ?thesis
    proof (cases "mask_at (c_maps db) (f, i, svc)")
      case None
      then show ?thesis using current [of i] by (simp add: m3 m2 m1 img Let_def)
    next
      case (Some m)
      then show ?thesis using current [of i] by (cases "m AND b = 0") (simp_all add: m3 m2 m1 img Let_def)
    qed
  qed
  have zero: "mask_at (c_maps db) k \<noteq> Some 0" "mask_at t' k \<noteq> Some 0" for k
  proof -
    show "mask_at (c_maps db) k \<noteq> Some 0" using ok(4) by (auto simp: mask_at_def)
    obtain g i s where k: "k = (g, i, s)" by (rule prod_cases3)
    show "mask_at t' k \<noteq> Some 0"
    proof (cases "g \<noteq> f \<or> s \<noteq> svc")
      case True
      then show ?thesis using \<open>mask_at (c_maps db) k \<noteq> Some 0\<close> out by (simp add: k)
    next
      case False
      then show ?thesis using m3 [of k] by (auto simp: k)
    qed
  qed
  have keys: "key_tag k \<in> snd ` set (c_tags db) \<and> m_domains r \<noteq> 0" if "map_of t' k = Some r" for k r
  proof -
    obtain g i s where k: "k = (g, i, s)" by (rule prod_cases3)
    have "mask_at t' k \<noteq> None" using that by (simp add: mask_at_def)
    then have "mask_at (c_maps db) k \<noteq> None \<or> i \<in> set new_ids"
      using out [of g s i] inn [of i]
      by (cases "g \<noteq> f \<or> s \<noteq> svc"; cases "mask_at (c_maps db) k"; cases "i \<in> set new_ids") (simp_all add: k Let_def)
    moreover have "i \<in> snd ` set (c_tags db)" if "mask_at (c_maps db) k \<noteq> None"
      using ok(3) [of k] that by (auto simp: mask_at_def k)
    moreover have "i \<in> snd ` set (c_tags db)" if "i \<in> set new_ids"
      using assms(2) that map_of_snd unfolding ids_of_def by fast
    ultimately have "i \<in> snd ` set (c_tags db)" by blast
    then show ?thesis using zero(2) [of k] that by (simp add: k mask_at_def)
  qed
  have "keyed t'" using k2 by (simp add: t')
  from db_ok_maps [OF assms(1) this keys] have "db_ok (db\<lparr>c_maps := t'\<rparr>)" .
  moreover have "map_of t' (g, i, s) = map_of (c_maps db) (g, i, s)" if "s \<noteq> svc" for g i s
  proof -
    have "map_of t2 (g, i, s) = map_of (c_maps db) (g, i, s)"
      using that by (simp add: t2_def t1_def merge_other_rows del: fold_simps)
    then show ?thesis using that by (simp add: t' map_of_delete [OF k2] split: option.split)
  qed
  moreover have elsewhere: "supplies (db\<lparr>c_maps := t'\<rparr>) svc c g t = supplies db svc c g t" if "g \<noteq> f" for c g t
    using out that by (simp add: supplies_mask split: option.split)
  moreover have "supplies (db\<lparr>c_maps := t'\<rparr>) svc b f t \<longleftrightarrow> t \<in> T" for t
  proof (cases "map_of (c_tags db) t")
    case None
    then show ?thesis using assms(2) by (auto simp: supplies_mask ids_of_def)
  next
    case (Some i)
    have "i \<in> set new_ids \<longleftrightarrow> t \<in> T"
      using assms(2) Some ids.lookup_inj [OF ok(1)] unfolding ids_of_def by blast
    moreover have "b \<noteq> 0" using assms(3) by simp
    ultimately show ?thesis
      using mask_assert [of b] inn [of i] zero(1) [of "(f, i, svc)"]
      by (cases "mask_at (c_maps db) (f, i, svc)"; cases "i \<in> set new_ids") (simp_all add: supplies_mask Some Let_def)
  qed
  moreover have "supplies (db\<lparr>c_maps := t'\<rparr>) svc c g t = supplies db svc c g t" if "b AND c = 0" for c g t
  proof (cases "g \<noteq> f \<or> map_of (c_tags db) t = None")
    case True
    then show ?thesis using elsewhere by (cases "g = f") (simp_all add: supplies_mask)
  next
    case False
    then obtain i where i: "g = f" "map_of (c_tags db) t = Some i" by auto
    then show ?thesis
      using mask_other [OF that] mask_gone [OF _ that] mask_assert(2) [of b] \<open>b = domain_bit d\<close> inn [of i]
      by (cases "mask_at (c_maps db) (f, i, svc)"; cases "i \<in> set new_ids") (simp_all add: supplies_mask Let_def)
  qed
  ultimately show ?thesis by (simp add: domain_step_def rows_def cong: option.case_cong)
qed

text \<open>The whole second pass, with the dictionaries fixed.\<close>

definition scoped_pairs :: "client_db \<Rightarrow> hash list \<Rightarrow> tagged_entries \<Rightarrow> int \<times> tag \<Rightarrow> bool \<Rightarrow> bool" where
  "scoped_pairs db hashes entries p s =
     (case find (\<lambda>h. file_id_by_hash db h = Some (fst p)) hashes of
        None \<Rightarrow> s
      | Some h \<Rightarrow> snd p \<in> entry_tags entries h)"

lemma merge_files_spec:
  assumes "resolved db requested entries a" "set hashes \<subseteq> set requested" "db_ok db" "b = domain_bit d"
    "db_ok ((sa_db a)\<lparr>c_maps := t\<rparr>)" "fold (merge_file svc now (Some b) a) hashes (t, n) = (t', n')"
  shows "domain_step svc b (scoped_pairs db hashes entries) ((sa_db a)\<lparr>c_maps := t\<rparr>) ((sa_db a)\<lparr>c_maps := t'\<rparr>)"
  using assms
proof (induction hashes arbitrary: t n)
  case Nil
  then show ?case using domain_step_cong [OF domain_step_refl] by (simp add: scoped_pairs_def)
next
  case (Cons h hashes)
  let ?db = "\<lambda>t. (sa_db a)\<lparr>c_maps := t\<rparr>"
  obtain t1 n1 where step: "merge_file svc now (Some b) a h (t, n) = (t1, n1)" by fastforce
  have same: "file_id_by_hash (sa_db a) = file_id_by_hash db"
    using Cons.prems(1) by (simp add: resolved_def resolving_def same_library_file)
  have id: "(case map_of (sa_resolved a) h of Some i \<Rightarrow> Some i | None \<Rightarrow> file_id_by_hash (sa_db a) h) = file_id_by_hash db h"
    using Cons.prems(1) by (auto simp: resolved_def same split: option.split)
  let ?one = "\<lambda>p s. if file_id_by_hash db h = Some (fst p) then snd p \<in> entry_tags entries h else s"
  have one: "domain_step svc b ?one (?db t) (?db t1)"
  proof (cases "file_id_by_hash db h")
    case None
    then have "t1 = t" using step id by (simp add: merge_file_def)
    then show ?thesis using domain_step_cong [OF domain_step_refl [OF Cons.prems(5)]] None by simp
  next
    case (Some f)
    have "ids_of (sa_db a) (entry_tags entries h) (case map_of (sa_new_tags a) f of None \<Rightarrow> [] | Some l \<Rightarrow> l)"
      using Cons.prems(1,2) Some by (simp add: resolved_def)
    then have ids: "ids_of (?db t) (entry_tags entries h) (case map_of (sa_new_tags a) f of None \<Rightarrow> [] | Some l \<Rightarrow> l)"
      by (simp add: ids_of_def)
    show ?thesis
      using domain_step_cong [OF merge_file_spec [OF Cons.prems(5) ids Cons.prems(4) id [unfolded Some] refl, of svc now n t1 n1]] step
      by (auto simp: Some)
  qed
  have rest: "domain_step svc b (scoped_pairs db hashes entries) (?db t1) (?db t')"
    by (rule Cons.IH) (use Cons.prems one step in \<open>auto simp: domain_step_ok\<close>)
  show ?case
    by (rule domain_step_cong [OF domain_step_trans [OF one rest]])
      (auto simp: scoped_pairs_def find_None_iff split: option.split dest!: find_Some_iff [THEN iffD1] dest: file_id_by_hash_inj [OF Cons.prems(3)])
qed

lemma files_merge_step:
  assumes "db_ok db" "merge_pulled_mappings_for_files_in_domain db now svc hashes d entries = (db', st)"
  shows "domain_step svc (domain_bit d) (scoped_pairs db hashes entries) db db'"
proof -
  define a where "a = fold (resolve_entry hashes) entries
    \<lparr>sa_db = db, sa_pending = [], sa_origins = [], sa_resolved = [], sa_new_tags = [], sa_new_origin = [], sa_matched = 0\<rparr>"
  obtain t n where run: "fold (merge_file svc now (Some (domain_bit d)) a) hashes (c_maps (sa_db a), 0) = (t, n)" by fastforce
  have db': "db' = (sa_db a)\<lparr>c_maps := t\<rparr>"
    using assms(2) run by (simp add: merge_pulled_mappings_for_files_in_domain_def merge_for_files_masked_def a_def Let_def)
  have res: "resolved db hashes entries a" unfolding a_def by (rule resolve_entries_spec [OF assms(1)])
  have first: "rows (sa_db a) = rows db" "same_library db (sa_db a)" "db_ok (sa_db a)"
    using res by (simp_all add: resolved_def resolving_def)
  have "domain_step svc (domain_bit d) (scoped_pairs db hashes entries) (sa_db a) db'"
    using merge_files_spec [OF res subset_refl assms(1) refl _ run] first(3) by (simp add: db')
  then show ?thesis by (rule domain_step_rows [OF first(1,2)])
qed

text \<open>
  C21. The merge of some files in one domain.  It is authoritative for the requested files the library owns: the
  domain supplies for such a file exactly the tags of the last entry for its hash, none if there is no entry.
  What it supplies for other files, what other domains supply, and other services' rows, is as before; no row is
  left that no domain supplies.
\<close>

theorem files_merge_exact:
  assumes "db_ok db" "merge_pulled_mappings_for_files_in_domain db now svc hashes d entries = (db', st)"
  shows "db_ok db' \<and>
    (\<forall>f t. supplies db' svc (domain_bit d) f t \<longleftrightarrow>
      (case find (\<lambda>h. file_id_by_hash db h = Some f) hashes of
         None \<Rightarrow> supplies db svc (domain_bit d) f t
       | Some h \<Rightarrow> t \<in> entry_tags entries h)) \<and>
    (\<forall>c f t. domain_bit d AND c = 0 \<longrightarrow> supplies db' svc c f t = supplies db svc c f t) \<and>
    (\<forall>f t s. s \<noteq> svc \<longrightarrow> rows db' (f, t, s) = rows db (f, t, s))"
  using files_merge_step [OF assms] by (simp add: domain_step_def scoped_pairs_def cong: option.case_cong)

corollary files_merge_exact_witness:
  "supplies (fst (merge_pulled_mappings_for_files_in_domain sample_library 9 7 [[1]] (lit ''blake3'') [([1], [(sample_tag 2, None)])])) 7 1 1 (sample_tag 2) \<and>
   \<not> supplies (fst (merge_pulled_mappings_for_files_in_domain sample_library 9 7 [[1]] (lit ''blake3'') [([1], [(sample_tag 2, None)])])) 7 1 1 (sample_tag 1) \<and>
   supplies (fst (merge_pulled_mappings_for_files_in_domain sample_library 9 7 [[1]] (lit ''blake3'') [([1], [(sample_tag 2, None)])])) 7 2 1 (sample_tag 1)"
proof -
  let ?e = "[([1], [(sample_tag 2, None)])]"
  obtain db' st where run: "merge_pulled_mappings_for_files_in_domain sample_library 9 7 [[1]] (lit ''blake3'') ?e = (db', st)" by fastforce
  have "(2 :: 64 word) AND 1 = 0" "supplies sample_library 7 2 1 (sample_tag 1)" by (simp, rule sample_supplies(2))
  then show ?thesis using files_merge_exact [OF sample_ok run]
    by (simp add: run entry_tags_def del: lit_Cons)
qed

end
