(* ===== verification/Worklist.thy ===== *)
theory Worklist
  imports Prelude
begin

text \<open>
  The contract of a worklist closure: a loop that takes a node off a list, adds the node's
  successors that it has not seen to the result and to the list, and ends when the list is
  empty.  The order in which nodes are taken (stack or queue) is not part of the contract.
  \<open>CoreRelations\<close> interprets it twice, for the depth-first loop of \<open>effective_tags\<close> and for
  the breadth-first loop of \<open>match_set\<close>.
\<close>

definition edges_of :: "('a \<Rightarrow> 'a list) \<Rightarrow> ('a \<times> 'a) set" where
  "edges_of succ = {(x, y). y \<in> set (succ x)}"

locale worklist_loop =
  fixes succ :: "'a \<Rightarrow> 'a list"
    and visit :: "'a \<Rightarrow> 'a set \<times> 'a list \<Rightarrow> 'a set \<times> 'a list"
    and run :: "'a set \<times> 'a list \<Rightarrow> 'a set"
    and size_of :: "'a set \<times> 'a list \<Rightarrow> nat"
  assumes run_Nil: "run (res, []) = res"
    and run_Cons: "run (res, x # wl) = run (visit x (res, wl))"
    and visit_fst: "fst (visit x (res, wl)) = res \<union> set (succ x)"
    and visit_snd: "set (snd (visit x (res, wl))) = set wl \<union> (set (succ x) - res)"
    and visit_decr: "size_of (visit x (res, wl)) < size_of (res, x # wl)"
begin

text \<open>The loop invariant: what is not on the list any more has its successors in the result.\<close>

definition closed_but :: "'a set \<times> 'a list \<Rightarrow> bool" where
  "closed_but st \<longleftrightarrow> set (snd st) \<subseteq> fst st \<and> (\<forall>x\<in>fst st - set (snd st). set (succ x) \<subseteq> fst st)"

lemma visit_closed: "closed_but (res, x # wl) \<Longrightarrow> closed_but (visit x (res, wl))"
  unfolding closed_but_def visit_fst visit_snd by auto

lemma run_step_closure:
  "closed_but (res, x # wl) \<Longrightarrow> (edges_of succ)\<^sup>* `` (res \<union> set (succ x)) = (edges_of succ)\<^sup>* `` res"
  by (auto simp: closed_but_def edges_of_def intro: converse_rtrancl_into_rtrancl)

lemma closed_rtrancl: "(x, y) \<in> (edges_of succ)\<^sup>* \<Longrightarrow> x \<in> res \<Longrightarrow> \<forall>x\<in>res. set (succ x) \<subseteq> res \<Longrightarrow> y \<in> res"
  by (induction rule: rtrancl_induct) (auto simp: edges_of_def)

theorem run_closure: "closed_but st \<Longrightarrow> run st = (edges_of succ)\<^sup>* `` fst st"
proof (induction st rule: measure_induct_rule [of size_of])
  case (less st)
  obtain res wl where st: "st = (res, wl)" by fastforce
  show ?case
  proof (cases wl)
    case Nil
    then have "\<forall>x\<in>res. set (succ x) \<subseteq> res" using less.prems st by (simp add: closed_but_def)
    then show ?thesis using Nil st closed_rtrancl by (auto simp: run_Nil)
  next
    case (Cons x wl')
    have c: "closed_but (res, x # wl')" using less.prems st Cons by simp
    have "run (visit x (res, wl')) = (edges_of succ)\<^sup>* `` fst (visit x (res, wl'))"
      using less.IH visit_decr visit_closed [OF c] st Cons by blast
    then show ?thesis using st Cons run_step_closure [OF c] by (simp add: run_Cons visit_fst)
  qed
qed

end

end
