(* ===== verification/CoreRelations.thy ===== *)
theory CoreRelations
  imports Worklist
begin

text \<open>
  \<open>crates/core/src/relations.rs\<close>: query-time application of tag relations.  Tag ids are
  \<open>i64\<close>; the \<open>HashMap\<close>s are association lists with unique keys.  \<open>canonicalize\<close> follows
  sibling edges and breaks cycles, \<open>effective_tags\<close> closes a tag set upwards through parents,
  \<open>match_set\<close> closes a query downwards.  The two closure loops are interpretations of one
  worklist locale; the lemmas show that they are inverse to each other.
\<close>

type_synonym tag_id = int
type_synonym sibling_edges = "(tag_id \<times> tag_id) list"
type_synonym parent_edges = "(tag_id \<times> tag_id list) list"

section \<open>Canonical tags\<close>

text \<open>
  The walk of \<open>cycle_min\<close> ends only when \<open>start\<close> lies on a cycle or the chain ends, so it is
  a partial function: \<open>None\<close> would be a walk that does not return.
\<close>

partial_function (option) cycle_min_loop ::
  "sibling_edges \<Rightarrow> tag_id \<Rightarrow> tag_id \<Rightarrow> tag_id \<Rightarrow> tag_id option" where
  "cycle_min_loop siblings start m current =
     (case map_of siblings current of
        None \<Rightarrow> Some m
      | Some nxt \<Rightarrow> if nxt = start then Some m else cycle_min_loop siblings start (min m nxt) nxt)"

definition cycle_min :: "tag_id \<Rightarrow> sibling_edges \<Rightarrow> tag_id option" where
  "cycle_min start siblings = cycle_min_loop siblings start start start"

function canonicalize_loop :: "sibling_edges \<Rightarrow> tag_id list \<Rightarrow> tag_id \<Rightarrow> tag_id option" where
  "canonicalize_loop siblings visited current =
     (case map_of siblings current of
        None \<Rightarrow> Some current
      | Some nxt \<Rightarrow>
          if current \<in> set visited then cycle_min current siblings
          else canonicalize_loop siblings (current # visited) nxt)"
  by pat_completeness auto

lemma visited_shrinks:
  assumes "map_of siblings c = Some n" "c \<notin> set visited"
  shows "card (fst ` set siblings - insert c (set visited)) < card (fst ` set siblings - set visited)"
proof (rule psubset_card_mono)
  have "c \<in> fst ` set siblings" using assms(1) by (metis domI dom_map_of_conv_image_fst)
  then show "fst ` set siblings - insert c (set visited) \<subset> fst ` set siblings - set visited"
    using assms(2) by blast
qed simp

termination canonicalize_loop
  by (relation "measure (\<lambda>(siblings, visited, c). card (fst ` set siblings - set visited))")
    (auto simp: visited_shrinks)

declare canonicalize_loop.simps [simp del]

text \<open>\<open>canonicalize_runs\<close> below shows that the run always returns a value.\<close>

definition canonicalize_run :: "tag_id \<Rightarrow> sibling_edges \<Rightarrow> tag_id option" where
  "canonicalize_run t siblings = canonicalize_loop siblings [] t"

definition canonicalize :: "tag_id \<Rightarrow> sibling_edges \<Rightarrow> tag_id" where
  "canonicalize t siblings = the (canonicalize_run t siblings)"

section \<open>Effective tags\<close>

text \<open>
  \<open>for t in ts { let c = canonicalize(t); if result.insert(c) { worklist.push(c) } }\<close>; the
  worklist is a stack whose top is the head of the list.
\<close>

fun insert_new :: "sibling_edges \<Rightarrow> tag_id list \<Rightarrow> tag_id set \<times> tag_id list \<Rightarrow> tag_id set \<times> tag_id list" where
  "insert_new siblings [] (result, worklist) = (result, worklist)"
| "insert_new siblings (t # ts) (result, worklist) =
     (let c = canonicalize t siblings
      in if c \<in> result then insert_new siblings ts (result, worklist)
         else insert_new siblings ts (insert c result, c # worklist))"

definition vec_values :: "('k \<times> 'v list) list \<Rightarrow> 'v set" where
  "vec_values m = (\<Union>kv\<in>set m. set (snd kv))"

lemma finite_vec_values [simp]: "finite (vec_values m)"
  by (simp add: vec_values_def)

lemma get_vec_values: "set (get_vec m k) \<subseteq> vec_values m"
proof (cases "map_of m k")
  case (Some v)
  then show ?thesis using map_of_SomeD [OF Some] by (auto simp: get_vec_def vec_values_def intro!: bexI)
qed (simp add: get_vec_def)

lemma card_insert_swap:
  "finite U \<Longrightarrow> c \<in> U \<Longrightarrow> c \<notin> res \<Longrightarrow> card (U - res) = Suc (card (U - insert c res))"
  by (metis Diff_iff Diff_insert card_Suc_Diff1 finite_Diff)

lemma insert_new_measure:
  assumes "finite U"
  shows "(\<lambda>t. canonicalize t siblings) ` set ts \<subseteq> U \<Longrightarrow> insert_new siblings ts (res, wl) = (res', wl') \<Longrightarrow>
    card (U - res') + length wl' = card (U - res) + length wl"
proof (induction ts arbitrary: res wl)
  case (Cons t ts)
  define c where "c = canonicalize t siblings"
  have c: "c \<in> U" using Cons.prems by (simp add: c_def)
  show ?case
  proof (cases "c \<in> res")
    case True
    then show ?thesis using Cons by (simp add: c_def)
  next
    case False
    have "card (U - res') + length wl' = card (U - insert c res) + length (c # wl)"
      using Cons.prems False by (intro Cons.IH) (simp_all add: c_def Let_def)
    then show ?thesis using card_insert_swap [OF assms c False] by simp
  qed
qed simp

function expand_parents :: "sibling_edges \<Rightarrow> parent_edges \<Rightarrow> tag_id set \<times> tag_id list \<Rightarrow> tag_id set" where
  "expand_parents siblings parents (result, []) = result"
| "expand_parents siblings parents (result, tag # worklist) =
     expand_parents siblings parents (insert_new siblings (get_vec parents tag) (result, worklist))"
  by pat_completeness auto

definition expand_measure :: "sibling_edges \<Rightarrow> parent_edges \<Rightarrow> tag_id set \<times> tag_id list \<Rightarrow> nat" where
  "expand_measure siblings parents st =
     card ((\<lambda>p. canonicalize p siblings) ` vec_values parents - fst st) + length (snd st)"

lemma expand_measure_decr:
  "expand_measure siblings parents (insert_new siblings (get_vec parents tag) (res, wl))
    < expand_measure siblings parents (res, tag # wl)"
proof -
  obtain res' wl' where st: "insert_new siblings (get_vec parents tag) (res, wl) = (res', wl')" by fastforce
  show ?thesis
    using insert_new_measure [OF _ _ st, of "(\<lambda>p. canonicalize p siblings) ` vec_values parents"]
      get_vec_values [of parents tag]
    by (simp add: expand_measure_def st image_mono)
qed

termination expand_parents
  by (relation "measure (\<lambda>(siblings, parents, st). expand_measure siblings parents st)")
    (simp_all add: expand_measure_decr)

declare expand_parents.simps [simp del]

definition effective_tags :: "tag_id list \<Rightarrow> sibling_edges \<Rightarrow> parent_edges \<Rightarrow> tag_id set" where
  "effective_tags raw siblings parents = expand_parents siblings parents (insert_new siblings raw ({}, []))"

section \<open>The relation graph\<close>

record relation_capped =
  rc_ids :: "tag_id list"
  rc_total :: nat

record relation_sections =
  rs_aliases :: relation_capped
  rs_parents :: relation_capped
  rs_children :: relation_capped

record relation_graph =
  g_siblings :: sibling_edges
  g_parents :: parent_edges
  g_reverse_parents :: "(tag_id \<times> tag_id list) list"
  g_sibling_preimage :: "(tag_id \<times> tag_id list) list"

definition cap_ids :: "tag_id list \<Rightarrow> nat \<Rightarrow> relation_capped" where
  "cap_ids ids cap = \<lparr>rc_ids = take cap ids, rc_total = length ids\<rparr>"

definition reverse_parents_of :: "sibling_edges \<Rightarrow> parent_edges \<Rightarrow> (tag_id \<times> tag_id list) list" where
  "reverse_parents_of siblings parents =
     fold (\<lambda>(child, ancestors) rp.
         let cc = canonicalize child siblings
         in if cc \<noteq> child then rp
            else fold (\<lambda>ancestor rp. push_entry (canonicalize ancestor siblings) cc rp) ancestors rp)
       parents []"

definition sibling_preimage_of :: "sibling_edges \<Rightarrow> (tag_id \<times> tag_id list) list" where
  "sibling_preimage_of siblings =
     fold (\<lambda>bad sp.
         let canon = canonicalize bad siblings
         in if canon \<noteq> bad then push_entry canon bad sp else sp)
       (map fst siblings) []"

definition graph_new :: "sibling_edges \<Rightarrow> parent_edges \<Rightarrow> relation_graph" where
  "graph_new siblings parents =
     \<lparr>g_siblings = siblings, g_parents = parents,
      g_reverse_parents = reverse_parents_of siblings parents,
      g_sibling_preimage = sibling_preimage_of siblings\<rparr>"

definition graph_empty :: relation_graph where
  "graph_empty = graph_new [] []"

definition has_relations :: "relation_graph \<Rightarrow> tag_id \<Rightarrow> bool" where
  "has_relations g t =
     (let c = canonicalize t (g_siblings g);
          has_alias = (get_vec (g_sibling_preimage g) c \<noteq> []);
          has_parent = list_ex (\<lambda>p. canonicalize p (g_siblings g) \<noteq> c) (get_vec (g_parents g) c);
          has_child = list_ex (\<lambda>ch. ch \<noteq> c) (get_vec (g_reverse_parents g) c)
      in has_alias \<or> has_parent \<or> has_child)"

definition relations_of :: "relation_graph \<Rightarrow> tag_id \<Rightarrow> nat \<Rightarrow> relation_sections" where
  "relations_of g t cap =
     (let c = canonicalize t (g_siblings g);
          aliases = sort (get_vec (g_sibling_preimage g) c);
          parents = sorted_list_of_set (set (filter (\<lambda>p. p \<noteq> c)
            (map (\<lambda>p. canonicalize p (g_siblings g)) (get_vec (g_parents g) c))));
          children = sorted_list_of_set (set (filter (\<lambda>ch. ch \<noteq> c) (get_vec (g_reverse_parents g) c)))
      in \<lparr>rs_aliases = cap_ids aliases cap, rs_parents = cap_ids parents cap,
          rs_children = cap_ids children cap\<rparr>)"

section \<open>Match sets\<close>

text \<open>The body of the breadth-first loop: \<open>queue.push_back\<close> of every new child.\<close>

fun enqueue_new :: "tag_id list \<Rightarrow> tag_id set \<times> tag_id list \<Rightarrow> tag_id set \<times> tag_id list" where
  "enqueue_new [] (sources, queue) = (sources, queue)"
| "enqueue_new (child # cs) (sources, queue) =
     (if child \<in> sources then enqueue_new cs (sources, queue)
      else enqueue_new cs (insert child sources, queue @ [child]))"

lemma enqueue_new_measure:
  assumes "finite U"
  shows "set cs \<subseteq> U \<Longrightarrow> enqueue_new cs (res, wl) = (res', wl') \<Longrightarrow>
    card (U - res') + length wl' = card (U - res) + length wl"
proof (induction cs arbitrary: res wl)
  case (Cons c cs)
  show ?case
  proof (cases "c \<in> res")
    case True
    then show ?thesis using Cons by simp
  next
    case False
    have "card (U - res') + length wl' = card (U - insert c res) + length (wl @ [c])"
      using Cons.prems False by (intro Cons.IH) simp_all
    then show ?thesis using card_insert_swap [OF assms _ False] Cons.prems by simp
  qed
qed simp

definition bfs_measure :: "(tag_id \<times> tag_id list) list \<Rightarrow> tag_id set \<times> tag_id list \<Rightarrow> nat" where
  "bfs_measure rp st = card (vec_values rp - fst st) + length (snd st)"

lemma bfs_measure_decr:
  "bfs_measure rp (enqueue_new (get_vec rp tag) (res, wl)) < bfs_measure rp (res, tag # wl)"
proof -
  obtain res' wl' where st: "enqueue_new (get_vec rp tag) (res, wl) = (res', wl')" by fastforce
  show ?thesis
    using enqueue_new_measure [OF finite_vec_values get_vec_values st] by (simp add: bfs_measure_def st)
qed

function bfs :: "(tag_id \<times> tag_id list) list \<Rightarrow> tag_id set \<times> tag_id list \<Rightarrow> tag_id set" where
  "bfs rp (sources, []) = sources"
| "bfs rp (sources, tag # queue) = bfs rp (enqueue_new (get_vec rp tag) (sources, queue))"
  by pat_completeness auto

termination bfs
  by (relation "measure (\<lambda>(rp, st). bfs_measure rp st)") (simp_all add: bfs_measure_decr)

declare bfs.simps [simp del]

definition graph_match_set :: "relation_graph \<Rightarrow> tag_id \<Rightarrow> tag_id set" where
  "graph_match_set g query =
     (let qc = canonicalize query (g_siblings g);
          sources = bfs (g_reverse_parents g) ({qc}, [qc])
      in \<Union>source\<in>sources. insert source (set (get_vec (g_sibling_preimage g) source)))"

definition match_set :: "tag_id \<Rightarrow> sibling_edges \<Rightarrow> parent_edges \<Rightarrow> tag_id set" where
  "match_set query siblings parents =
     (let qc = canonicalize query siblings;
          reverse_parents = reverse_parents_of siblings parents;
          sources = bfs reverse_parents ({qc}, [qc]);
          sibling_preimage = sibling_preimage_of siblings
      in \<Union>source\<in>sources. insert source (set (get_vec sibling_preimage source)))"

section \<open>What canonicalize returns\<close>

definition sib_edges :: "sibling_edges \<Rightarrow> (tag_id \<times> tag_id) set" where
  "sib_edges siblings = {(x, y). map_of siblings x = Some y}"

lemma sib_edges_det: "(x, y) \<in> sib_edges s \<Longrightarrow> (x, z) \<in> sib_edges s \<Longrightarrow> y = z"
  by (simp add: sib_edges_def)

text \<open>
  The canonical form of a tag: where its sibling chain ends, or the lowest id of the cycle
  that the chain runs into.
\<close>

definition is_canonical :: "sibling_edges \<Rightarrow> tag_id \<Rightarrow> tag_id \<Rightarrow> bool" where
  "is_canonical s t c \<longleftrightarrow> (t, c) \<in> (sib_edges s)\<^sup>* \<and>
     (map_of s c = None \<or> (c, c) \<in> (sib_edges s)\<^sup>+ \<and> (\<forall>y. (c, y) \<in> (sib_edges s)\<^sup>* \<longrightarrow> c \<le> y))"

lemma det_confluent:
  "(x, y) \<in> (sib_edges s)\<^sup>* \<Longrightarrow> (x, z) \<in> (sib_edges s)\<^sup>* \<Longrightarrow> (y, z) \<in> (sib_edges s)\<^sup>* \<or> (z, y) \<in> (sib_edges s)\<^sup>*"
proof (induction rule: rtrancl_induct)
  case (step y y')
  from step.IH [OF step.prems] show ?case
  proof
    assume "(y, z) \<in> (sib_edges s)\<^sup>*"
    then show ?thesis using step.hyps(2) sib_edges_det
      by (metis converse_rtranclE r_into_rtrancl)
  next
    assume "(z, y) \<in> (sib_edges s)\<^sup>*"
    then show ?thesis using step.hyps(2) by (meson rtrancl.rtrancl_into_rtrancl)
  qed
qed simp

lemma cycle_back:
  assumes "(c, y) \<in> (sib_edges s)\<^sup>*" "(c, c) \<in> (sib_edges s)\<^sup>+"
  shows "(y, c) \<in> (sib_edges s)\<^sup>* \<and> (y, y) \<in> (sib_edges s)\<^sup>+"
  using assms(1)
proof (induction rule: rtrancl_induct)
  case base
  then show ?case using assms(2) by simp
next
  case (step y z)
  then obtain w where "(y, w) \<in> sib_edges s" "(w, y) \<in> (sib_edges s)\<^sup>*" by (meson tranclD)
  then have w: "(z, y) \<in> (sib_edges s)\<^sup>*" using step.hyps(2) sib_edges_det by metis
  then show ?case using step by (meson rtrancl_into_trancl1 rtrancl_trans)
qed

lemma terminal_stays: "map_of s c = None \<Longrightarrow> (c, y) \<in> (sib_edges s)\<^sup>* \<Longrightarrow> y = c"
  by (erule converse_rtranclE) (auto simp: sib_edges_def)

lemma is_canonical_unique:
  assumes "is_canonical s t c" "is_canonical s t d"
  shows "c = d"
proof -
  have one: "c = d" if c: "is_canonical s t c" and d: "is_canonical s t d" and r: "(c, d) \<in> (sib_edges s)\<^sup>*" for c d
  proof (cases "map_of s c")
    case None
    then show ?thesis using terminal_stays r by metis
  next
    case (Some n)
    then have cyc: "(c, c) \<in> (sib_edges s)\<^sup>+" and le: "c \<le> d" using c r by (auto simp: is_canonical_def)
    have bk: "(d, c) \<in> (sib_edges s)\<^sup>*" "(d, d) \<in> (sib_edges s)\<^sup>+" using cycle_back [OF r cyc] by auto
    then have "map_of s d \<noteq> None" by (auto dest: tranclD simp: sib_edges_def)
    then have "d \<le> c" using d bk(1) by (auto simp: is_canonical_def)
    with le show ?thesis by simp
  qed
  have "(t, c) \<in> (sib_edges s)\<^sup>*" "(t, d) \<in> (sib_edges s)\<^sup>*" using assms by (simp_all add: is_canonical_def)
  then show ?thesis using det_confluent one assms by metis
qed

lemma cycle_min_loop_ok:
  assumes "(current, start) \<in> (sib_edges s)\<^sup>+"
  shows "\<exists>r A. cycle_min_loop s start m current = Some r \<and> (\<forall>a\<in>A. (current, a) \<in> (sib_edges s)\<^sup>*) \<and>
    finite A \<and> r = Min (insert m A) \<and> (\<forall>x\<in>insert current A. \<forall>y. (x, y) \<in> sib_edges s \<longrightarrow> y \<in> insert start A)"
  using assms
proof (induction arbitrary: m rule: converse_trancl_induct)
  case (base y)
  then have "cycle_min_loop s start m y = Some m"
    by (subst cycle_min_loop.simps) (simp add: sib_edges_def)
  then show ?case using base sib_edges_det
    by (intro exI [of _ m] exI [of _ "{}"]) auto
next
  case (step y z)
  show ?case
  proof (cases "z = start")
    case True
    then have "cycle_min_loop s start m y = Some m" using step.hyps(1)
      by (subst cycle_min_loop.simps) (simp add: sib_edges_def)
    then show ?thesis using step.hyps(1) True sib_edges_det
      by (intro exI [of _ m] exI [of _ "{}"]) auto
  next
    case False
    obtain r A where r: "cycle_min_loop s start (min m z) z = Some r" "\<forall>a\<in>A. (z, a) \<in> (sib_edges s)\<^sup>*"
      "finite A" "r = Min (insert (min m z) A)"
      "\<forall>x\<in>insert z A. \<forall>y. (x, y) \<in> sib_edges s \<longrightarrow> y \<in> insert start A"
      using step.IH [of "min m z"] by auto
    have "cycle_min_loop s start m y = Some r" using step.hyps(1) False r(1)
      by (subst cycle_min_loop.simps) (simp add: sib_edges_def)
    moreover have "Min (insert (min m z) A) = Min (insert m (insert z A))"
      using r(3) by (cases "A = {}") (auto simp: min.assoc)
    ultimately show ?thesis using r step.hyps(1) sib_edges_det
      by (intro exI [of _ r] exI [of _ "insert z A"]) (auto intro: converse_rtrancl_into_rtrancl)
  qed
qed

lemma cycle_min_ok:
  assumes "(c, c) \<in> (sib_edges s)\<^sup>+"
  shows "\<exists>r. cycle_min c s = Some r \<and> is_canonical s c r"
proof -
  obtain r A where r: "cycle_min_loop s c c c = Some r" "\<forall>a\<in>A. (c, a) \<in> (sib_edges s)\<^sup>*"
    "finite A" "r = Min (insert c A)" "\<forall>x\<in>insert c A. \<forall>y. (x, y) \<in> sib_edges s \<longrightarrow> y \<in> insert c A"
    using cycle_min_loop_ok [OF assms, of c] by auto
  have "y \<in> insert c A" if "(c, y) \<in> (sib_edges s)\<^sup>*" for y
    using that by (induction rule: rtrancl_induct) (use r(5) in auto)
  then have le: "r \<le> y" if "(c, y) \<in> (sib_edges s)\<^sup>*" for y
    using that r(3,4) by simp
  have "r \<in> insert c A" using r(3,4) Min_in [of "insert c A"] by simp
  then have reach: "(c, r) \<in> (sib_edges s)\<^sup>*" using r(2) by auto
  then have "(r, r) \<in> (sib_edges s)\<^sup>+" using cycle_back [OF reach assms] by simp
  moreover have "r \<le> y" if "(r, y) \<in> (sib_edges s)\<^sup>*" for y using le reach that by (meson rtrancl_trans)
  ultimately show ?thesis using r(1) reach by (auto simp: cycle_min_def is_canonical_def)
qed

lemma canonicalize_loop_ok:
  "\<forall>v\<in>set visited. (v, current) \<in> (sib_edges s)\<^sup>+ \<Longrightarrow>
    \<exists>r. canonicalize_loop s visited current = Some r \<and> is_canonical s current r"
proof (induction s visited current rule: canonicalize_loop.induct)
  case (1 s visited current)
  show ?case
  proof (cases "map_of s current")
    case None
    then show ?thesis by (subst canonicalize_loop.simps) (simp add: is_canonical_def)
  next
    case (Some nxt)
    show ?thesis
    proof (cases "current \<in> set visited")
      case True
      then show ?thesis using Some 1(2) cycle_min_ok
        by (subst canonicalize_loop.simps) simp
    next
      case False
      have e: "(current, nxt) \<in> sib_edges s" using Some by (simp add: sib_edges_def)
      then have "\<forall>v\<in>set (current # visited). (v, nxt) \<in> (sib_edges s)\<^sup>+"
        using 1(2) by (auto intro: trancl_into_trancl)
      then obtain r where "canonicalize_loop s (current # visited) nxt = Some r" "is_canonical s nxt r"
        using 1(1) [OF Some False] by blast
      then show ?thesis using Some False e
        by (subst canonicalize_loop.simps) (auto simp: is_canonical_def intro: converse_rtrancl_into_rtrancl)
    qed
  qed
qed

lemma canonicalize_runs: "canonicalize_run t s = Some (canonicalize t s)"
    and canonicalize_canonical: "is_canonical s t (canonicalize t s)"
  using canonicalize_loop_ok [of "[]" t s] by (auto simp: canonicalize_run_def canonicalize_def)

lemma canonicalize_eqI: "is_canonical s t c \<Longrightarrow> canonicalize t s = c"
  using is_canonical_unique canonicalize_canonical by blast

lemma canonicalize_idem [simp]: "canonicalize (canonicalize t s) s = canonicalize t s"
  using canonicalize_canonical [of s t] by (intro canonicalize_eqI) (auto simp: is_canonical_def)

lemma canonicalize_sibling: "map_of s bad = Some ideal \<Longrightarrow> canonicalize bad s = canonicalize ideal s"
  using canonicalize_canonical [of s ideal]
  by (intro canonicalize_eqI)
    (auto simp: is_canonical_def sib_edges_def intro: converse_rtrancl_into_rtrancl)

lemma canonicalize_no_sibling: "map_of s t = None \<Longrightarrow> canonicalize t s = t"
  by (intro canonicalize_eqI) (simp add: is_canonical_def)

lemma canonicalize_not_key: "canonicalize t s \<noteq> t \<Longrightarrow> t \<in> fst ` set s"
  using canonicalize_no_sibling [of s t] by (auto simp: map_of_eq_None_iff)

section \<open>The closures as worklist loops\<close>

lemma insert_new_sets:
  "fst (insert_new s ts (res, wl)) = res \<union> (\<lambda>t. canonicalize t s) ` set ts \<and>
   set (snd (insert_new s ts (res, wl))) = set wl \<union> ((\<lambda>t. canonicalize t s) ` set ts - res)"
  by (induction ts arbitrary: res wl) (auto simp: Let_def)

lemma enqueue_new_sets:
  "fst (enqueue_new cs (res, wl)) = res \<union> set cs \<and> set (snd (enqueue_new cs (res, wl))) = set wl \<union> (set cs - res)"
  by (induction cs arbitrary: res wl) auto

definition parent_succ :: "sibling_edges \<Rightarrow> parent_edges \<Rightarrow> tag_id \<Rightarrow> tag_id list" where
  "parent_succ s ps t = map (\<lambda>p. canonicalize p s) (get_vec ps t)"

interpretation up: worklist_loop "parent_succ s ps" "\<lambda>t. insert_new s (get_vec ps t)"
  "expand_parents s ps" "expand_measure s ps" for s ps
  by unfold_locales (simp_all add: expand_parents.simps insert_new_sets parent_succ_def expand_measure_decr)

interpretation down: worklist_loop "get_vec rp" "\<lambda>t. enqueue_new (get_vec rp t)" "bfs rp" "bfs_measure rp"
  for rp
  by unfold_locales (simp_all add: bfs.simps enqueue_new_sets bfs_measure_decr)

text \<open>A parent edge between canonical tags, as \<open>effective_tags\<close> fires it.\<close>

abbreviation implies :: "sibling_edges \<Rightarrow> parent_edges \<Rightarrow> (tag_id \<times> tag_id) set" where
  "implies s ps \<equiv> edges_of (parent_succ s ps)"

lemma effective_tags_closure:
  "effective_tags raw s ps = (implies s ps)\<^sup>* `` ((\<lambda>t. canonicalize t s) ` set raw)"
proof -
  obtain res wl where st: "insert_new s raw ({}, []) = (res, wl)" by fastforce
  then have "res = (\<lambda>t. canonicalize t s) ` set raw" "set wl = res"
    using insert_new_sets [of s raw "{}" "[]"] by simp_all
  then show ?thesis unfolding effective_tags_def st
    by (subst up.run_closure) (simp_all add: up.closed_but_def)
qed

lemma push_ancestors:
  "x \<in> set (get_vec (fold (\<lambda>a rp. push_entry (f a) cc rp) as rp) k) \<longleftrightarrow>
    x \<in> set (get_vec rp k) \<or> x = cc \<and> (\<exists>a\<in>set as. f a = k)"
  by (induction as arbitrary: rp) (simp_all add: get_vec_push, blast)

lemma reverse_parents_fold:
  "x \<in> set (get_vec (fold (\<lambda>(child, ancestors) rp.
         let cc = canonicalize child s
         in if cc \<noteq> child then rp
            else fold (\<lambda>ancestor rp. push_entry (canonicalize ancestor s) cc rp) ancestors rp) ps rp) k) \<longleftrightarrow>
    x \<in> set (get_vec rp k) \<or>
    canonicalize x s = x \<and> (\<exists>as. (x, as) \<in> set ps \<and> (\<exists>a\<in>set as. canonicalize a s = k))"
proof (induction ps arbitrary: rp)
  case (Cons kv ps)
  obtain child as where kv: "kv = (child, as)" by fastforce
  show ?case using Cons.IH by (auto simp: kv Let_def push_ancestors)
qed simp

text \<open>The reverse index holds exactly the firing edges, turned round.\<close>

lemma reverse_parents_iff:
  assumes "keyed ps"
  shows "c \<in> set (get_vec (reverse_parents_of s ps) p) \<longleftrightarrow> canonicalize c s = c \<and> (c, p) \<in> implies s ps"
  unfolding reverse_parents_of_def reverse_parents_fold
  by (simp add: edges_of_def parent_succ_def image_iff Bex_def get_vec_keyed [OF assms]) blast

lemma sibling_preimage_fold:
  "x \<in> set (get_vec (fold (\<lambda>bad sp. let canon = canonicalize bad s
         in if canon \<noteq> bad then push_entry canon bad sp else sp) bads sp) k) \<longleftrightarrow>
    x \<in> set (get_vec sp k) \<or> x \<in> set bads \<and> canonicalize x s = k \<and> k \<noteq> x"
  by (induction bads arbitrary: sp) (auto simp: Let_def get_vec_push)

lemma sibling_preimage_iff:
  "x \<in> set (get_vec (sibling_preimage_of s) k) \<longleftrightarrow> canonicalize x s = k \<and> k \<noteq> x"
  unfolding sibling_preimage_of_def sibling_preimage_fold
  using canonicalize_not_key [of x s] by (auto simp: get_vec_def)

lemma implies_canonical: "(c, p) \<in> implies s ps \<Longrightarrow> canonicalize p s = p"
  by (auto simp: edges_of_def parent_succ_def)

lemma implies_rtrancl_canonical:
  "(c, p) \<in> (implies s ps)\<^sup>* \<Longrightarrow> canonicalize c s = c \<Longrightarrow> canonicalize p s = p"
  by (induction rule: rtrancl_induct) (auto dest: implies_canonical)

lemma bfs_sources:
  assumes "keyed ps" "canonicalize q s = q"
  shows "t \<in> bfs (reverse_parents_of s ps) ({q}, [q]) \<longleftrightarrow> canonicalize t s = t \<and> (t, q) \<in> (implies s ps)\<^sup>*"
proof -
  let ?rev = "edges_of (get_vec (reverse_parents_of s ps))"
  have rev: "(p, c) \<in> ?rev \<longleftrightarrow> canonicalize c s = c \<and> (c, p) \<in> implies s ps" for c p
    using reverse_parents_iff [OF assms(1)] by (simp add: edges_of_def)
  have "bfs (reverse_parents_of s ps) ({q}, [q]) = ?rev\<^sup>* `` {q}"
    by (subst down.run_closure) (simp_all add: down.closed_but_def)
  moreover have "(q, t) \<in> ?rev\<^sup>* \<longleftrightarrow> canonicalize t s = t \<and> (t, q) \<in> (implies s ps)\<^sup>*"
  proof
    assume "(q, t) \<in> ?rev\<^sup>*"
    then show "canonicalize t s = t \<and> (t, q) \<in> (implies s ps)\<^sup>*"
      by (induction rule: rtrancl_induct) (auto simp: rev assms(2) intro: converse_rtrancl_into_rtrancl)
  next
    assume *: "canonicalize t s = t \<and> (t, q) \<in> (implies s ps)\<^sup>*"
    from conjunct2 [OF *] conjunct1 [OF *] show "(q, t) \<in> ?rev\<^sup>*"
    proof (induction rule: converse_rtrancl_induct)
      case (step t u)
      then show ?case using rev implies_canonical by (meson rtrancl.rtrancl_into_rtrancl)
    qed simp
  qed
  ultimately show ?thesis by simp
qed

lemma match_set_iff:
  assumes "keyed ps"
  shows "t \<in> match_set q s ps \<longleftrightarrow> (canonicalize t s, canonicalize q s) \<in> (implies s ps)\<^sup>*"
proof -
  have "t \<in> match_set q s ps \<longleftrightarrow> (\<exists>src. canonicalize src s = src \<and> (src, canonicalize q s) \<in> (implies s ps)\<^sup>* \<and>
      (t = src \<or> canonicalize t s = src \<and> src \<noteq> t))"
    by (simp add: match_set_def Let_def Bex_def bfs_sources [OF assms canonicalize_idem] sibling_preimage_iff)
  then show ?thesis using canonicalize_idem by metis
qed

text \<open>The sections of \<open>relations_of\<close> as sets.\<close>

definition capped :: "nat \<Rightarrow> tag_id set \<Rightarrow> relation_capped" where
  "capped cap A = \<lparr>rc_ids = take cap (sorted_list_of_set A), rc_total = card A\<rparr>"

lemma sibling_preimage_vec:
  "get_vec (fold (\<lambda>bad sp. let canon = canonicalize bad s
         in if canon \<noteq> bad then push_entry canon bad sp else sp) bads sp) k =
    get_vec sp k @ filter (\<lambda>x. canonicalize x s = k \<and> k \<noteq> x) bads"
  by (induction bads arbitrary: sp) (auto simp: Let_def get_vec_push)

lemma alias_distinct: "keyed s \<Longrightarrow> distinct (get_vec (sibling_preimage_of s) k)"
  by (simp add: sibling_preimage_of_def sibling_preimage_vec keyed_def)

lemma alias_set:
  "set (get_vec (sibling_preimage_of s) k) = {a. a \<noteq> k \<and> canonicalize a s = k}"
  using sibling_preimage_iff by auto

lemma parent_set:
  "set (filter (\<lambda>p. p \<noteq> k) (map (\<lambda>p. canonicalize p s) (get_vec ps k))) = {p. p \<noteq> k \<and> (k, p) \<in> implies s ps}"
  by (auto simp: edges_of_def parent_succ_def)

lemma child_set:
  "keyed ps \<Longrightarrow> set (filter (\<lambda>c. c \<noteq> k) (get_vec (reverse_parents_of s ps) k))
    = {c. c \<noteq> k \<and> canonicalize c s = c \<and> (c, k) \<in> implies s ps}"
  using reverse_parents_iff [of ps] by auto

section \<open>Properties\<close>

text \<open>
  C37. Resolving aliases always returns, also on cyclic sibling edges, and gives a stable
  representative: a tag and the tag it is an alias of have the same canonical form, canonical
  forms are fixed points, a canonical form is a tag with no alias target or the lowest id of
  its cycle, and it is reached along the sibling edges.
\<close>

theorem canonicalize_stable:
  "canonicalize_run t s = Some (canonicalize t s) \<and>
   canonicalize (canonicalize t s) s = canonicalize t s \<and>
   (\<forall>ideal. map_of s t = Some ideal \<longrightarrow> canonicalize t s = canonicalize ideal s) \<and>
   is_canonical s t (canonicalize t s)"
  by (simp add: canonicalize_runs canonicalize_sibling canonicalize_canonical)

theorem canonicalize_stable_witness:
  "canonicalize 5 [(5, 9), (9, 4), (4, 9)] = canonicalize 9 [(5, 9), (9, 4), (4, 9)]"
  using canonicalize_stable [of 5 "[(5, 9), (9, 4), (4, 9)]"] by simp

text \<open>
  C35. The effective tags of a file are the reflexive transitive closure of its canonicalised
  tags under the implications between canonical tags; the loop terminates on cyclic parent
  edges and misses nothing.
\<close>

theorem effective_tags_exact:
  "t \<in> effective_tags raw s ps \<longleftrightarrow>
    (\<exists>r\<in>set raw. (canonicalize r s, t) \<in> {(c, p). \<exists>a\<in>set (get_vec ps c). p = canonicalize a s}\<^sup>*)"
proof -
  have "implies s ps = {(c, p). \<exists>a\<in>set (get_vec ps c). p = canonicalize a s}"
    by (auto simp: edges_of_def parent_succ_def)
  then show ?thesis by (auto simp: effective_tags_closure)
qed

text \<open>
  C36. Query and tag side agree: a file's effective tags contain the canonical form of the
  query exactly when one of the file's raw tags is in the query's match set, and the
  precomputed graph returns the same match set as the free function.  Both sides are cycle
  safe.
\<close>

theorem match_set_inverse:
  assumes "keyed ps"
  shows "(canonicalize q s \<in> effective_tags raw s ps \<longleftrightarrow> (\<exists>t\<in>set raw. t \<in> match_set q s ps)) \<and>
    graph_match_set (graph_new s ps) q = match_set q s ps"
proof
  show "canonicalize q s \<in> effective_tags raw s ps \<longleftrightarrow> (\<exists>t\<in>set raw. t \<in> match_set q s ps)"
    by (auto simp: effective_tags_closure match_set_iff [OF assms])
  show "graph_match_set (graph_new s ps) q = match_set q s ps"
    by (simp add: graph_match_set_def match_set_def graph_new_def)
qed

theorem match_set_inverse_witness:
  "(canonicalize 1 [(7, 2)] \<in> effective_tags [7, 8] [(7, 2)] [(2, [1]), (1, [2])]) \<longleftrightarrow>
    (\<exists>t\<in>set [7, 8]. t \<in> match_set 1 [(7, 2)] [(2, [1]), (1, [2])])"
  using match_set_inverse [of "[(2, [1]), (1, [2])]" 1 "[(7, 2)]" "[7, 8]"] by (simp add: keyed_def)

text \<open>
  The relation popover and the relation marker agree with the edges.  The three sections
  of a tag list, in ascending order, without repetition and without the tag itself, its
  aliases, the tags it implies and the canonical tags that imply it; each is cut off at the
  cap while its total keeps the true count; and the marker is shown exactly when one of the
  totals is positive.
\<close>

theorem relations_of_sections:
  assumes "keyed s" and "keyed ps"
  shows "relations_of (graph_new s ps) t cap =
     \<lparr>rs_aliases = capped cap {a. a \<noteq> canonicalize t s \<and> canonicalize a s = canonicalize t s},
      rs_parents = capped cap {p. p \<noteq> canonicalize t s \<and> (canonicalize t s, p) \<in> implies s ps},
      rs_children = capped cap {c. c \<noteq> canonicalize t s \<and> canonicalize c s = c \<and> (c, canonicalize t s) \<in> implies s ps}\<rparr> \<and>
    (has_relations (graph_new s ps) t \<longleftrightarrow>
      (let r = relations_of (graph_new s ps) t cap
       in 0 < rc_total (rs_aliases r) \<or> 0 < rc_total (rs_parents r) \<or> 0 < rc_total (rs_children r)))"
proof (rule conjI)
  let ?c = "canonicalize t s"
  note sets = alias_set parent_set child_set [OF assms(2)]
  show "relations_of (graph_new s ps) t cap =
     \<lparr>rs_aliases = capped cap {a. a \<noteq> ?c \<and> canonicalize a s = ?c},
      rs_parents = capped cap {p. p \<noteq> ?c \<and> (?c, p) \<in> implies s ps},
      rs_children = capped cap {c. c \<noteq> ?c \<and> canonicalize c s = c \<and> (c, ?c) \<in> implies s ps}\<rparr>"
    unfolding sets [symmetric]
    by (simp add: relations_of_def graph_new_def cap_ids_def capped_def Let_def
        alias_distinct [OF assms(1)] distinct_card [OF alias_distinct [OF assms(1)]] sorted_list_of_set_sort_remdups distinct_remdups_id)
  show "has_relations (graph_new s ps) t \<longleftrightarrow>
      (let r = relations_of (graph_new s ps) t cap
       in 0 < rc_total (rs_aliases r) \<or> 0 < rc_total (rs_parents r) \<or> 0 < rc_total (rs_children r))"
    by (simp add: has_relations_def relations_of_def graph_new_def cap_ids_def Let_def card_gt_0_iff list_ex_iff)
      (auto simp: length_greater_0_conv)
qed

theorem relations_of_sections_witness:
  "has_relations (graph_new [(7, 2)] [(2, [1])]) 7 \<longleftrightarrow>
     (let r = relations_of (graph_new [(7, 2)] [(2, [1])]) 7 10
      in 0 < rc_total (rs_aliases r) \<or> 0 < rc_total (rs_parents r) \<or> 0 < rc_total (rs_children r))"
  by (rule relations_of_sections [THEN conjunct2]) (simp_all add: keyed_def)

end
