(* ===== verification/DbRelations.thy ===== *)
theory DbRelations
  imports DbState CoreRelations "HOL-Library.Product_Lexorder"
begin

text \<open>
  \<open>crates/db/src/lib.rs\<close>, the relation tables of the library: the full and the incremental merge of a pulled
  relation graph, the edges a user adds and removes, the edges of a service and of several services merged,
  and dropping a service.  \<open>EdgeKind\<close> has the two constructors of \<open>RelKind\<close>.  A hash map or set is
  walked in the order of insertion: the order decides only in which order tags get their ids.
\<close>

section \<open>Statements\<close>

definition tag_id :: "client_db \<Rightarrow> tag \<Rightarrow> int option" where
  "tag_id db t = map_of (c_tags db) t"

text \<open>\<open>INSERT \<dots> ON CONFLICT DO NOTHING\<close>; the number is that of the rows changed.\<close>

definition sql_insert_new :: "'k \<Rightarrow> 'r \<Rightarrow> ('k \<times> 'r) list \<Rightarrow> ('k \<times> 'r) list \<times> nat" where
  "sql_insert_new k new t = (case map_of t k of None \<Rightarrow> (AList.update k new t, 1) | Some _ \<Rightarrow> (t, 0))"

definition sibling_service :: "int \<times> int \<Rightarrow> int" where "sibling_service k = snd k"
definition parent_service :: "int \<times> int \<times> int \<Rightarrow> int" where "parent_service k = snd (snd k)"
definition staging_service :: "staging_key \<Rightarrow> int" where "staging_service k = fst k"

definition clear_relations :: "int \<Rightarrow> client_db \<Rightarrow> client_db" where
  "clear_relations svc db =
     db\<lparr>c_siblings := sql_delete (\<lambda>k r. sibling_service k = svc) (c_siblings db),
        c_parents := sql_delete (\<lambda>k r. parent_service k = svc) (c_parents db)\<rparr>"

record relation_stats =
  rs_siblings :: nat
  rs_parents :: nat

section \<open>The full merge\<close>

type_synonym tag_edge = "tag \<times> tag \<times> ustring"

text \<open>Per \<open>from\<close>, by its text, the first edge whose \<open>to\<close> is smallest as text.\<close>

definition choose_sibling :: "tag_edge \<Rightarrow> (ustring \<times> tag_edge) list \<Rightarrow> (ustring \<times> tag_edge) list" where
  "choose_sibling e chosen =
     (let (from, to, author) = e
      in if from = to then chosen
         else
           (case map_of chosen (tag_display from) of
              Some (_, prev_to, _) \<Rightarrow>
                if tag_display prev_to \<le> tag_display to then chosen else AList.update (tag_display from) e chosen
            | None \<Rightarrow> AList.update (tag_display from) e chosen))"

type_synonym relation_acc = "client_db \<times> tag_cache \<times> relation_stats"

definition insert_sibling :: "int \<Rightarrow> int \<Rightarrow> tag_edge \<Rightarrow> relation_acc \<Rightarrow> relation_acc" where
  "insert_sibling svc now e acc =
     (let (from, to, author) = e; (db, pending, st) = acc;
          (bad_id, pending, db) = intern_tag_cached db from [] pending;
          (ideal_id, pending, db) = intern_tag_cached db to [] pending;
          (sibs, _) = sql_insert_new (bad_id, svc) \<lparr>sr_ideal = ideal_id, sr_author = Some author, sr_created = now\<rparr> (c_siblings db)
      in (db\<lparr>c_siblings := sibs\<rparr>, pending, st\<lparr>rs_siblings := rs_siblings st + 1\<rparr>))"

definition insert_parent :: "int \<Rightarrow> int \<Rightarrow> tag_edge \<Rightarrow> relation_acc \<Rightarrow> relation_acc" where
  "insert_parent svc now e acc =
     (let (child, parent, author) = e; (db, pending, st) = acc
      in if child = parent then acc
         else
           (let (child_id, pending, db) = intern_tag_cached db child [] pending;
                (parent_id, pending, db) = intern_tag_cached db parent [] pending;
                (pars, changed) = sql_insert_new (child_id, parent_id, svc) \<lparr>pr_author = Some author, pr_created = now\<rparr> (c_parents db)
            in (db\<lparr>c_parents := pars\<rparr>, pending, st\<lparr>rs_parents := rs_parents st + changed\<rparr>)))"

definition merge_pulled_relations ::
  "client_db \<Rightarrow> int \<Rightarrow> int \<Rightarrow> tag_edge list \<Rightarrow> tag_edge list \<Rightarrow> client_db \<times> relation_stats" where
  "merge_pulled_relations db now svc siblings parents =
     (let chosen = fold choose_sibling siblings [];
          acc = (clear_relations svc db, [], \<lparr>rs_siblings = 0, rs_parents = 0\<rparr>);
          acc = fold (insert_sibling svc now) (map snd chosen) acc;
          (db', _, st) = fold (insert_parent svc now) parents acc
      in (db'\<lparr>c_relation_pulled := AList.update svc now (c_relation_pulled db')\<rparr>, st))"

section \<open>The incremental merge\<close>

record edge_input =
  ei_kind :: rel_kind
  ei_from :: tag
  ei_to :: tag
  ei_author :: ustring
  ei_deleted :: bool
  ei_seq :: nat

text \<open>\<open>i64::try_from(\<dots>).unwrap_or(i64::MAX)\<close>.\<close>

definition i64_saturated :: "nat \<Rightarrow> int" where
  "i64_saturated n = (if int n \<le> 2 ^ 63 - 1 then int n else 2 ^ 63 - 1)"

definition edge_staging_key :: "int \<Rightarrow> edge_input \<Rightarrow> staging_key" where
  "edge_staging_key svc e = (svc, ei_kind e, tag_display (ei_from e), tag_display (ei_to e), ei_author e)"

definition stage_edge :: "int \<Rightarrow> edge_input \<Rightarrow> staging \<times> ustring list \<times> (ustring \<times> ustring) list \<Rightarrow>
    staging \<times> ustring list \<times> (ustring \<times> ustring) list" where
  "stage_edge svc e acc =
     (let (t, sibs, pars) = acc;
          row = \<lparr>se_status = (if ei_deleted e then Deleted else Current), se_seq = i64_saturated (ei_seq e)\<rparr>;
          t' = sql_upsert (edge_staging_key svc e) row (\<lambda>r. r\<lparr>se_status := se_status row, se_seq := se_seq row\<rparr>) t
      in case ei_kind e of
           Sibling \<Rightarrow> (t', List.insert (tag_display (ei_from e)) sibs, pars)
         | Parent \<Rightarrow> (t', sibs, List.insert (tag_display (ei_from e), tag_display (ei_to e)) pars))"

text \<open>\<open>ORDER BY to_tag, author LIMIT 1\<close>.\<close>

definition sibling_candidates :: "staging \<Rightarrow> int \<Rightarrow> ustring \<Rightarrow> (ustring \<times> ustring) list" where
  "sibling_candidates t svc from_s =
     List.map_filter (\<lambda>((s, k, f, to, a), r).
       if s = svc \<and> k = Sibling \<and> f = from_s \<and> se_status r = Current \<and> to \<noteq> f then Some (to, a) else None) t"

definition sibling_winner :: "staging \<Rightarrow> int \<Rightarrow> ustring \<Rightarrow> (ustring \<times> ustring) option" where
  "sibling_winner t svc from_s =
     (let c = sibling_candidates t svc from_s in if c = [] then None else Some (Min (set c)))"

text \<open>\<open>SELECT MIN(author)\<close>.\<close>

definition parent_authors :: "staging \<Rightarrow> int \<Rightarrow> ustring \<Rightarrow> ustring \<Rightarrow> ustring list" where
  "parent_authors t svc child_s parent_s =
     List.map_filter (\<lambda>((s, k, f, to, a), r).
       if s = svc \<and> k = Parent \<and> f = child_s \<and> to = parent_s \<and> se_status r = Current then Some a else None) t"

definition parent_author :: "staging \<Rightarrow> int \<Rightarrow> ustring \<Rightarrow> ustring \<Rightarrow> ustring option" where
  "parent_author t svc child_s parent_s =
     (let c = parent_authors t svc child_s parent_s in if c = [] then None else Some (Min (set c)))"

definition recompute_sibling :: "(ustring \<Rightarrow> ustring) \<Rightarrow> int \<Rightarrow> int \<Rightarrow> ustring \<Rightarrow> client_db \<Rightarrow> core_error + client_db" where
  "recompute_sibling lc now svc from_s db =
     and_then (tag_parse lc from_s) (\<lambda>from_tag.
       case sibling_winner (c_staging db) svc from_s of
         Some (to_s, author) \<Rightarrow>
           (let (bad_id, db1) = intern_tag db from_tag
            in and_then (tag_parse lc to_s) (\<lambda>to_tag.
              let (ideal_id, db2) = intern_tag db1 to_tag
              in Inr (db2\<lparr>c_siblings := sql_upsert (bad_id, svc) \<lparr>sr_ideal = ideal_id, sr_author = Some author, sr_created = now\<rparr>
                   (\<lambda>r. r\<lparr>sr_ideal := ideal_id, sr_author := Some author\<rparr>) (c_siblings db2)\<rparr>)))
       | None \<Rightarrow>
           (case tag_id db from_tag of
              Some bad_id \<Rightarrow> Inr (db\<lparr>c_siblings := sql_delete (\<lambda>k r. k = (bad_id, svc)) (c_siblings db)\<rparr>)
            | None \<Rightarrow> Inr db))"

definition recompute_parent :: "(ustring \<Rightarrow> ustring) \<Rightarrow> int \<Rightarrow> int \<Rightarrow> ustring \<times> ustring \<Rightarrow> client_db \<Rightarrow> core_error + client_db" where
  "recompute_parent lc now svc edge db =
     (let (child_s, parent_s) = edge
      in if child_s = parent_s then Inr db
         else
           and_then (tag_parse lc child_s) (\<lambda>child.
             and_then (tag_parse lc parent_s) (\<lambda>parent.
               case parent_author (c_staging db) svc child_s parent_s of
                 Some author \<Rightarrow>
                   (let (child_id, db1) = intern_tag db child;
                        (parent_id, db2) = intern_tag db1 parent
                    in Inr (db2\<lparr>c_parents := sql_upsert (child_id, parent_id, svc) \<lparr>pr_author = Some author, pr_created = now\<rparr>
                         (\<lambda>r. r\<lparr>pr_author := Some author\<rparr>) (c_parents db2)\<rparr>))
               | None \<Rightarrow>
                   (case (tag_id db child, tag_id db parent) of
                      (Some c, Some p) \<Rightarrow> Inr (db\<lparr>c_parents := sql_delete (\<lambda>k r. k = (c, p, svc)) (c_parents db)\<rparr>)
                    | _ \<Rightarrow> Inr db))))"

fun try_fold :: "('a \<Rightarrow> 's \<Rightarrow> 'e + 's) \<Rightarrow> 'a list \<Rightarrow> 's \<Rightarrow> 'e + 's" where
  "try_fold f [] s = Inr s"
| "try_fold f (x # xs) s = and_then (f x s) (try_fold f xs)"

text \<open>An error rolls the transaction back.\<close>

definition merge_relation_delta ::
  "(ustring \<Rightarrow> ustring) \<Rightarrow> client_db \<Rightarrow> int \<Rightarrow> int \<Rightarrow> bool \<Rightarrow> nat \<Rightarrow> edge_input list \<Rightarrow> core_error + client_db \<times> relation_stats" where
  "merge_relation_delta lc db now svc full_reset cursor edges =
     (let db0 = (if full_reset then
            clear_relations svc (db\<lparr>c_staging := sql_delete (\<lambda>k r. staging_service k = svc) (c_staging db)\<rparr>) else db);
          (t, sibs, pars) = fold (stage_edge svc) edges (c_staging db0, [], [])
      in and_then (try_fold (recompute_sibling lc now svc) sibs (db0\<lparr>c_staging := t\<rparr>)) (\<lambda>db1.
         and_then (try_fold (recompute_parent lc now svc) pars db1) (\<lambda>db2.
           Inr (db2\<lparr>c_relation_cursor := AList.update svc (i64_saturated cursor) (c_relation_cursor db2),
                    c_relation_pulled := AList.update svc now (c_relation_pulled db2)\<rparr>,
                \<lparr>rs_siblings = length (filter (\<lambda>(k, r). sibling_service k = svc) (c_siblings db2)),
                 rs_parents = length (filter (\<lambda>(k, r). parent_service k = svc) (c_parents db2))\<rparr>))))"

definition relation_cursor_of :: "client_db \<Rightarrow> int \<Rightarrow> int option" where
  "relation_cursor_of db svc = map_of (c_relation_cursor db) svc"

section \<open>Edges a user makes\<close>

text \<open>The error is \<open>SelfRelation\<close>.\<close>

definition add_sibling :: "client_db \<Rightarrow> int \<Rightarrow> int \<Rightarrow> int \<Rightarrow> int \<Rightarrow> client_db option" where
  "add_sibling db now bad ideal svc =
     (if bad = ideal then None
      else Some (db\<lparr>c_siblings := sql_upsert (bad, svc) \<lparr>sr_ideal = ideal, sr_author = None, sr_created = now\<rparr>
             (\<lambda>r. r\<lparr>sr_ideal := ideal, sr_created := now\<rparr>) (c_siblings db)\<rparr>))"

definition remove_sibling :: "client_db \<Rightarrow> int \<Rightarrow> int \<Rightarrow> client_db" where
  "remove_sibling db bad svc = db\<lparr>c_siblings := sql_delete (\<lambda>k r. k = (bad, svc)) (c_siblings db)\<rparr>"

definition add_parent :: "client_db \<Rightarrow> int \<Rightarrow> int \<Rightarrow> int \<Rightarrow> int \<Rightarrow> client_db option" where
  "add_parent db now child parent svc =
     (if child = parent then None
      else Some (db\<lparr>c_parents := fst (sql_insert_new (child, parent, svc) \<lparr>pr_author = None, pr_created = now\<rparr> (c_parents db))\<rparr>))"

definition remove_parent :: "client_db \<Rightarrow> int \<Rightarrow> int \<Rightarrow> int \<Rightarrow> client_db" where
  "remove_parent db child parent svc = db\<lparr>c_parents := sql_delete (\<lambda>k r. k = (child, parent, svc)) (c_parents db)\<rparr>"

section \<open>Reading edges\<close>

definition load_sibling_edges :: "client_db \<Rightarrow> int \<Rightarrow> sibling_edges" where
  "load_sibling_edges db svc =
     fold (\<lambda>((bad, s), r) edges. if s = svc then AList.update bad (sr_ideal r) edges else edges) (c_siblings db) []"

definition load_parent_edges :: "client_db \<Rightarrow> int \<Rightarrow> parent_edges" where
  "load_parent_edges db svc =
     fold (\<lambda>((c, p, s), r) edges. if s = svc then push_entry c p edges else edges) (c_parents db) []"

text \<open>
  The services come by falling priority.  The first accumulator is the best priority seen for a tag, which
  \<open>priority\<close> gives for each service.
\<close>

definition merge_sibling_candidate :: "int \<Rightarrow> int \<times> int \<Rightarrow> (int \<times> int) list \<times> sibling_edges \<Rightarrow> (int \<times> int) list \<times> sibling_edges" where
  "merge_sibling_candidate pr e acc =
     (let (bad, ideal) = e; (best, merged) = acc
      in case map_of best bad of
           Some cur \<Rightarrow> if pr \<le> cur then acc else (AList.update bad pr best, AList.update bad ideal merged)
         | None \<Rightarrow> (AList.update bad pr best, AList.update bad ideal merged))"

definition sibling_candidates_of :: "client_db \<Rightarrow> int \<Rightarrow> (int \<times> int) list" where
  "sibling_candidates_of db svc = map (\<lambda>((bad, s), r). (bad, sr_ideal r)) (filter (\<lambda>((bad, s), r). s = svc) (c_siblings db))"

definition merged_sibling_edges :: "client_db \<Rightarrow> (int \<Rightarrow> int) \<Rightarrow> int list \<Rightarrow> sibling_edges" where
  "merged_sibling_edges db priority services =
     snd (fold (\<lambda>svc. fold (merge_sibling_candidate (priority svc)) (sibling_candidates_of db svc)) services ([], []))"

definition merged_parent_edges :: "client_db \<Rightarrow> int list \<Rightarrow> parent_edges" where
  "merged_parent_edges db services =
     fold (\<lambda>svc. fold (\<lambda>(child, ps) merged.
         fold (\<lambda>p m. if p \<in> set (get_vec m child) then m else push_entry child p m) ps merged)
       (load_parent_edges db svc)) services []"

end
