(* ===== verification/StoreRelations.thy ===== *)
theory StoreRelations
  imports StoreState "HOL-Library.Product_Lexorder"
begin

text \<open>
  \<open>crates/server/src/store.rs\<close>, the relations table: signed relation submissions
  (remove-dominates), the bridge's authoritative rows (last writer wins), the graph and the
  incremental read.  The \<open>kind\<close> column is kept as the enum whose \<open>as_str\<close> it stores, and the
  \<open>status\<close> column as the two values its \<open>CHECK\<close> allows; \<open>EdgeStatus\<close> has the same two.
\<close>

section \<open>Operations\<close>

definition rel_key_of :: "relation_submission \<Rightarrow> rel_key" where
  "rel_key_of sub = (rsub_kind sub, rsub_from sub, rsub_to sub, rsub_author sub)"

fun edge_status_of :: "op \<Rightarrow> mapping_status" where
  "edge_status_of Add = Current"
| "edge_status_of Remove = Deleted"

definition relation_cursor :: "store \<Rightarrow> int" where
  "relation_cursor s = max_seq rl_seq (relation_rows s)"

text \<open>The upsert of \<open>apply_relation\<close>: a deletion wins, whichever side it is on.\<close>

definition upsert_relation ::
  "rel_key \<Rightarrow> mapping_status \<Rightarrow> byte list \<Rightarrow> int \<Rightarrow> (rel_key \<times> rel_row) list \<Rightarrow> (rel_key \<times> rel_row) list" where
  "upsert_relation k status signature created_at t =
     (let seq = max_seq rl_seq t + 1
      in case map_of t k of
           None \<Rightarrow> AList.update k \<lparr>rl_status = status, rl_signature = signature, rl_created_at = created_at, rl_seq = seq\<rparr> t
         | Some r \<Rightarrow> AList.update k
             \<lparr>rl_status = (if rl_status r = Deleted \<or> status = Deleted then Deleted else Current),
              rl_signature = (if status = Deleted then signature else rl_signature r),
              rl_created_at = created_at, rl_seq = seq\<rparr> t)"

text \<open>\<open>ts\<close> and \<open>ts2\<close> are the two readings of the clock.\<close>

definition apply_relation :: "crypto \<Rightarrow> store \<Rightarrow> relation_submission \<Rightarrow> int \<Rightarrow> int \<Rightarrow> store \<times> (store_error + unit)" where
  "apply_relation C s0 sub ts ts2 =
     (let s = ensure_account s0 (rsub_author sub) ts
      in if is_banned s (rsub_author sub) then (s, Inl (AccountBanned (rsub_author sub)))
         else
           (case hex_decode C (rsub_signature sub) of
              None \<Rightarrow> (s, Inl (SignatureNotHex (rsub_signature sub)))
            | Some signature \<Rightarrow>
                (s\<lparr>relation_rows :=
                    upsert_relation (rel_key_of sub) (edge_status_of (rsub_op sub)) signature ts2 (relation_rows s)\<rparr>,
                 Inr ())))"

text \<open>The upsert of \<open>apply_bridge_relations\<close>, with the number of rows it affected.\<close>

definition upsert_bridge ::
  "rel_key \<Rightarrow> mapping_status \<Rightarrow> byte list \<Rightarrow> int \<Rightarrow> (rel_key \<times> rel_row) list \<Rightarrow> (rel_key \<times> rel_row) list \<times> nat" where
  "upsert_bridge k status signature created_at t =
     (let seq = max_seq rl_seq t + 1;
          new = \<lparr>rl_status = status, rl_signature = signature, rl_created_at = created_at, rl_seq = seq\<rparr>
      in case map_of t k of
           None \<Rightarrow> (AList.update k new t, 1)
         | Some r \<Rightarrow> if rl_status r \<noteq> status then (AList.update k new t, 1) else (t, 0))"

fun bridge_loop ::
  "crypto \<Rightarrow> int \<Rightarrow> relation_submission list \<Rightarrow> (rel_key \<times> rel_row) list \<Rightarrow> nat \<Rightarrow>
     store_error + (rel_key \<times> rel_row) list \<times> nat" where
  "bridge_loop C ts [] t changed = Inr (t, changed)"
| "bridge_loop C ts (sub # rows) t changed =
     (case hex_decode C (rsub_signature sub) of
        None \<Rightarrow> Inl (SignatureNotHex (rsub_signature sub))
      | Some signature \<Rightarrow>
          (let (t', n) = upsert_bridge (rel_key_of sub) (edge_status_of (rsub_op sub)) signature ts t
           in bridge_loop C ts rows t' (changed + n)))"

definition apply_bridge_relations ::
  "crypto \<Rightarrow> store \<Rightarrow> relation_submission list \<Rightarrow> int \<Rightarrow> store \<times> (store_error + nat)" where
  "apply_bridge_relations C s0 rows ts =
     (case rows of
        [] \<Rightarrow> (s0, Inr 0)
      | first # _ \<Rightarrow>
          (let s = ensure_account s0 (rsub_author first) ts
           in case bridge_loop C ts rows (relation_rows s) 0 of
                Inl e \<Rightarrow> (s0, Inl e)
              | Inr (t, changed) \<Rightarrow> (s\<lparr>relation_rows := t\<rparr>, Inr changed)))"

section \<open>Reads\<close>

record authored_edge =
  ae_from :: ustring
  ae_to :: ustring
  ae_author :: ustring

record relation_graph =
  rg_version :: nat
  rg_cursor :: int
  rg_siblings :: "authored_edge list"
  rg_parents :: "authored_edge list"

record delta_edge =
  de_kind :: rel_kind
  de_from :: ustring
  de_to :: ustring
  de_author :: ustring
  de_status :: mapping_status
  de_seq :: int

text \<open>The authors of the current rows of an edge.\<close>

definition edge_authors :: "store \<Rightarrow> rel_kind \<Rightarrow> ustring \<Rightarrow> ustring \<Rightarrow> ustring list" where
  "edge_authors s kind f t =
     map (\<lambda>((k, f', t', a), r). a)
       (filter (\<lambda>((k, f', t', a), r). rl_status r = Current \<and> k = kind \<and> f' = f \<and> t' = t) (relation_rows s))"

text \<open>\<open>GROUP BY from_tag, to_tag\<close> with \<open>MIN(author)\<close>, in the order of the two tags.\<close>

definition edges_of_kind :: "store \<Rightarrow> rel_kind \<Rightarrow> authored_edge list" where
  "edges_of_kind s kind =
     map (\<lambda>(f, t). \<lparr>ae_from = f, ae_to = t, ae_author = Min (set (edge_authors s kind f t))\<rparr>)
       (sorted_list_of_set ((\<lambda>((k, f, t, a), r). (f, t)) `
         set (filter (\<lambda>((k, f, t, a), r). rl_status r = Current \<and> k = kind) (relation_rows s))))"

definition relations :: "store \<Rightarrow> relation_graph" where
  "relations s = \<lparr>rg_version = PROTOCOL_VERSION, rg_cursor = relation_cursor s,
     rg_siblings = edges_of_kind s Sibling, rg_parents = edges_of_kind s Parent\<rparr>"

definition edge_of_row :: "rel_key \<times> rel_row \<Rightarrow> delta_edge" where
  "edge_of_row kr =
     (case kr of ((k, f, t, a), r) \<Rightarrow>
        \<lparr>de_kind = k, de_from = f, de_to = t, de_author = a, de_status = rl_status r, de_seq = rl_seq r\<rparr>)"

definition edges_since :: "store \<Rightarrow> nat \<Rightarrow> delta_edge list" where
  "edges_since s since =
     (let since_i = (if int since \<le> 2 ^ 63 - 1 then int since else 2 ^ 63 - 1)
      in map edge_of_row (sort_key (\<lambda>kr. rl_seq (snd kr)) (rows_since rl_seq since_i (relation_rows s))))"

end
