(* ===== verification/StoreRelate.thy ===== *)
theory StoreRelate
  imports StoreRelations
begin

text \<open>
  What the relations table promises.  Submitted relations form a set with tombstones that does
  not depend on the order of the submissions; bridge rows overwrite, count their changes and
  do not repeat them; the graph lists every current edge once; and the table is a change feed,
  so the edges above a cursor bring a client up to date.
\<close>

section \<open>Submitted relations\<close>

abbreviation relations_ok :: "store \<Rightarrow> bool" where
  "relations_ok s \<equiv> seqs_pos rl_seq (relation_rows s)"

definition relation_status :: "store \<Rightarrow> rel_key \<Rightarrow> mapping_status option" where
  "relation_status s k = map_option rl_status (map_of (relation_rows s) k)"

text \<open>What \<open>apply_relation\<close> accepts.\<close>

definition relation_accepted :: "crypto \<Rightarrow> store \<Rightarrow> relation_submission \<Rightarrow> bool" where
  "relation_accepted C s sub \<longleftrightarrow> \<not> is_banned s (rsub_author sub) \<and> hex_decode C (rsub_signature sub) \<noteq> None"

text \<open>A grow-only set with tombstones: a deletion on either side wins.\<close>

fun join_status :: "mapping_status option \<Rightarrow> mapping_status \<Rightarrow> mapping_status" where
  "join_status None st = st"
| "join_status (Some Deleted) st = Deleted"
| "join_status (Some Current) st = st"

lemma ensure_banned [simp]: "is_banned (ensure_account s p ts) q = is_banned s q"
  by (auto simp: ensure_account_def is_banned_def map_add_def split: option.split)

lemma ensure_relations [simp]: "relation_rows (ensure_account s p ts) = relation_rows s"
  by (simp add: ensure_account_def split: option.split)

lemma ensure_relation_status [simp]: "relation_status (ensure_account s p ts) = relation_status s"
  by (simp add: relation_status_def fun_eq_iff)

lemma upsert_relation_status:
  "map_option rl_status (map_of (upsert_relation k st sig ts t) k') =
    (if k' = k then Some (join_status (map_option rl_status (map_of t k)) st) else map_option rl_status (map_of t k'))"
proof (cases "map_of t k")
  case (Some r)
  then show ?thesis by (cases "rl_status r"; cases st) (simp_all add: upsert_relation_def Let_def)
qed (simp add: upsert_relation_def Let_def)

lemma upsert_relation_seqs:
  "seqs_pos rl_seq t \<Longrightarrow> advances rl_seq t (upsert_relation k st sig ts t) \<and>
    max_seq rl_seq (upsert_relation k st sig ts t) = max_seq rl_seq t + 1"
  by (auto simp: upsert_relation_def Let_def max_seq_update intro!: advances_update split: option.split)

lemma apply_relation_status:
  "relation_status (fst (apply_relation C s sub ts ts2)) k =
    (if relation_accepted C s sub \<and> rel_key_of sub = k
     then Some (join_status (relation_status s k) (edge_status_of (rsub_op sub))) else relation_status s k)"
  by (cases "hex_decode C (rsub_signature sub)"; cases "is_banned s (rsub_author sub)"; cases "rel_key_of sub = k")
    (simp_all add: apply_relation_def Let_def relation_accepted_def relation_status_def upsert_relation_status)

lemma apply_relation_banned: "is_banned (fst (apply_relation C s sub ts ts2)) p = is_banned s p"
proof -
  have "is_banned (s\<lparr>relation_rows := t\<rparr>) p = is_banned s p" for s t by (simp add: is_banned_def)
  then show ?thesis by (simp add: apply_relation_def Let_def split: option.split)
qed

lemma apply_relation_advances:
  "relations_ok s \<Longrightarrow> advances rl_seq (relation_rows s) (relation_rows (fst (apply_relation C s sub ts ts2)))"
  by (simp add: apply_relation_def Let_def upsert_relation_seqs split: option.split)

text \<open>A run of submissions with the clock readings of each.\<close>

definition relate_all :: "crypto \<Rightarrow> (relation_submission \<times> int \<times> int) list \<Rightarrow> store \<Rightarrow> store" where
  "relate_all C subs s = fold (\<lambda>(sub, ts, ts2) s. fst (apply_relation C s sub ts ts2)) subs s"

definition asserted :: "crypto \<Rightarrow> store \<Rightarrow> relation_submission set \<Rightarrow> rel_key \<Rightarrow> op \<Rightarrow> bool" where
  "asserted C s subs k opn \<longleftrightarrow> (\<exists>sub\<in>subs. relation_accepted C s sub \<and> rel_key_of sub = k \<and> rsub_op sub = opn)"

lemma relate_all_status:
  "relation_status (relate_all C subs s) k =
    (if relation_status s k = Some Deleted \<or> asserted C s (fst ` set subs) k Remove then Some Deleted
     else if relation_status s k = Some Current \<or> asserted C s (fst ` set subs) k Add then Some Current else None)"
proof (induction subs arbitrary: s)
  case Nil
  have "relation_status s k = None \<or> relation_status s k = Some Current \<or> relation_status s k = Some Deleted"
    by (cases "relation_status s k") (simp_all, metis mapping_status.exhaust)
  then show ?case by (auto simp: relate_all_def asserted_def)
next
  case (Cons x subs)
  obtain sub ts ts2 where x: "x = (sub, ts, ts2)" by (rule prod_cases3)
  let ?s = "fst (apply_relation C s sub ts ts2)"
  have acc: "relation_accepted C ?s u = relation_accepted C s u" for u
    by (simp add: relation_accepted_def apply_relation_banned)
  have rest: "asserted C s (fst ` set (x # subs)) k opn \<longleftrightarrow>
      relation_accepted C s sub \<and> rel_key_of sub = k \<and> rsub_op sub = opn \<or> asserted C ?s (fst ` set subs) k opn" for opn
    by (auto simp: asserted_def acc x)
  have run: "relate_all C (x # subs) s = relate_all C subs ?s" by (simp add: relate_all_def x)
  have st: "relation_status s k = None \<or> relation_status s k = Some Current \<or> relation_status s k = Some Deleted"
    by (cases "relation_status s k") (simp_all, metis mapping_status.exhaust)
  show ?case unfolding run Cons.IH rest apply_relation_status
    using st by (cases "rsub_op sub") auto
qed

lemma relate_all_ok: "relations_ok s \<Longrightarrow> relations_ok (relate_all C subs s)"
proof (induction subs arbitrary: s)
  case (Cons x subs)
  obtain sub ts ts2 where x: "x = (sub, ts, ts2)" by (rule prod_cases3)
  have "relations_ok (fst (apply_relation C s sub ts ts2))"
    using apply_relation_advances [OF Cons.prems] by (simp add: advances_def)
  then show ?case using Cons.IH by (simp add: relate_all_def x)
qed (simp add: relate_all_def)

section \<open>The graph\<close>

lemma edge_authors_iff:
  "keyed (relation_rows s) \<Longrightarrow> a \<in> set (edge_authors s kind f t) \<longleftrightarrow> relation_status s (kind, f, t, a) = Some Current"
  by (force simp: edge_authors_def relation_status_def keyed_map_of_iff image_iff)

definition graph_pairs :: "store \<Rightarrow> rel_kind \<Rightarrow> (ustring \<times> ustring) set" where
  "graph_pairs s kind = (\<lambda>((k, f, t, a), r). (f, t)) `
     set (filter (\<lambda>((k, f, t, a), r). rl_status r = Current \<and> k = kind) (relation_rows s))"

lemma graph_pairs_iff:
  "keyed (relation_rows s) \<Longrightarrow> (f, t) \<in> graph_pairs s kind \<longleftrightarrow> (\<exists>a. relation_status s (kind, f, t, a) = Some Current)"
  by (force simp: graph_pairs_def relation_status_def keyed_map_of_iff image_iff)

lemma edges_of_kind_pairs:
  "edges_of_kind s kind = map (\<lambda>(f, t). \<lparr>ae_from = f, ae_to = t, ae_author = Min (set (edge_authors s kind f t))\<rparr>)
     (sorted_list_of_set (graph_pairs s kind))"
  by (simp add: edges_of_kind_def graph_pairs_def)

lemma edges_of_kind_cong:
  assumes "keyed (relation_rows s)" "keyed (relation_rows s')" "relation_status s = relation_status s'"
  shows "edges_of_kind s kind = edges_of_kind s' kind"
proof -
  have "graph_pairs s kind = graph_pairs s' kind"
    using graph_pairs_iff [OF assms(1)] graph_pairs_iff [OF assms(2)] by (auto simp: assms(3))
  moreover have "set (edge_authors s kind f t) = set (edge_authors s' kind f t)" for f t
    using edge_authors_iff [OF assms(1)] edge_authors_iff [OF assms(2)] by (auto simp: assms(3))
  ultimately show ?thesis by (simp add: edges_of_kind_pairs)
qed

section \<open>Bridge rows\<close>

lemma upsert_bridge_effect:
  assumes "upsert_bridge k st sig ts t = (t', n)"
  shows "map_option rl_status (map_of t' k') = (if k' = k then Some st else map_option rl_status (map_of t k'))"
    and "seqs_pos rl_seq t \<Longrightarrow> advances rl_seq t t' \<and> max_seq rl_seq t' = max_seq rl_seq t + int n"
  using assms
  by (auto simp: upsert_bridge_def Let_def max_seq_update intro!: advances_update split: option.splits if_splits)

text \<open>The statuses a list of rows asserts, the last row of a key winning.\<close>

definition last_asserted :: "relation_submission list \<Rightarrow> rel_key \<Rightarrow> mapping_status option" where
  "last_asserted rows = map_of (rev (map (\<lambda>sub. (rel_key_of sub, edge_status_of (rsub_op sub))) rows))"

lemma last_asserted_Cons:
  "last_asserted (sub # rows) k =
    (case last_asserted rows k of
       Some st \<Rightarrow> Some st
     | None \<Rightarrow> if rel_key_of sub = k then Some (edge_status_of (rsub_op sub)) else None)"
  by (auto simp: last_asserted_def map_add_def split: option.split)

lemma bridge_loop_effect:
  assumes "bridge_loop C ts rows t changed = Inr (t', changed')"
  shows "map_option rl_status (map_of t' k) = (case last_asserted rows k of
      Some st \<Rightarrow> Some st | None \<Rightarrow> map_option rl_status (map_of t k))"
    and "seqs_pos rl_seq t \<Longrightarrow> advances rl_seq t t' \<and> max_seq rl_seq t' + int changed = max_seq rl_seq t + int changed'"
    and "sub \<in> set rows \<Longrightarrow> hex_decode C (rsub_signature sub) \<noteq> None"
proof -
  have "map_option rl_status (map_of t' k) = (case last_asserted rows k of
      Some st \<Rightarrow> Some st | None \<Rightarrow> map_option rl_status (map_of t k)) \<and>
    (seqs_pos rl_seq t \<longrightarrow> advances rl_seq t t' \<and> max_seq rl_seq t' + int changed = max_seq rl_seq t + int changed') \<and>
    (\<forall>sub\<in>set rows. hex_decode C (rsub_signature sub) \<noteq> None)"
    using assms
  proof (induction rows arbitrary: t changed)
    case Nil
    then show ?case by (simp add: last_asserted_def)
  next
    case (Cons row rows)
    obtain sig where sig: "hex_decode C (rsub_signature row) = Some sig"
      using Cons.prems by (cases "hex_decode C (rsub_signature row)") simp_all
    obtain t1 n where u: "upsert_bridge (rel_key_of row) (edge_status_of (rsub_op row)) sig ts t = (t1, n)" by fastforce
    have run: "bridge_loop C ts rows t1 (changed + n) = Inr (t', changed')"
      using Cons.prems by (simp add: sig u)
    note IH = Cons.IH [OF run]
    have "map_option rl_status (map_of t' k) = (case last_asserted (row # rows) k of
        Some st \<Rightarrow> Some st | None \<Rightarrow> map_option rl_status (map_of t k))"
      using conjunct1 [OF IH] upsert_bridge_effect(1) [OF u, of k]
      by (simp add: last_asserted_Cons eq_commute [of k] split: option.split)
    moreover have "advances rl_seq t t' \<and> max_seq rl_seq t' + int changed = max_seq rl_seq t + int changed'"
      if ok: "seqs_pos rl_seq t"
    proof -
      have one: "advances rl_seq t t1" "max_seq rl_seq t1 = max_seq rl_seq t + int n"
        using upsert_bridge_effect(2) [OF u ok] by simp_all
      then have "seqs_pos rl_seq t1" by (simp add: advances_def)
      then show ?thesis using IH one advances_trans [OF ok one(1)] by simp
    qed
    ultimately show ?case using IH sig by simp
  qed
  then show "map_option rl_status (map_of t' k) = (case last_asserted rows k of
      Some st \<Rightarrow> Some st | None \<Rightarrow> map_option rl_status (map_of t k))"
    "seqs_pos rl_seq t \<Longrightarrow> advances rl_seq t t' \<and> max_seq rl_seq t' + int changed = max_seq rl_seq t + int changed'"
    "sub \<in> set rows \<Longrightarrow> hex_decode C (rsub_signature sub) \<noteq> None"
    by blast+
qed

lemma bridge_loop_Inl:
  "bridge_loop C ts rows t changed = Inl e \<Longrightarrow>
    \<exists>sub\<in>set rows. e = SignatureNotHex (rsub_signature sub) \<and> hex_decode C (rsub_signature sub) = None"
  by (induction C ts rows t changed rule: bridge_loop.induct) (auto split: option.splits prod.splits)

text \<open>Rows that restate what is stored change nothing.\<close>

lemma bridge_loop_restates:
  assumes "\<forall>sub\<in>set rows. map_option rl_status (map_of t (rel_key_of sub)) = Some (edge_status_of (rsub_op sub)) \<and>
    hex_decode C (rsub_signature sub) \<noteq> None"
  shows "bridge_loop C ts rows t changed = Inr (t, changed)"
  using assms by (induction rows) (auto simp: upsert_bridge_def Let_def)

definition one_op_per_edge :: "relation_submission list \<Rightarrow> bool" where
  "one_op_per_edge rows \<longleftrightarrow>
     (\<forall>a\<in>set rows. \<forall>b\<in>set rows. rel_key_of a = rel_key_of b \<longrightarrow> rsub_op a = rsub_op b)"

lemma last_asserted_one:
  "one_op_per_edge rows \<Longrightarrow> sub \<in> set rows \<Longrightarrow> last_asserted rows (rel_key_of sub) = Some (edge_status_of (rsub_op sub))"
proof -
  assume one: "one_op_per_edge rows" and sub: "sub \<in> set rows"
  have "last_asserted rows (rel_key_of sub) \<noteq> None"
    using sub unfolding last_asserted_def map_of_eq_None_iff by (simp add: image_image)
  then obtain st where st: "last_asserted rows (rel_key_of sub) = Some st" by blast
  then obtain b where "b \<in> set rows" "rel_key_of b = rel_key_of sub" "st = edge_status_of (rsub_op b)"
    by (auto simp: last_asserted_def dest!: map_of_SomeD)
  then show ?thesis using one sub st unfolding one_op_per_edge_def by metis
qed

lemma apply_bridge_Cons:
  "rows \<noteq> [] \<Longrightarrow> apply_bridge_relations C s rows ts =
    (case bridge_loop C ts rows (relation_rows s) 0 of
       Inl e \<Rightarrow> (s, Inl e)
     | Inr (t, changed) \<Rightarrow> ((ensure_account s (rsub_author (hd rows)) ts)\<lparr>relation_rows := t\<rparr>, Inr changed))"
  by (cases rows) (auto simp: apply_bridge_relations_def Let_def simp del: bridge_loop.simps split: sum.split)

text \<open>
  Bridge relation rows.  A batch with a malformed signature is rolled back as a whole.
  Otherwise every edge of the batch ends with the status of its last row, every other edge keeps
  its own, and the cursor moves by exactly the number of changes reported.  If the batch
  asserts each edge in one way only, applying it again, at any time \<open>ts2\<close>, changes nothing and reports no
  change.
\<close>

theorem bridge_relations_effect:
  assumes "relations_ok s" "apply_bridge_relations C s rows ts = (s', r)"
  shows "case r of
      Inl e \<Rightarrow> s' = s \<and> (\<exists>sub\<in>set rows. e = SignatureNotHex (rsub_signature sub) \<and> hex_decode C (rsub_signature sub) = None)
    | Inr n \<Rightarrow> relation_status s' = relation_status s ++ last_asserted rows \<and> relation_cursor s' = relation_cursor s + int n \<and>
        (one_op_per_edge rows \<longrightarrow> apply_bridge_relations C s' rows ts2 = (s', Inr 0))"
proof (cases "rows = []")
  case True
  then show ?thesis using assms(2) by (auto simp: apply_bridge_relations_def last_asserted_def)
next
  case False
  let ?s = "ensure_account s (rsub_author (hd rows)) ts"
  show ?thesis
  proof (cases "bridge_loop C ts rows (relation_rows s) 0")
    case (Inl e)
    then have "s' = s" "r = Inl e" using assms(2) by (simp_all add: apply_bridge_Cons [OF False])
    then show ?thesis using bridge_loop_Inl [OF Inl] by simp
  next
    case (Inr tn)
    obtain t n where tn: "tn = (t, n)" by fastforce
    note run = Inr [unfolded tn]
    have s': "s' = ?s\<lparr>relation_rows := t\<rparr>" "r = Inr n"
      using assms(2) run by (simp_all add: apply_bridge_Cons [OF False])
    have st: "relation_status s' k = (case last_asserted rows k of Some st \<Rightarrow> Some st | None \<Rightarrow> relation_status s k)" for k
      using bridge_loop_effect(1) [OF run, of k] by (simp add: relation_status_def s' split: option.split)
    then have "relation_status s' = relation_status s ++ last_asserted rows" by (simp add: fun_eq_iff map_add_def)
    moreover have "relation_cursor s' = relation_cursor s + int n"
      using bridge_loop_effect(2) [OF run assms(1)] by (simp add: relation_cursor_def s')
    moreover have "apply_bridge_relations C s' rows ts2 = (s', Inr 0)" if one: "one_op_per_edge rows"
    proof -
      have "map_option rl_status (map_of t (rel_key_of sub)) = Some (edge_status_of (rsub_op sub)) \<and>
          hex_decode C (rsub_signature sub) \<noteq> None" if "sub \<in> set rows" for sub
        using bridge_loop_effect(1,3) [OF run] last_asserted_one [OF one that] that by simp
      then have "bridge_loop C ts2 rows t 0 = Inr (t, 0)" by (intro bridge_loop_restates) blast
      moreover have "ensure_account s' (rsub_author (hd rows)) ts2 = s'"
        by (simp add: s' ensure_account_def map_add_def split: option.split)
      ultimately show ?thesis by (simp add: apply_bridge_Cons [OF False] s')
    qed
    ultimately show ?thesis by (simp add: s'(2))
  qed
qed

text \<open>
  A batch that adds and then deletes an edge is not idempotent: applied again it revives the
  edge and deletes it again, two changes with new numbers each time.
\<close>

definition toy_edge :: "op \<Rightarrow> relation_submission" where
  "toy_edge opn = \<lparr>rsub_version = 1, rsub_op = opn, rsub_kind = Sibling, rsub_from = lit ''a'', rsub_to = lit ''b'',
     rsub_author = lit ''p'', rsub_signature = [], rsub_origin = None\<rparr>"

lemma toy_edge_simps [simp]:
  "rel_key_of (toy_edge opn) = (Sibling, lit ''a'', lit ''b'', lit ''p'')" "rsub_op (toy_edge opn) = opn"
  "rsub_signature (toy_edge opn) = []" "rsub_author (toy_edge opn) = lit ''p''"
  by (simp_all add: toy_edge_def rel_key_of_def)

lemma toy_no_signature: "hex_decode toy_crypto [] = Some []"
  by (simp add: toy_crypto_def str_len_def)

theorem bridge_replay_churns:
  "let rows = [toy_edge Add, toy_edge Remove];
       s1 = fst (apply_bridge_relations toy_crypto store_empty rows 0)
   in snd (apply_bridge_relations toy_crypto s1 rows 0) = Inr 2 \<and>
      relation_cursor s1 = 2 \<and> relation_cursor (fst (apply_bridge_relations toy_crypto s1 rows 0)) = 4"
  by (simp add: apply_bridge_relations_def Let_def toy_no_signature store_empty_def ensure_account_def upsert_bridge_def
      relation_cursor_def max_seq_def coalesce_max_def)

section \<open>Convergence\<close>

text \<open>
  C28. Submitted relations converge.  After any run of relation submissions a row is deleted
  exactly when it was before or some accepted submission of the run removed it, and current
  when it is not deleted and was there before or some accepted submission added it.  The order,
  the repetitions and the times of the submissions do not matter: two runs over the same set of
  submissions end with the same graph.
\<close>

theorem relations_converge:
  assumes "relations_ok s" "set (map fst subs) = set (map fst subs')"
  shows "(\<forall>k. relation_status (relate_all C subs s) k =
      (if relation_status s k = Some Deleted \<or> asserted C s (set (map fst subs)) k Remove then Some Deleted
       else if relation_status s k = Some Current \<or> asserted C s (set (map fst subs)) k Add then Some Current else None)) \<and>
    (\<forall>kind. edges_of_kind (relate_all C subs s) kind = edges_of_kind (relate_all C subs' s) kind)"
proof -
  have "relation_status (relate_all C subs s) = relation_status (relate_all C subs' s)"
    using assms(2) by (simp add: fun_eq_iff relate_all_status)
  moreover have "keyed (relation_rows (relate_all C xs s))" for xs
    using relate_all_ok [OF assms(1)] by (simp add: seqs_pos_def)
  ultimately have "edges_of_kind (relate_all C subs s) kind = edges_of_kind (relate_all C subs' s) kind" for kind
    by (intro edges_of_kind_cong)
  then show ?thesis unfolding relate_all_status set_map by blast
qed

section \<open>The graph and the incremental read\<close>

text \<open>
  The relation graph.  It lists an edge exactly once when some author's row of it is
  current, with the least such author, in strictly ascending order of the edges.
\<close>

theorem relation_graph_exact:
  assumes "relations_ok s"
  shows "sorted_wrt (<) (map (\<lambda>e. (ae_from e, ae_to e)) (edges_of_kind s kind)) \<and>
    (\<forall>e. e \<in> set (edges_of_kind s kind) \<longleftrightarrow>
      relation_status s (kind, ae_from e, ae_to e, ae_author e) = Some Current \<and>
      (\<forall>a. relation_status s (kind, ae_from e, ae_to e, a) = Some Current \<longrightarrow> ae_author e \<le> a))"
proof -
  have k: "keyed (relation_rows s)" using assms by (simp add: seqs_pos_def)
  have fin: "finite (graph_pairs s kind)" by (simp add: graph_pairs_def)
  have "map (\<lambda>e. (ae_from e, ae_to e)) (edges_of_kind s kind) = sorted_list_of_set (graph_pairs s kind)"
    by (simp add: edges_of_kind_pairs case_prod_beta comp_def)
  moreover have "e \<in> set (edges_of_kind s kind) \<longleftrightarrow>
      relation_status s (kind, ae_from e, ae_to e, ae_author e) = Some Current \<and>
      (\<forall>a. relation_status s (kind, ae_from e, ae_to e, a) = Some Current \<longrightarrow> ae_author e \<le> a)" for e
  proof -
    let ?A = "set (edge_authors s kind (ae_from e) (ae_to e))"
    have "e \<in> set (edges_of_kind s kind) \<longleftrightarrow> (ae_from e, ae_to e) \<in> graph_pairs s kind \<and> ae_author e = Min ?A"
    proof -
      have "e \<in> set (edges_of_kind s kind) \<longleftrightarrow>
          (\<exists>p\<in>graph_pairs s kind. e = \<lparr>ae_from = fst p, ae_to = snd p, ae_author = Min (set (edge_authors s kind (fst p) (snd p)))\<rparr>)"
        unfolding edges_of_kind_pairs using fin by (auto simp: image_iff case_prod_beta)
      then show ?thesis by (cases e) force
    qed
    also have "\<dots> \<longleftrightarrow> ?A \<noteq> {} \<and> ae_author e = Min ?A"
      using graph_pairs_iff [OF k] edge_authors_iff [OF k] by (metis ex_in_conv)
    also have "\<dots> \<longleftrightarrow> ae_author e \<in> ?A \<and> (\<forall>a\<in>?A. ae_author e \<le> a)"
      using Min_eqI [of ?A "ae_author e"] by (metis List.finite_set Min_in Min_le empty_iff)
    finally show ?thesis unfolding Ball_def edge_authors_iff [OF k] .
  qed
  ultimately show ?thesis by simp
qed

inductive relation_step :: "crypto \<Rightarrow> store \<Rightarrow> store \<Rightarrow> bool" for C where
  relate: "relation_step C s (fst (apply_relation C s sub ts ts2))"
| bridge: "relation_step C s (fst (apply_bridge_relations C s rows ts))"
| elsewhere: "relation_rows s' = relation_rows s \<Longrightarrow> relation_step C s s'"

inductive_cases relation_stepE: "relation_step C s s'"

lemma apply_bridge_advances:
  assumes "relations_ok s"
  shows "advances rl_seq (relation_rows s) (relation_rows (fst (apply_bridge_relations C s rows ts)))"
proof (cases "rows = []")
  case False
  then show ?thesis
    using assms bridge_loop_effect(2) [of C ts rows "relation_rows s" 0]
    by (auto simp: apply_bridge_Cons split: sum.split)
qed (use assms in \<open>simp add: apply_bridge_relations_def\<close>)

lemma relation_step_advances:
  "relation_step C s s' \<Longrightarrow> relations_ok s \<Longrightarrow> advances rl_seq (relation_rows s) (relation_rows s')"
  by (erule relation_stepE) (simp_all add: apply_relation_advances apply_bridge_advances)

interpretation relation_feed: change_feed relation_rows rl_seq relations_ok "relation_step C" for C
proof
  show "relations_ok s'" if "relations_ok s" "relation_step C s s'" for s s' C
    using relation_step_advances [OF that(2,1)] by (simp add: advances_def)
qed (simp_all add: relation_step_advances)

lemma map_of_sorted: "keyed t \<Longrightarrow> map_of (sort_key f t) = map_of t"
  by (simp add: keyed_def map_of_inject_set distinct_map)

definition edge_key :: "delta_edge \<Rightarrow> rel_key" where
  "edge_key e = (de_kind e, de_from e, de_to e, de_author e)"

lemma edges_since_map:
  assumes "keyed (relation_rows s)" "0 \<le> c" "c < 2 ^ 63"
  shows "map_of (map (\<lambda>e. (edge_key e, de_status e)) (edges_since s (nat c))) k =
    map_option rl_status (map_of (rows_since rl_seq c (relation_rows s)) k)"
proof -
  have pairs: "map (\<lambda>e. (edge_key e, de_status e)) (map edge_of_row t) = map (\<lambda>(k, r). (k, rl_status r)) t" for t
    by (auto simp: edge_of_row_def edge_key_def)
  have "map_of (map (\<lambda>(k, r). (k, rl_status r)) t) k = map_option rl_status (map_of t k)" for t :: "(rel_key \<times> rel_row) list"
    by (rule map_of_map_snd [of "\<lambda>k. rl_status"])
  moreover have "keyed (rows_since rl_seq c (relation_rows s))" using assms(1) by (simp add: rows_since_def)
  moreover have "edges_since s (nat c) = map edge_of_row (sort_key (\<lambda>kr. rl_seq (snd kr)) (rows_since rl_seq c (relation_rows s)))"
    using assms(2,3) by (simp add: edges_since_def)
  ultimately show ?thesis by (simp only: pairs map_of_sorted)
qed

lemma catch_up_status:
  assumes "relations_ok s" "(relation_step C)\<^sup>*\<^sup>* s s'" "relation_cursor s < 2 ^ 63"
  shows "relation_status s' = relation_status s ++
      map_of (map (\<lambda>e. (edge_key e, de_status e)) (edges_since s' (nat (relation_cursor s))))"
    "relation_cursor s \<le> relation_cursor s'"
proof -
  have "relations_ok s'" by (rule relation_feed.steps_inv [OF assms(2,1)])
  then have k: "keyed (relation_rows s')" by (simp add: seqs_pos_def)
  have c: "0 \<le> relation_cursor s" using max_seq_nonneg [OF assms(1)] by (simp add: relation_cursor_def)
  have "relation_status s' k = (relation_status s ++
      map_of (map (\<lambda>e. (edge_key e, de_status e)) (edges_since s' (nat (relation_cursor s))))) k" for k
    using relation_feed.catch_up [OF assms(2,1)] edges_since_map [OF k c assms(3), of k]
    by (simp add: map_add_def relation_status_def relation_cursor_def split: option.split)
  then show "relation_status s' = relation_status s ++
      map_of (map (\<lambda>e. (edge_key e, de_status e)) (edges_since s' (nat (relation_cursor s))))" by (simp add: fun_eq_iff)
  show "relation_cursor s \<le> relation_cursor s'"
    using relation_feed.cursor_mono [OF assms(2,1)] by (simp add: relation_cursor_def)
qed

text \<open>
  C29. The incremental read of relations.  A client that holds the statuses of a store up to its
  cursor, and lays the edges read since that cursor over them, has the statuses of the later
  store, however the store got there; the edges come in ascending order of their numbers and
  the cursor never goes back.
\<close>

theorem relation_catch_up:
  assumes "relations_ok s" "(relation_step C)\<^sup>*\<^sup>* s s'" "relation_cursor s < 2 ^ 63"
  shows "relation_status s' = relation_status s ++
      map_of (map (\<lambda>e. (edge_key e, de_status e)) (edges_since s' (nat (relation_cursor s)))) \<and>
    sorted (map de_seq (edges_since s' (nat (relation_cursor s)))) \<and> relation_cursor s \<le> relation_cursor s'"
proof -
  have "map de_seq (map edge_of_row t) = map (\<lambda>kr. rl_seq (snd kr)) t" for t
    by (auto simp: edge_of_row_def)
  then have "sorted (map de_seq (edges_since s' n))" for n
    unfolding edges_since_def Let_def by (simp only: sorted_sort_key)
  then show ?thesis using catch_up_status [OF assms] by simp
qed

section \<open>Witnesses\<close>

lemma empty_relations_ok: "relations_ok store_empty"
  by (simp add: store_empty_def seqs_pos_def)

theorem bridge_relations_effect_witness:
  "apply_bridge_relations toy_crypto (fst (apply_bridge_relations toy_crypto store_empty [toy_edge Add] 0)) [toy_edge Add] 9 =
    (fst (apply_bridge_relations toy_crypto store_empty [toy_edge Add] 0), Inr 0)"
proof -
  obtain s' r where run: "apply_bridge_relations toy_crypto store_empty [toy_edge Add] 0 = (s', r)" by fastforce
  then have "r = Inr 1"
    by (auto simp: apply_bridge_relations_def Let_def toy_no_signature upsert_bridge_def store_empty_def)
  then show ?thesis
    using bridge_relations_effect [OF empty_relations_ok run, of 9] by (simp add: run one_op_per_edge_def)
qed

theorem relations_converge_witness:
  "edges_of_kind (relate_all toy_crypto [(toy_edge Add, 1, 1), (toy_edge Remove, 2, 2)] store_empty) Sibling =
   edges_of_kind (relate_all toy_crypto [(toy_edge Remove, 5, 6), (toy_edge Add, 7, 7), (toy_edge Add, 8, 9)] store_empty) Sibling"
  using relations_converge [OF empty_relations_ok, of "[(toy_edge Add, 1, 1), (toy_edge Remove, 2, 2)]"
      "[(toy_edge Remove, 5, 6), (toy_edge Add, 7, 7), (toy_edge Add, 8, 9)]"] by (auto simp: insert_commute)

lemma toy_asserted:
  "relation_status (relate_all toy_crypto [(toy_edge Add, 1, 1)] store_empty) (Sibling, lit ''a'', lit ''b'', lit ''p'') = Some Current"
proof -
  have "\<not> is_banned store_empty p" "relation_status store_empty k = None" for p k
    by (simp_all add: is_banned_def store_empty_def relation_status_def)
  then show ?thesis by (simp add: relate_all_status asserted_def relation_accepted_def toy_no_signature del: lit_Cons)
qed

theorem relation_graph_exact_witness:
  "sorted_wrt (<) (map (\<lambda>e. (ae_from e, ae_to e)) (edges_of_kind (relate_all toy_crypto [(toy_edge Add, 1, 1)] store_empty) Sibling)) \<and>
   relation_status (relate_all toy_crypto [(toy_edge Add, 1, 1)] store_empty) (Sibling, lit ''a'', lit ''b'', lit ''p'') = Some Current"
  using relation_graph_exact [OF relate_all_ok [OF empty_relations_ok], of toy_crypto "[(toy_edge Add, 1, 1)]" Sibling]
    toy_asserted by blast

theorem relation_catch_up_witness:
  "relation_status (fst (apply_relation toy_crypto store_empty (toy_edge Add) 1 1)) =
    map_of (map (\<lambda>e. (edge_key e, de_status e)) (edges_since (fst (apply_relation toy_crypto store_empty (toy_edge Add) 1 1)) 0))"
proof -
  have "relation_cursor store_empty = 0" "relation_status store_empty = Map.empty"
    by (simp_all add: relation_cursor_def max_seq_def coalesce_max_def store_empty_def relation_status_def fun_eq_iff)
  then show ?thesis
    using relation_catch_up [OF empty_relations_ok r_into_rtranclp, OF relate, of toy_crypto "toy_edge Add" 1 1] by simp
qed

end
