(* ===== verification/ServerRelations.thy ===== *)
theory ServerRelations
  imports StoreRelate NetSign
begin

text \<open>
  \<open>crates/server/src/http.rs\<close>, \<open>POST /repo/relations/submit\<close> and \<open>GET /repo/relations\<close>: a signed edge is
  verified and applied, the graph or the edges above a cursor are read.  Log lines are left out, and so is
  the task pool, whose failure is another status 500.
\<close>

datatype relation_reject = ReadOnly | BadRelation sign_error | StoreFailed store_error

fun relation_reject_code :: "relation_reject \<Rightarrow> nat" where
  "relation_reject_code ReadOnly = 403"
| "relation_reject_code (BadRelation _) = 400"
| "relation_reject_code (StoreFailed _) = 500"

text \<open>The reply of a success is status 204.  The two times are the clock readings of the store.\<close>

definition relations_submit_handler ::
  "(ustring \<Rightarrow> ustring) \<Rightarrow> crypto \<Rightarrow> bool \<Rightarrow> store \<Rightarrow> relation_submission \<Rightarrow> int \<Rightarrow> int \<Rightarrow> store \<times> (relation_reject + unit)" where
  "relations_submit_handler lc C read_only s sub ts ts2 =
     (if read_only then (s, Inl ReadOnly)
      else
        (case verify_relation lc C sub of
           Inl e \<Rightarrow> (s, Inl (BadRelation e))
         | Inr _ \<Rightarrow>
             (case apply_relation C s sub ts ts2 of
                (s', Inl e) \<Rightarrow> (s', Inl (StoreFailed e))
              | (s', Inr _) \<Rightarrow> (s', Inr ()))))"

record relation_delta =
  dl_version :: nat
  dl_cursor :: nat
  dl_edges :: "delta_edge list"

datatype relations_response = RelGraph relation_graph | RelDelta relation_delta

definition relations_handler :: "store \<Rightarrow> nat option \<Rightarrow> relations_response" where
  "relations_handler s q =
     (case q of
        Some since \<Rightarrow> RelDelta \<lparr>dl_version = PROTOCOL_VERSION, dl_cursor = nat (relation_cursor s), dl_edges = edges_since s since\<rparr>
      | None \<Rightarrow> RelGraph (relations s))"

section \<open>Only canonical texts enter\<close>

text \<open>Every edge of a store joins the texts of two well-formed tags.\<close>

definition canonical_relations :: "(ustring \<Rightarrow> ustring) \<Rightarrow> store \<Rightarrow> bool" where
  "canonical_relations lc s \<longleftrightarrow>
     (\<forall>k f t a. relation_status s (k, f, t, a) \<noteq> None \<longrightarrow>
        (\<exists>F T. tag_wf lc F \<and> tag_wf lc T \<and> f = tag_display F \<and> t = tag_display T))"

lemma canonicalD:
  "canonical_relations lc s \<Longrightarrow> relation_status s (k, f, t, a) \<noteq> None \<Longrightarrow>
    \<exists>F T. tag_wf lc F \<and> tag_wf lc T \<and> f = tag_display F \<and> t = tag_display T"
  unfolding canonical_relations_def by blast

lemma verified_canonical:
  assumes "lower_like lc" "verify_relation lc C sub = Inr ()"
  shows "\<exists>F T. tag_wf lc F \<and> tag_wf lc T \<and> rsub_from sub = tag_display F \<and> rsub_to sub = tag_display T \<and> F \<noteq> T"
  using assms tag_parse_wf [OF assms(1)]
  by (auto simp: verify_relation_def and_then_Inr_iff split: sum.splits if_splits) metis

text \<open>
  C6. Edges submitted over HTTP.  A handler that answers with success has verified the signature: the edge joins
  two different well-formed tags and is stored with the status that tombstones allow.  Whatever it answers, a
  store that is a change feed with canonical texts stays one, the cursor does not go back, and a read-only
  server changes nothing.
\<close>

theorem relation_submit_safe:
  assumes "lower_like lc" "relations_ok s" "canonical_relations lc s"
    "relations_submit_handler lc C read_only s sub ts ts2 = (s', r)"
  shows "relations_ok s' \<and> canonical_relations lc s' \<and> relation_cursor s \<le> relation_cursor s' \<and>
    (case r of
       Inl e \<Rightarrow> relation_status s' = relation_status s \<and> (read_only \<longrightarrow> s' = s \<and> relation_reject_code e = 403)
     | Inr _ \<Rightarrow> \<not> read_only \<and> verify_relation lc C sub = Inr () \<and> relation_accepted C s sub \<and>
         relation_status s' = (relation_status s)(rel_key_of sub \<mapsto>
           join_status (relation_status s (rel_key_of sub)) (edge_status_of (rsub_op sub))))"
proof (cases "read_only \<or> verify_relation lc C sub \<noteq> Inr ()")
  case True
  then have "s' = s \<and> (\<exists>e. r = Inl e \<and> (read_only \<longrightarrow> e = ReadOnly))"
    using assms(4) by (auto simp: relations_submit_handler_def split: if_splits sum.splits)
  then show ?thesis using assms(2,3) by auto
next
  case False
  then have ver: "verify_relation lc C sub = Inr ()" and "\<not> read_only" by simp_all
  let ?s = "fst (apply_relation C s sub ts ts2)"
  have s': "s' = ?s" and r: "(case r of Inl e \<Rightarrow> \<exists>x. snd (apply_relation C s sub ts ts2) = Inl x | Inr _ \<Rightarrow> snd (apply_relation C s sub ts ts2) = Inr ())"
    using assms(4) False by (auto simp: relations_submit_handler_def split: prod.splits sum.splits)
  have acc: "snd (apply_relation C s sub ts ts2) = Inr () \<longleftrightarrow> relation_accepted C s sub"
    by (auto simp: apply_relation_def relation_accepted_def Let_def split: option.split)
  have st: "relation_status ?s k = (if relation_accepted C s sub \<and> rel_key_of sub = k
      then Some (join_status (relation_status s k) (edge_status_of (rsub_op sub))) else relation_status s k)" for k
    by (rule apply_relation_status)
  have adv: "advances rl_seq (relation_rows s) (relation_rows ?s)" by (rule apply_relation_advances [OF assms(2)])
  obtain F T where FT: "tag_wf lc F" "tag_wf lc T" "rsub_from sub = tag_display F" "rsub_to sub = tag_display T"
    using verified_canonical [OF assms(1) ver] by blast
  have "canonical_relations lc ?s"
    using assms(3) FT unfolding canonical_relations_def st by (auto simp: rel_key_of_def split: if_splits) blast
  moreover have "relation_cursor s \<le> relation_cursor ?s" using advances_mono [OF assms(2) adv] by (simp add: relation_cursor_def)
  moreover have "relations_ok ?s" using adv by (simp add: advances_def)
  ultimately show ?thesis
    using r acc ver \<open>\<not> read_only\<close> st by (cases r) (auto simp: s' fun_eq_iff)
qed

theorem relation_submit_safe_witness:
  "\<exists>s'. relations_submit_handler to_ascii_lowercase toy_crypto False store_empty
       (sign_relation toy_crypto (replicate 32 7) Add Sibling \<lparr>namespace = [], subtag = lit ''a''\<rparr> \<lparr>namespace = [], subtag = lit ''b''\<rparr>) 1 1 = (s', Inr ()) \<and>
     relations_ok s' \<and> canonical_relations to_ascii_lowercase s'"
proof -
  let ?a = "\<lparr>namespace = [], subtag = lit ''a''\<rparr>" and ?b = "\<lparr>namespace = [], subtag = lit ''b''\<rparr>"
  let ?sub = "sign_relation toy_crypto (replicate 32 7) Add Sibling ?a ?b"
  have wf: "tag_wf to_ascii_lowercase ?a" "tag_wf to_ascii_lowercase ?b"
    by (simp_all add: tag_wf_def normal_def tag_normalize_def str_eval)
  have "?a \<noteq> ?b" by simp
  have ver: "verify_relation to_ascii_lowercase toy_crypto ?sub = Inr ()"
    by (rule verify_sign_relation [OF lower_like_ascii toy_crypto_ok _ wf \<open>?a \<noteq> ?b\<close>]) simp
  then have "hex_decode toy_crypto (rsub_signature ?sub) \<noteq> None"
    by (auto simp: verify_relation_def verify_bytes_def decode_signature_def and_then_Inr_iff split: sum.splits option.splits if_splits)
  moreover have "\<not> is_banned (ensure_account store_empty p ts) q" for p q ts by (simp add: is_banned_def store_empty_def ensure_account_def)
  ultimately have "snd (apply_relation toy_crypto store_empty ?sub 1 1) = Inr ()"
    by (simp add: apply_relation_def Let_def split: option.split)
  then obtain s' where run: "relations_submit_handler to_ascii_lowercase toy_crypto False store_empty ?sub 1 1 = (s', Inr ())"
    using ver by (cases "apply_relation toy_crypto store_empty ?sub 1 1") (simp add: relations_submit_handler_def)
  have "canonical_relations to_ascii_lowercase store_empty"
    by (simp add: canonical_relations_def relation_status_def store_empty_def)
  from relation_submit_safe [OF lower_like_ascii empty_relations_ok this run] show ?thesis using run by blast
qed

end
