(* ===== verification/DaemonRelations.thy ===== *)
theory DaemonRelations
  imports DaemonPull DbRelations ServerRelations
begin

text \<open>
  \<open>crates/daemon/src/ops.rs\<close>, how the daemon pulls the relations of a repository, with the two requests of
  \<open>crates/netproto/src/lib.rs\<close> it makes.  The GET requests and the JSON of their bodies are parameters, as in
  \<open>DaemonPull\<close>.
\<close>

section \<open>Requests\<close>

datatype relation_request = GetRelations | GetRelationsSince nat

record 'w relation_net =
  rel_get :: "relation_request \<Rightarrow> 'w \<Rightarrow> http_body http_result \<times> 'w"
  json_graph :: "byte list \<Rightarrow> StoreRelations.relation_graph option"
  json_edges :: "byte list \<Rightarrow> relation_delta option"

definition fetch_relations :: "'w relation_net \<Rightarrow> 'w io \<Rightarrow> (fetch_error + StoreRelations.relation_graph) \<times> 'w io" where
  "fetch_relations R io0 =
     (case rel_get R GetRelations (io_world io0) of
        (HttpOk body, w) \<Rightarrow>
          (and_then (read_capped (json_graph R) body RESPONSE_SIZE_CAP) (\<lambda>g. checked (rg_version g) g), io0\<lparr>io_world := w\<rparr>)
      | (HttpStatus code raw, w) \<Rightarrow>
          (if code = 404 then Inr \<lparr>rg_version = PROTOCOL_VERSION, rg_cursor = 0, rg_siblings = [], rg_parents = []\<rparr>
           else Inl (status_err (HttpStatus code raw :: http_body http_result)), io0\<lparr>io_world := w\<rparr>)
      | (e, w) \<Rightarrow> (Inl (status_err e), io0\<lparr>io_world := w\<rparr>))"

definition fetch_relations_since :: "'w relation_net \<Rightarrow> nat \<Rightarrow> 'w io \<Rightarrow> (fetch_error + relation_delta) \<times> 'w io" where
  "fetch_relations_since R since io0 =
     (case rel_get R (GetRelationsSince since) (io_world io0) of
        (HttpOk body, w) \<Rightarrow>
          (and_then (read_capped (json_edges R) body RESPONSE_SIZE_CAP) (\<lambda>d. checked (dl_version d) d), io0\<lparr>io_world := w\<rparr>)
      | (HttpStatus code raw, w) \<Rightarrow>
          (if code = 404 then Inr \<lparr>dl_version = PROTOCOL_VERSION, dl_cursor = 0, dl_edges = []\<rparr>
           else Inl (status_err (HttpStatus code raw :: http_body http_result)), io0\<lparr>io_world := w\<rparr>)
      | (e, w) \<Rightarrow> (Inl (status_err e), io0\<lparr>io_world := w\<rparr>))"

section \<open>From wire edges to library edges\<close>

definition parse_edges :: "(ustring \<Rightarrow> ustring) \<Rightarrow> authored_edge list \<Rightarrow> tag_edge list" where
  "parse_edges lc edges =
     List.map_filter (\<lambda>e.
       case (tag_parse lc (ae_from e), tag_parse lc (ae_to e)) of
         (Inr from, Inr to) \<Rightarrow> Some (from, to, ae_author e)
       | _ \<Rightarrow> None) edges"

definition delta_inputs :: "(ustring \<Rightarrow> ustring) \<Rightarrow> delta_edge list \<Rightarrow> edge_input list" where
  "delta_inputs lc edges =
     List.map_filter (\<lambda>e.
       case (tag_parse lc (de_from e), tag_parse lc (de_to e)) of
         (Inr from, Inr to) \<Rightarrow>
           Some \<lparr>ei_kind = de_kind e, ei_from = from, ei_to = to, ei_author = de_author e,
                 ei_deleted = (de_status e = Deleted), ei_seq = nat (de_seq e)\<rparr>
       | _ \<Rightarrow> None) edges"

section \<open>The pull\<close>

datatype relation_error = NoSuchService ustring | RelationFetch fetch_error | RelationMerge core_error

text \<open>The delta, fetched again from zero when the cursor went backwards, and whether the mirror starts afresh.\<close>

definition fetch_relations_guarded :: "'w relation_net \<Rightarrow> int option \<Rightarrow> 'w io \<Rightarrow> (fetch_error + relation_delta \<times> bool) \<times> 'w io" where
  "fetch_relations_guarded R stored io0 =
     (let since = nat (max 0 (case stored of None \<Rightarrow> 0 | Some c \<Rightarrow> c))
      in case fetch_relations_since R since io0 of
           (Inl e, io1) \<Rightarrow> (Inl e, io1)
         | (Inr d, io1) \<Rightarrow>
             if (case stored of None \<Rightarrow> False | Some c \<Rightarrow> dl_cursor d < nat (c mod 2 ^ 64)) then
               (case fetch_relations_since R 0 io1 of
                  (Inl e, io2) \<Rightarrow> (Inl e, io2)
                | (Inr d, io2) \<Rightarrow> (Inr (d, True), io2))
             else (Inr (d, since = 0), io1))"

text \<open>\<open>env\<close> is what other threads commit while the requests are under way.\<close>

definition pull_relations ::
  "'w relation_net \<Rightarrow> 'w gets \<Rightarrow> (ustring \<Rightarrow> ustring) \<Rightarrow> (client_db \<Rightarrow> client_db) \<Rightarrow> int \<Rightarrow> shared_service list \<Rightarrow> ustring \<Rightarrow>
     client_db \<Rightarrow> caps_cache \<Rightarrow> 'w io \<Rightarrow> (relation_error + relation_stats) \<times> client_db \<times> caps_cache \<times> 'w io" where
  "pull_relations R G lc env now services name db cc io0 =
     (case shared_service_by_name services name of
        None \<Rightarrow> (Inl (NoSuchService name), db, cc, io0)
      | Some svc \<Rightarrow>
          (case get_or_fetch G (ss_id svc) cc io0 of
             (Inl e, cc1, io1) \<Rightarrow> (Inl (RelationFetch e), db, cc1, io1)
           | (Inr caps, cc1, io1) \<Rightarrow>
               if relation_incremental caps then
                 (case fetch_relations_guarded R (relation_cursor_of db (ss_id svc)) io1 of
                    (Inl e, io2) \<Rightarrow> (Inl (RelationFetch e), env db, cc1, io2)
                  | (Inr (d, full_reset), io2) \<Rightarrow>
                      (case merge_relation_delta lc (env db) now (ss_id svc) full_reset (dl_cursor d) (delta_inputs lc (dl_edges d)) of
                         Inl e \<Rightarrow> (Inl (RelationMerge e), env db, cc1, io2)
                       | Inr (db', st) \<Rightarrow> (Inr st, db', cc1, io2)))
               else
                 (case fetch_relations R io1 of
                    (Inl e, io2) \<Rightarrow> (Inl (RelationFetch e), env db, cc1, io2)
                  | (Inr g, io2) \<Rightarrow>
                      (let (db', st) = merge_pulled_relations (env db) now (ss_id svc)
                             (parse_edges lc (rg_siblings g)) (parse_edges lc (rg_parents g))
                       in (Inr st, db', cc1, io2)))))"

end
