(* ===== verification/DbRelate.thy ===== *)
theory DbRelate
  imports DbRelations DbMerge NetSign
begin

text \<open>
  The relation tables seen by tag instead of by id, and what the two merges of a pulled graph do to them.  The
  incremental merge keeps the tables the collapse of the mirrored edges; the full merge of the graph that the
  mirror shows ends in the same tables.
\<close>

section \<open>Relations by tag\<close>

definition tag_named :: "client_db \<Rightarrow> int \<Rightarrow> tag option" where
  "tag_named db i = map_of (map (\<lambda>(t, i). (i, t)) (c_tags db)) i"

text \<open>The ideal of a tag in a service with the author of the edge, and the author of an implication.\<close>

definition sibling_view :: "client_db \<Rightarrow> int \<times> tag \<Rightarrow> (tag \<times> ustring option) option" where
  "sibling_view db k =
     Option.bind (tag_id db (snd k)) (\<lambda>i.
       Option.bind (map_of (c_siblings db) (i, fst k)) (\<lambda>r. map_option (\<lambda>t. (t, sr_author r)) (tag_named db (sr_ideal r))))"

definition parent_view :: "client_db \<Rightarrow> int \<times> tag \<times> tag \<Rightarrow> ustring option option" where
  "parent_view db k =
     Option.bind (tag_id db (fst (snd k))) (\<lambda>c.
       Option.bind (tag_id db (snd (snd k))) (\<lambda>p. map_option pr_author (map_of (c_parents db) (c, p, fst k))))"

definition rel_ok :: "client_db \<Rightarrow> bool" where
  "rel_ok db \<longleftrightarrow> ids_ok (c_tags db) \<and> keyed (c_siblings db) \<and> keyed (c_parents db) \<and> keyed (c_staging db) \<and>
     (\<forall>i s r. map_of (c_siblings db) (i, s) = Some r \<longrightarrow> i \<in> snd ` set (c_tags db) \<and> sr_ideal r \<in> snd ` set (c_tags db)) \<and>
     (\<forall>c p s r. map_of (c_parents db) (c, p, s) = Some r \<longrightarrow> c \<in> snd ` set (c_tags db) \<and> p \<in> snd ` set (c_tags db))"

lemma rel_okD:
  assumes "rel_ok db"
  shows "ids_ok (c_tags db)" "keyed (c_siblings db)" "keyed (c_parents db)" "keyed (c_staging db)"
    "map_of (c_siblings db) (i, s) = Some r \<Longrightarrow> i \<in> snd ` set (c_tags db)"
    "map_of (c_siblings db) (i, s) = Some r \<Longrightarrow> sr_ideal r \<in> snd ` set (c_tags db)"
    "map_of (c_parents db) (c, p, s) = Some q \<Longrightarrow> c \<in> snd ` set (c_tags db)"
    "map_of (c_parents db) (c, p, s) = Some q \<Longrightarrow> p \<in> snd ` set (c_tags db)"
  using assms unfolding rel_ok_def by blast+

lemma rel_okI:
  assumes "ids_ok (c_tags db)" "keyed (c_siblings db)" "keyed (c_parents db)" "keyed (c_staging db)"
    "\<And>i s r. map_of (c_siblings db) (i, s) = Some r \<Longrightarrow> i \<in> snd ` set (c_tags db) \<and> sr_ideal r \<in> snd ` set (c_tags db)"
    "\<And>c p s r. map_of (c_parents db) (c, p, s) = Some r \<Longrightarrow> c \<in> snd ` set (c_tags db) \<and> p \<in> snd ` set (c_tags db)"
  shows "rel_ok db"
  unfolding rel_ok_def using assms by blast

lemma named_iff: "ids_ok (c_tags db) \<Longrightarrow> tag_named db i = Some t \<longleftrightarrow> tag_id db t = Some i"
  by (force simp: tag_named_def tag_id_def ids_ok_def keyed_map_of_iff comp_def case_prod_beta)

lemma tag_id_range: "tag_id db t = Some i \<Longrightarrow> i \<in> snd ` set (c_tags db)"
  unfolding tag_id_def by (force dest: map_of_SomeD)

lemma range_named: "ids_ok (c_tags db) \<Longrightarrow> i \<in> snd ` set (c_tags db) \<Longrightarrow> \<exists>t. tag_named db i = Some t"
  by (force simp: named_iff tag_id_def ids_ok_def)

lemma option_eqI: "(\<And>y. x = Some y \<longleftrightarrow> x' = Some y) \<Longrightarrow> x = x'"
  by (cases x; cases x') auto

section \<open>A dictionary that only grows\<close>

definition grows :: "(tag \<times> int) list \<Rightarrow> (tag \<times> int) list \<Rightarrow> bool" where
  "grows ts ts' \<longleftrightarrow> ids_ok ts' \<and> (\<forall>t i. map_of ts t = Some i \<longrightarrow> map_of ts' t = Some i)"

lemma grows_trans: "grows a b \<Longrightarrow> grows b c \<Longrightarrow> grows a c"
  unfolding grows_def by blast

lemma range_iff: "ids_ok ts \<Longrightarrow> i \<in> snd ` set ts \<longleftrightarrow> (\<exists>t. map_of ts t = Some i)"
  unfolding ids_ok_def by (auto dest: map_of_SomeD intro: rev_image_eqI)

lemma grows_range:
  assumes "ids_ok ts" "grows ts ts'"
  shows "snd ` set ts \<subseteq> snd ` set ts'"
proof
  fix i assume "i \<in> snd ` set ts"
  then obtain t where "map_of ts t = Some i" using range_iff [OF assms(1)] by blast
  then show "i \<in> snd ` set ts'" using assms(2) range_iff [of ts' i] by (auto simp: grows_def)
qed

lemma sibling_view_iff:
  "sibling_view db (s, t) = Some (u, a) \<longleftrightarrow> (\<exists>i r. map_of (c_tags db) t = Some i \<and> map_of (c_siblings db) (i, s) = Some r \<and>
     tag_named db (sr_ideal r) = Some u \<and> sr_author r = a)"
  by (auto simp: sibling_view_def tag_id_def bind_eq_Some_conv)

lemma parent_view_iff:
  "parent_view db (s, c, p) = Some a \<longleftrightarrow> (\<exists>i j r. map_of (c_tags db) c = Some i \<and> map_of (c_tags db) p = Some j \<and>
     map_of (c_parents db) (i, j, s) = Some r \<and> pr_author r = a)"
  by (auto simp: parent_view_def tag_id_def bind_eq_Some_conv)

lemma grows_old:
  assumes "ids_ok ts" "grows ts ts'" "map_of ts' t = Some i" "i \<in> snd ` set ts"
  shows "map_of ts t = Some i"
proof -
  obtain u where u: "map_of ts u = Some i" using assms(1,4) by (force simp: ids_ok_def)
  then have "map_of ts' u = Some i" "ids_ok ts'" using assms(2) by (auto simp: grows_def)
  then show ?thesis using u assms(3) ids_ok_inj by metis
qed

lemma views_grow:
  assumes "rel_ok db" "grows (c_tags db) ts"
  shows "sibling_view (db\<lparr>c_tags := ts\<rparr>) = sibling_view db" "parent_view (db\<lparr>c_tags := ts\<rparr>) = parent_view db"
    "rel_ok (db\<lparr>c_tags := ts\<rparr>)"
proof -
  let ?db = "db\<lparr>c_tags := ts\<rparr>"
  note ok = rel_okD [OF assms(1)]
  have ids: "ids_ok ts" using assms(2) by (simp add: grows_def)
  have old: "map_of ts t = Some i \<longleftrightarrow> map_of (c_tags db) t = Some i" if "i \<in> snd ` set (c_tags db)" for t i
  proof
    show "map_of (c_tags db) t = Some i" if "map_of ts t = Some i" by (rule grows_old [OF ok(1) assms(2) that \<open>i \<in> _\<close>])
    show "map_of ts t = Some i" if "map_of (c_tags db) t = Some i" using assms(2) that by (simp add: grows_def)
  qed
  have named: "tag_named ?db i = tag_named db i" if rng: "i \<in> snd ` set (c_tags db)" for i
  proof -
    obtain t where t: "tag_named db i = Some t" using range_named [OF ok(1) rng] by blast
    then have "tag_id ?db t = Some i" using named_iff [OF ok(1)] assms(2) by (auto simp: grows_def tag_id_def)
    then show ?thesis using t named_iff [of ?db i t] ids by simp
  qed
  have sib: "sibling_view ?db (s, t) = Some (u, a) \<longleftrightarrow> sibling_view db (s, t) = Some (u, a)" for s t u a
  proof -
    have "map_of ts t = Some i \<and> map_of (c_siblings db) (i, s) = Some r \<and> tag_named ?db (sr_ideal r) = Some u \<and> sr_author r = a \<longleftrightarrow>
        map_of (c_tags db) t = Some i \<and> map_of (c_siblings db) (i, s) = Some r \<and> tag_named db (sr_ideal r) = Some u \<and> sr_author r = a" for i r
    proof (cases "map_of (c_siblings db) (i, s) = Some r")
      case True
      show ?thesis unfolding old [OF ok(5) [OF True]] named [OF ok(6) [OF True]] ..
    qed simp
    then show ?thesis by (simp add: sibling_view_iff)
  qed
  have par: "parent_view ?db (s, c, p) = Some a \<longleftrightarrow> parent_view db (s, c, p) = Some a" for s c p a
  proof -
    have "map_of ts c = Some i \<and> map_of ts p = Some j \<and> map_of (c_parents db) (i, j, s) = Some r \<and> pr_author r = a \<longleftrightarrow>
        map_of (c_tags db) c = Some i \<and> map_of (c_tags db) p = Some j \<and> map_of (c_parents db) (i, j, s) = Some r \<and> pr_author r = a" for i j r
    proof (cases "map_of (c_parents db) (i, j, s) = Some r")
      case True
      show ?thesis unfolding old [OF ok(7) [OF True]] old [OF ok(8) [OF True]] ..
    qed simp
    then show ?thesis by (simp add: parent_view_iff)
  qed
  show "sibling_view ?db = sibling_view db" "parent_view ?db = parent_view db"
    by (rule ext, rule option_eqI, simp add: sib split_paired_all)
      (rule ext, rule option_eqI, simp add: par split_paired_all)
  show "rel_ok ?db"
    by (rule rel_okI) (use ids ok grows_range [OF ok(1) assms(2)] in \<open>simp_all, blast+\<close>)
qed

lemma intern_tag_grows:
  assumes "ids_ok (c_tags db)" "intern_tag db t = (i, db')"
  obtains ts where "db' = db\<lparr>c_tags := ts\<rparr>" "grows (c_tags db) ts" "map_of ts t = Some i"
proof
  show "db' = db\<lparr>c_tags := snd (intern_row (c_tags db) t)\<rparr>" using assms(2) by (auto simp: intern_tag_def split: prod.splits)
  show "grows (c_tags db) (snd (intern_row (c_tags db) t))"
    using ids.intern_ok [OF assms(1)] ids.intern_keeps [OF assms(1)] by (auto simp: grows_def)
  show "map_of (snd (intern_row (c_tags db) t)) t = Some i"
    using ids.intern_found [OF assms(1), of t] assms(2) by (auto simp: intern_tag_def split: prod.splits)
qed

section \<open>Changing one edge\<close>

lemma sibling_rows_set:
  assumes ok: "rel_ok db" and T: "map_of (c_tags db) T = Some i" and t: "keyed t"
    "map_of t = (map_of (c_siblings db))((i, svc) := ro)" "\<And>r. ro = Some r \<Longrightarrow> sr_ideal r \<in> snd ` set (c_tags db)"
  shows "rel_ok (db\<lparr>c_siblings := t\<rparr>)" "parent_view (db\<lparr>c_siblings := t\<rparr>) = parent_view db"
    "sibling_view (db\<lparr>c_siblings := t\<rparr>) = (sibling_view db)((svc, T) :=
       Option.bind ro (\<lambda>r. map_option (\<lambda>u. (u, sr_author r)) (tag_named db (sr_ideal r))))"
proof -
  note D = rel_okD [OF ok]
  have i: "i \<in> snd ` set (c_tags db)" using T range_iff [OF D(1)] by blast
  show "rel_ok (db\<lparr>c_siblings := t\<rparr>)"
    by (rule rel_okI) (use D i t in \<open>auto split: if_splits\<close>)
  show "parent_view (db\<lparr>c_siblings := t\<rparr>) = parent_view db" by (simp add: parent_view_def tag_id_def fun_eq_iff)
  have other: "map_of (c_tags db) u \<noteq> Some i" if "u \<noteq> T" for u using ids_ok_inj [OF D(1) T] that by metis
  show "sibling_view (db\<lparr>c_siblings := t\<rparr>) = (sibling_view db)((svc, T) :=
       Option.bind ro (\<lambda>r. map_option (\<lambda>u. (u, sr_author r)) (tag_named db (sr_ideal r))))"
  proof (rule ext)
    fix k :: "int \<times> tag"
    obtain s u where k: "k = (s, u)" by fastforce
    show "sibling_view (db\<lparr>c_siblings := t\<rparr>) k = ((sibling_view db)((svc, T) :=
       Option.bind ro (\<lambda>r. map_option (\<lambda>u. (u, sr_author r)) (tag_named db (sr_ideal r))))) k"
      using T other [of u] by (cases "map_of (c_tags db) u") (auto simp: k sibling_view_def tag_id_def tag_named_def t(2))
  qed
qed

lemma parent_rows_set:
  assumes ok: "rel_ok db" and C: "map_of (c_tags db) C = Some i" and P: "map_of (c_tags db) P = Some j" and t: "keyed t"
    "map_of t = (map_of (c_parents db))((i, j, svc) := ro)"
  shows "rel_ok (db\<lparr>c_parents := t\<rparr>)" "sibling_view (db\<lparr>c_parents := t\<rparr>) = sibling_view db"
    "parent_view (db\<lparr>c_parents := t\<rparr>) = (parent_view db)((svc, C, P) := map_option pr_author ro)"
proof -
  note D = rel_okD [OF ok]
  have ij: "i \<in> snd ` set (c_tags db)" "j \<in> snd ` set (c_tags db)" using C P range_iff [OF D(1)] by blast+
  show "rel_ok (db\<lparr>c_parents := t\<rparr>)"
    by (rule rel_okI) (use D ij t in \<open>auto split: if_splits\<close>)
  show "sibling_view (db\<lparr>c_parents := t\<rparr>) = sibling_view db"
    by (simp add: sibling_view_def tag_id_def tag_named_def fun_eq_iff)
  have other: "map_of (c_tags db) u = Some i \<longleftrightarrow> u = C" "map_of (c_tags db) u = Some j \<longleftrightarrow> u = P" for u
    using ids_ok_inj [OF D(1)] C P by metis+
  show "parent_view (db\<lparr>c_parents := t\<rparr>) = (parent_view db)((svc, C, P) := map_option pr_author ro)"
  proof (rule ext)
    fix k :: "int \<times> tag \<times> tag"
    obtain s c p where k: "k = (s, c, p)" by (rule prod_cases3)
    show "parent_view (db\<lparr>c_parents := t\<rparr>) k = ((parent_view db)((svc, C, P) := map_option pr_author ro)) k"
      using C P other(1) [of c] other(2) [of p]
      by (cases "map_of (c_tags db) c"; cases "map_of (c_tags db) p") (auto simp: k parent_view_def tag_id_def t(2))
  qed
qed

lemma views_clear:
  assumes "rel_ok db"
  shows "rel_ok (clear_relations svc db)"
    "sibling_view (clear_relations svc db) k = (if fst k = svc then None else sibling_view db k)"
    "parent_view (clear_relations svc db) p = (if fst p = svc then None else parent_view db p)"
    "c_staging (clear_relations svc db) = c_staging db"
proof -
  note D = rel_okD [OF assms]
  show "rel_ok (clear_relations svc db)"
    by (rule rel_okI)
      (use D in \<open>auto simp: clear_relations_def map_of_delete sibling_service_def parent_service_def split: option.splits if_splits\<close>)
  show "sibling_view (clear_relations svc db) k = (if fst k = svc then None else sibling_view db k)"
    by (cases "map_of (c_tags db) (snd k)"; cases "map_of (c_siblings db) (the (map_of (c_tags db) (snd k)), fst k)")
      (simp_all add: sibling_view_def tag_id_def tag_named_def clear_relations_def map_of_delete D sibling_service_def)
  show "parent_view (clear_relations svc db) p = (if fst p = svc then None else parent_view db p)"
    by (cases "map_of (c_tags db) (fst (snd p))"; cases "map_of (c_tags db) (snd (snd p))";
        cases "map_of (c_parents db) (the (map_of (c_tags db) (fst (snd p))), the (map_of (c_tags db) (snd (snd p))), fst p)")
      (simp_all add: parent_view_def tag_id_def clear_relations_def map_of_delete D parent_service_def)
qed (simp add: clear_relations_def)

end
