(* ===== verification/DbCollapse.thy ===== *)
theory DbCollapse
  imports DbRelate
begin

text \<open>
  The incremental merge of relations keeps the library's tables the collapse of the mirrored edges, and the
  full merge of a graph makes them the collapse of that graph.
\<close>

section \<open>The collapse of a mirror\<close>

definition canonical_text :: "(ustring \<Rightarrow> ustring) \<Rightarrow> ustring \<Rightarrow> bool" where
  "canonical_text lc s \<longleftrightarrow> (\<exists>t. tag_wf lc t \<and> s = tag_display t)"

definition collapse_sibling :: "(ustring \<Rightarrow> ustring) \<Rightarrow> staging \<Rightarrow> int \<Rightarrow> tag \<Rightarrow> (tag \<times> ustring option) option" where
  "collapse_sibling lc t svc T =
     Option.bind (sibling_winner t svc (tag_display T))
       (\<lambda>(to, a). case tag_parse lc to of Inl _ \<Rightarrow> None | Inr u \<Rightarrow> Some (u, Some a))"

definition collapse_parent :: "staging \<Rightarrow> int \<Rightarrow> tag \<Rightarrow> tag \<Rightarrow> ustring option option" where
  "collapse_parent t svc C P = (if C = P then None else map_option Some (parent_author t svc (tag_display C) (tag_display P)))"

definition staging_wf :: "(ustring \<Rightarrow> ustring) \<Rightarrow> staging \<Rightarrow> int \<Rightarrow> bool" where
  "staging_wf lc t svc \<longleftrightarrow>
     (\<forall>k f to a r. map_of t (svc, k, f, to, a) = Some r \<longrightarrow> canonical_text lc f \<and> canonical_text lc to)"

definition collapsed :: "(ustring \<Rightarrow> ustring) \<Rightarrow> client_db \<Rightarrow> int \<Rightarrow> bool" where
  "collapsed lc db svc \<longleftrightarrow> staging_wf lc (c_staging db) svc \<and>
     (\<forall>T. tag_wf lc T \<longrightarrow> sibling_view db (svc, T) = collapse_sibling lc (c_staging db) svc T) \<and>
     (\<forall>C P. tag_wf lc C \<and> tag_wf lc P \<longrightarrow> parent_view db (svc, C, P) = collapse_parent (c_staging db) svc C P)"

text \<open>An author's edge is current in the mirror.\<close>

definition staged_current :: "staging \<Rightarrow> int \<Rightarrow> rel_kind \<Rightarrow> ustring \<Rightarrow> ustring \<Rightarrow> ustring \<Rightarrow> bool" where
  "staged_current t svc k f to a \<longleftrightarrow> map_option se_status (map_of t (svc, k, f, to, a)) = Some Current"

lemma staged_current_iff:
  "keyed t \<Longrightarrow> staged_current t svc k f to a \<longleftrightarrow> (\<exists>r. ((svc, k, f, to, a), r) \<in> set t \<and> se_status r = Current)"
  by (auto simp: staged_current_def keyed_map_of_iff)

lemma sibling_candidates_set:
  "keyed t \<Longrightarrow> set (sibling_candidates t svc f) = {(to, a). staged_current t svc Sibling f to a \<and> to \<noteq> f}"
  unfolding sibling_candidates_def
  by (auto simp: map_filter_mem staged_current_iff split: if_splits intro!: rev_bexI) blast

lemma parent_authors_set: "keyed t \<Longrightarrow> set (parent_authors t svc f to) = {a. staged_current t svc Parent f to a}"
  unfolding parent_authors_def
  by (auto simp: map_filter_mem staged_current_iff split: if_splits intro!: rev_bexI) blast

lemma sibling_winner_cong:
  "keyed t \<Longrightarrow> keyed t' \<Longrightarrow> (\<And>to a. staged_current t svc Sibling f to a = staged_current t' svc Sibling f to a) \<Longrightarrow>
    sibling_winner t svc f = sibling_winner t' svc f"
  unfolding sibling_winner_def Let_def set_empty [symmetric] by (simp only: sibling_candidates_set)

lemma parent_author_cong:
  "keyed t \<Longrightarrow> keyed t' \<Longrightarrow> (\<And>a. staged_current t svc Parent f to a = staged_current t' svc Parent f to a) \<Longrightarrow>
    parent_author t svc f to = parent_author t' svc f to"
  unfolding parent_author_def Let_def set_empty [symmetric] by (simp only: parent_authors_set)

lemma sibling_winner_SomeD:
  assumes "keyed t" "sibling_winner t svc f = Some (to, a)"
  shows "staged_current t svc Sibling f to a" "to \<noteq> f"
    "\<And>to' a'. staged_current t svc Sibling f to' a' \<Longrightarrow> to' \<noteq> f \<Longrightarrow> (to, a) \<le> (to', a')"
proof -
  have ne: "set (sibling_candidates t svc f) \<noteq> {}" and m: "(to, a) = Min (set (sibling_candidates t svc f))"
    using assms(2) by (auto simp: sibling_winner_def Let_def split: if_splits)
  from Min_in [OF finite_set ne] show "staged_current t svc Sibling f to a" "to \<noteq> f"
    unfolding m [symmetric] unfolding sibling_candidates_set [OF assms(1)] by simp_all
  show "(to, a) \<le> (to', a')" if "staged_current t svc Sibling f to' a'" "to' \<noteq> f" for to' a'
    unfolding m by (rule Min_le [OF finite_set]) (use that in \<open>simp add: sibling_candidates_set [OF assms(1)]\<close>)
qed

lemma sibling_winner_NoneD:
  "keyed t \<Longrightarrow> sibling_winner t svc f = None \<Longrightarrow> staged_current t svc Sibling f to a \<Longrightarrow> to = f"
  using sibling_candidates_set [of t svc f] by (auto simp: sibling_winner_def Let_def split: if_splits)

lemma staged_canonical:
  "staging_wf lc t svc \<Longrightarrow> staged_current t svc k f to a \<Longrightarrow> canonical_text lc f \<and> canonical_text lc to"
  unfolding staging_wf_def staged_current_def by blast

section \<open>Recomputing a key\<close>

text \<open>Only the dictionary and the two relation tables differ.\<close>

definition same_but_relations :: "client_db \<Rightarrow> client_db \<Rightarrow> bool" where
  "same_but_relations db db' \<longleftrightarrow> (\<exists>ts ss ps. grows (c_tags db) ts \<and> db' = db\<lparr>c_tags := ts, c_siblings := ss, c_parents := ps\<rparr>)"

lemma same_but_refl: "ids_ok (c_tags db) \<Longrightarrow> same_but_relations db db"
  unfolding same_but_relations_def grows_def
  by (intro exI [of _ "c_tags db"] exI [of _ "c_siblings db"] exI [of _ "c_parents db"]) simp

lemma same_but_trans: "same_but_relations a b \<Longrightarrow> same_but_relations b c \<Longrightarrow> same_but_relations a c"
proof -
  assume "same_but_relations a b" "same_but_relations b c"
  then obtain ts ss ps ts' ss' ps' where "grows (c_tags a) ts" "b = a\<lparr>c_tags := ts, c_siblings := ss, c_parents := ps\<rparr>"
      "grows ts ts'" "c = b\<lparr>c_tags := ts', c_siblings := ss', c_parents := ps'\<rparr>"
    unfolding same_but_relations_def by (elim exE conjE) simp
  then show ?thesis unfolding same_but_relations_def
    by (intro exI [of _ ts'] exI [of _ ss'] exI [of _ ps']) (simp add: grows_trans)
qed

lemma same_but_staging: "same_but_relations db db' \<Longrightarrow> c_staging db' = c_staging db"
  unfolding same_but_relations_def by force

lemma recompute_sibling_spec:
  assumes lc: "lower_like lc" and ok: "rel_ok db" and T: "tag_wf lc T" and wf: "staging_wf lc (c_staging db) svc"
  obtains db' where "recompute_sibling lc now svc (tag_display T) db = Inr db'" "rel_ok db'" "same_but_relations db db'"
    "sibling_view db' = (sibling_view db)((svc, T) := collapse_sibling lc (c_staging db) svc T)" "parent_view db' = parent_view db"
proof (cases "sibling_winner (c_staging db) svc (tag_display T)")
  case None
  show ?thesis
  proof (cases "tag_id db T")
    case None
    then have "sibling_view db (svc, T) = None" by (simp add: sibling_view_def)
    then have "(sibling_view db)((svc, T) := None) = sibling_view db" by (simp add: fun_upd_idem_iff)
    then show ?thesis using that [of db] None ok same_but_refl rel_okD(1) [OF ok]
        \<open>sibling_winner (c_staging db) svc (tag_display T) = None\<close>
      by (simp add: recompute_sibling_def tag_parse_display [OF lc T] collapse_sibling_def)
  next
    case (Some i)
    let ?t = "sql_delete (\<lambda>k r. k = (i, svc)) (c_siblings db)"
    have m: "map_of ?t = (map_of (c_siblings db))((i, svc) := None)"
      by (rule ext) (simp add: map_of_delete rel_okD [OF ok] split: option.split)
    have k: "keyed ?t" using rel_okD(2) [OF ok] by simp
    have i: "map_of (c_tags db) T = Some i" using Some by (simp add: tag_id_def)
    note set = sibling_rows_set [OF ok i k m, simplified]
    show ?thesis
    proof (rule that [of "db\<lparr>c_siblings := ?t\<rparr>"])
      show "same_but_relations db (db\<lparr>c_siblings := ?t\<rparr>)" unfolding same_but_relations_def
        by (intro exI [of _ "c_tags db"] exI [of _ ?t] exI [of _ "c_parents db"]) (use rel_okD(1) [OF ok] in \<open>simp add: grows_def\<close>)
    qed (use set Some None in \<open>simp_all add: recompute_sibling_def tag_parse_display [OF lc T] collapse_sibling_def\<close>)
  qed
next
  case (Some w)
  obtain to a where w: "w = (to, a)" by fastforce
  have "canonical_text lc to"
    using staged_canonical [OF wf sibling_winner_SomeD(1) [OF rel_okD(4) [OF ok] Some [unfolded w]]] by blast
  then obtain J where J: "tag_wf lc J" "to = tag_display J" unfolding canonical_text_def by blast
  obtain i db1 where in1: "intern_tag db T = (i, db1)" by fastforce
  obtain ts where ts: "db1 = db\<lparr>c_tags := ts\<rparr>" "grows (c_tags db) ts" "map_of ts T = Some i"
    using intern_tag_grows [OF rel_okD(1) [OF ok] in1] by blast
  have ok1: "rel_ok db1" using views_grow(3) [OF ok ts(2)] ts(1) by simp
  obtain j db2 where in2: "intern_tag db1 J = (j, db2)" by fastforce
  obtain us where us: "db2 = db1\<lparr>c_tags := us\<rparr>" "grows (c_tags db1) us" "map_of us J = Some j"
    using intern_tag_grows [OF rel_okD(1) [OF ok1] in2] by blast
  have ok2: "rel_ok db2" using views_grow(3) [OF ok1 us(2)] us(1) by simp
  have same: "sibling_view db2 = sibling_view db" "parent_view db2 = parent_view db"
    using views_grow [OF ok1 us(2)] views_grow [OF ok ts(2)] us(1) ts(1) by simp_all
  have i2: "map_of (c_tags db2) T = Some i" "map_of (c_tags db2) J = Some j" using us ts(1,3) by (auto simp: grows_def)
  then have named: "tag_named db2 j = Some J" using named_iff [OF rel_okD(1) [OF ok2]] by (simp add: tag_id_def)
  let ?up = "\<lambda>r. r\<lparr>sr_ideal := j, sr_author := Some a\<rparr>"
  let ?new = "\<lparr>sr_ideal = j, sr_author = Some a, sr_created = now\<rparr>"
  let ?t = "sql_upsert (i, svc) ?new ?up (c_siblings db2)"
  let ?row = "case map_of (c_siblings db2) (i, svc) of None \<Rightarrow> ?new | Some r \<Rightarrow> ?up r"
  have row: "sr_ideal ?row = j" "sr_author ?row = Some a" by (simp_all split: option.split)
  have "sr_ideal ?row \<in> snd ` set (c_tags db2)"
    unfolding row using i2(2) range_iff [OF rel_okD(1) [OF ok2]] by blast
  then have rng: "\<And>r. Some ?row = Some r \<Longrightarrow> sr_ideal r \<in> snd ` set (c_tags db2)" by simp
  note set = sibling_rows_set [OF ok2 i2(1) keyed_upsert [OF rel_okD(2) [OF ok2]] map_of_upsert rng]
  show ?thesis
  proof (rule that [of "db2\<lparr>c_siblings := ?t\<rparr>"])
    show "recompute_sibling lc now svc (tag_display T) db = Inr (db2\<lparr>c_siblings := ?t\<rparr>)"
      using Some w J in1 in2 by (simp add: recompute_sibling_def tag_parse_display [OF lc T] tag_parse_display [OF lc J(1)])
    show "same_but_relations db (db2\<lparr>c_siblings := ?t\<rparr>)" unfolding same_but_relations_def
      by (intro exI [of _ us] exI [of _ ?t] exI [of _ "c_parents db"]) (use ts us in \<open>simp add: grows_trans [OF ts(2)]\<close>)
    show "sibling_view (db2\<lparr>c_siblings := ?t\<rparr>) = (sibling_view db)((svc, T) := collapse_sibling lc (c_staging db) svc T)"
      using set(3) Some w J named by (simp add: same row collapse_sibling_def tag_parse_display [OF lc J(1)])
  qed (use set same in simp_all)
qed

lemma intern_spec:
  assumes ok: "rel_ok db" and run: "intern_tag db T = (i, db1)"
  shows "rel_ok db1" "sibling_view db1 = sibling_view db" "parent_view db1 = parent_view db" "map_of (c_tags db1) T = Some i"
    "grows (c_tags db) (c_tags db1)" "c_siblings db1 = c_siblings db" "c_parents db1 = c_parents db" "same_but_relations db db1"
proof -
  obtain ts where ts: "db1 = db\<lparr>c_tags := ts\<rparr>" "grows (c_tags db) ts" "map_of ts T = Some i"
    using intern_tag_grows [OF rel_okD(1) [OF ok] run] by blast
  show "rel_ok db1" "sibling_view db1 = sibling_view db" "parent_view db1 = parent_view db" "map_of (c_tags db1) T = Some i"
    "grows (c_tags db) (c_tags db1)" "c_siblings db1 = c_siblings db" "c_parents db1 = c_parents db"
    using views_grow [OF ok ts(2)] ts by simp_all
  show "same_but_relations db db1" unfolding same_but_relations_def
    by (intro exI [of _ ts] exI [of _ "c_siblings db"] exI [of _ "c_parents db"]) (simp add: ts)
qed

lemma same_but_tables:
  "ids_ok (c_tags db) \<Longrightarrow> same_but_relations db (db\<lparr>c_siblings := ss\<rparr>)" "ids_ok (c_tags db) \<Longrightarrow> same_but_relations db (db\<lparr>c_parents := ps\<rparr>)"
  unfolding same_but_relations_def grows_def
  by (intro exI [of _ "c_tags db"] exI [of _ ss] exI [of _ "c_parents db"]; simp)
    (intro exI [of _ "c_tags db"] exI [of _ "c_siblings db"] exI [of _ ps]; simp)

lemma recompute_parent_spec:
  assumes lc: "lower_like lc" and ok: "rel_ok db" and C: "tag_wf lc C" and P: "tag_wf lc P"
  obtains db' where "recompute_parent lc now svc (tag_display C, tag_display P) db = Inr db'" "rel_ok db'"
    "same_but_relations db db'" "sibling_view db' = sibling_view db"
    "C \<noteq> P \<Longrightarrow> parent_view db' = (parent_view db)((svc, C, P) := collapse_parent (c_staging db) svc C P)"
    "C = P \<Longrightarrow> parent_view db' = parent_view db"
proof (cases "C = P")
  case True
  then show ?thesis using that [of db] ok same_but_refl [OF rel_okD(1) [OF ok]] by (simp add: recompute_parent_def)
next
  case CP: False
  then have ne: "tag_display C \<noteq> tag_display P" using tag_display_inj [OF lc C P] by simp
  note unf = recompute_parent_def ne tag_parse_display [OF lc C] tag_parse_display [OF lc P] collapse_parent_def CP
  show ?thesis
  proof (cases "parent_author (c_staging db) svc (tag_display C) (tag_display P)")
    case none: None
    show ?thesis
    proof (cases "\<exists>i j. tag_id db C = Some i \<and> tag_id db P = Some j")
      case False
      then have v: "parent_view db (svc, C, P) = None" by (cases "tag_id db C"; cases "tag_id db P") (auto simp: parent_view_def)
      have run: "recompute_parent lc now svc (tag_display C, tag_display P) db = Inr db"
        using False none by (auto simp: unf split: option.split)
      show ?thesis
        by (rule that [of db]) (use run ok same_but_refl [OF rel_okD(1) [OF ok]] none CP
          in \<open>simp_all add: collapse_parent_def fun_upd_idem [where f = "parent_view db", OF v]\<close>)
    next
      case True
      then obtain i j where ij: "tag_id db C = Some i" "tag_id db P = Some j" by blast
      let ?t = "sql_delete (\<lambda>k r. k = (i, j, svc)) (c_parents db)"
      have m: "map_of ?t = (map_of (c_parents db))((i, j, svc) := None)"
        by (rule ext) (simp add: map_of_delete rel_okD [OF ok] split: option.split)
      have k: "keyed ?t" using rel_okD(3) [OF ok] by simp
      note set = parent_rows_set [OF ok ij [unfolded tag_id_def] k m]
      show ?thesis
        by (rule that [of "db\<lparr>c_parents := ?t\<rparr>"])
          (use set ij none same_but_tables(2) [OF rel_okD(1) [OF ok]] in \<open>simp_all add: unf\<close>)
    qed
  next
    case (Some a)
    obtain i db1 where in1: "intern_tag db C = (i, db1)" by fastforce
    obtain j db2 where in2: "intern_tag db1 P = (j, db2)" by fastforce
    note one = intern_spec [OF ok in1] and two = intern_spec [OF intern_spec(1) [OF ok in1] in2]
    have i: "map_of (c_tags db2) C = Some i" using one(4) two(5) by (simp add: grows_def)
    let ?up = "\<lambda>r. r\<lparr>pr_author := Some a\<rparr>"
    let ?new = "\<lparr>pr_author = Some a, pr_created = now\<rparr>"
    let ?t = "sql_upsert (i, j, svc) ?new ?up (c_parents db2)"
    note set = parent_rows_set [OF two(1) i two(4) keyed_upsert [OF rel_okD(3) [OF two(1)]] map_of_upsert]
    have row: "map_option pr_author (Some (case map_of (c_parents db2) (i, j, svc) of None \<Rightarrow> ?new | Some r \<Rightarrow> ?up r)) = Some (Some a)"
      by (simp split: option.split)
    show ?thesis
    proof (rule that [of "db2\<lparr>c_parents := ?t\<rparr>"])
      show "recompute_parent lc now svc (tag_display C, tag_display P) db = Inr (db2\<lparr>c_parents := ?t\<rparr>)"
        using Some in1 in2 by (simp add: unf)
      show "same_but_relations db (db2\<lparr>c_parents := ?t\<rparr>)"
        by (rule same_but_trans [OF same_but_trans [OF one(8) two(8)] same_but_tables(2) [OF rel_okD(1) [OF two(1)]]])
      show "parent_view (db2\<lparr>c_parents := ?t\<rparr>) = (parent_view db)((svc, C, P) := collapse_parent (c_staging db) svc C P)"
        unfolding set(3) row using Some by (simp add: unf one two)
    qed (use set one two CP in simp_all)
  qed
qed

lemma recompute_siblings_spec:
  assumes lc: "lower_like lc"
  shows "rel_ok db \<Longrightarrow> \<forall>T\<in>set Ts. tag_wf lc T \<Longrightarrow> staging_wf lc (c_staging db) svc \<Longrightarrow>
    \<exists>db'. try_fold (recompute_sibling lc now svc) (map tag_display Ts) db = Inr db' \<and> rel_ok db' \<and> same_but_relations db db' \<and>
      (\<forall>k. sibling_view db' k = (if fst k = svc \<and> snd k \<in> set Ts then collapse_sibling lc (c_staging db) svc (snd k) else sibling_view db k)) \<and>
      parent_view db' = parent_view db"
proof (induction Ts arbitrary: db)
  case Nil
  then show ?case using same_but_refl [OF rel_okD(1)] by simp
next
  case (Cons T Ts)
  obtain db1 where db1: "recompute_sibling lc now svc (tag_display T) db = Inr db1" "rel_ok db1" "same_but_relations db db1"
    "sibling_view db1 = (sibling_view db)((svc, T) := collapse_sibling lc (c_staging db) svc T)" "parent_view db1 = parent_view db"
    using recompute_sibling_spec [OF lc Cons.prems(1) _ Cons.prems(3), of T] Cons.prems(2) by auto
  note st = same_but_staging [OF db1(3)]
  from Cons.IH [OF db1(2)] Cons.prems(2,3) obtain db' where
    db': "try_fold (recompute_sibling lc now svc) (map tag_display Ts) db1 = Inr db'" "rel_ok db'" "same_but_relations db1 db'"
      "\<forall>k. sibling_view db' k = (if fst k = svc \<and> snd k \<in> set Ts then collapse_sibling lc (c_staging db) svc (snd k) else sibling_view db1 k)"
      "parent_view db' = parent_view db1"
    by (auto simp: st)
  show ?case
    by (intro exI [of _ db'] conjI) (use db1 db' same_but_trans [OF db1(3) db'(3)] in \<open>auto simp: prod_eq_iff\<close>)
qed

lemma recompute_parents_spec:
  assumes lc: "lower_like lc"
  shows "rel_ok db \<Longrightarrow> \<forall>(C, P)\<in>set Es. tag_wf lc C \<and> tag_wf lc P \<Longrightarrow>
    \<exists>db'. try_fold (recompute_parent lc now svc) (map (map_prod tag_display tag_display) Es) db = Inr db' \<and> rel_ok db' \<and>
      same_but_relations db db' \<and> sibling_view db' = sibling_view db \<and>
      (\<forall>k. parent_view db' k = (if fst k = svc \<and> snd k \<in> set Es \<and> fst (snd k) \<noteq> snd (snd k)
         then collapse_parent (c_staging db) svc (fst (snd k)) (snd (snd k)) else parent_view db k))"
proof (induction Es arbitrary: db)
  case Nil
  then show ?case using same_but_refl [OF rel_okD(1)] by simp
next
  case (Cons E Es)
  obtain C P where E: "E = (C, P)" by fastforce
  obtain db1 where db1: "recompute_parent lc now svc (tag_display C, tag_display P) db = Inr db1" "rel_ok db1"
    "same_but_relations db db1" "sibling_view db1 = sibling_view db"
    "C \<noteq> P \<Longrightarrow> parent_view db1 = (parent_view db)((svc, C, P) := collapse_parent (c_staging db) svc C P)"
    "C = P \<Longrightarrow> parent_view db1 = parent_view db"
    using recompute_parent_spec [OF lc Cons.prems(1), of C P] Cons.prems(2) by (auto simp: E)
  note st = same_but_staging [OF db1(3)]
  from Cons.IH [OF db1(2)] Cons.prems(2) obtain db' where
    db': "try_fold (recompute_parent lc now svc) (map (map_prod tag_display tag_display) Es) db1 = Inr db'" "rel_ok db'"
      "same_but_relations db1 db'" "sibling_view db' = sibling_view db1"
      "\<forall>k. parent_view db' k = (if fst k = svc \<and> snd k \<in> set Es \<and> fst (snd k) \<noteq> snd (snd k)
         then collapse_parent (c_staging db) svc (fst (snd k)) (snd (snd k)) else parent_view db1 k)"
    by (auto simp: st)
  show ?case
    by (intro exI [of _ db'] conjI; cases "C = P")
      (use db1 db' same_but_trans [OF db1(3) db'(3)] in \<open>auto simp: E prod_eq_iff\<close>)
qed

section \<open>Staging\<close>

definition edge_status :: "edge_input \<Rightarrow> mapping_status" where
  "edge_status e = (if ei_deleted e then Deleted else Current)"

text \<open>The status of every mirrored edge.\<close>

definition staged :: "staging \<Rightarrow> staging_key \<Rightarrow> mapping_status option" where
  "staged t k = map_option se_status (map_of t k)"

definition edge_overlay :: "int \<Rightarrow> edge_input list \<Rightarrow> staging_key \<Rightarrow> mapping_status option" where
  "edge_overlay svc edges = map_of (rev (map (\<lambda>e. (edge_staging_key svc e, edge_status e)) edges))"

lemma stage_edges_spec:
  "keyed t \<Longrightarrow> fold (stage_edge svc) edges (t, S, P) = (t', S', P') \<Longrightarrow>
    keyed t' \<and> set S' = set S \<union> {tag_display (ei_from e) |e. e \<in> set edges \<and> ei_kind e = Sibling} \<and>
    set P' = set P \<union> {(tag_display (ei_from e), tag_display (ei_to e)) |e. e \<in> set edges \<and> ei_kind e = Parent} \<and>
    staged t' = staged t ++ edge_overlay svc edges"
proof (induction edges arbitrary: t S P)
  case Nil
  then show ?case by (simp add: edge_overlay_def)
next
  case (Cons e edges)
  obtain t1 S1 P1 where one: "stage_edge svc e (t, S, P) = (t1, S1, P1)" by (rule prod_cases3)
  have st: "keyed t1" "staged t1 = (staged t)(edge_staging_key svc e \<mapsto> edge_status e)"
    "set S1 = set S \<union> (if ei_kind e = Sibling then {tag_display (ei_from e)} else {})"
    "set P1 = set P \<union> (if ei_kind e = Parent then {(tag_display (ei_from e), tag_display (ei_to e))} else {})"
    using one Cons.prems(1) by (auto simp: stage_edge_def Let_def staged_def edge_status_def map_of_upsert fun_eq_iff split: rel_kind.splits option.splits)
  have "fold (stage_edge svc) edges (t1, S1, P1) = (t', S', P')" using Cons.prems(2) one by simp
  note IH = Cons.IH [OF st(1) this]
  have "staged t ++ edge_overlay svc (e # edges) = staged t1 ++ edge_overlay svc edges"
    by (simp add: st(2) edge_overlay_def map_add_def fun_eq_iff split: option.split)
  then show ?case using IH st(3,4) by auto
qed

lemma staged_current_staged: "staged_current t svc k f to a \<longleftrightarrow> staged t (svc, k, f, to, a) = Some Current"
  by (simp add: staged_current_def staged_def)

lemma overlay_SomeD:
  "edge_overlay svc edges k = Some st \<Longrightarrow> \<exists>e\<in>set edges. k = edge_staging_key svc e"
  unfolding edge_overlay_def by (auto dest!: map_of_SomeD)

lemma overlay_other: "(\<And>e. e \<in> set edges \<Longrightarrow> edge_staging_key svc e \<noteq> k) \<Longrightarrow> edge_overlay svc edges k = None"
  using overlay_SomeD [of svc edges k] by (cases "edge_overlay svc edges k") auto

lemma canonical_lists:
  assumes "\<forall>s\<in>set xs. canonical_text lc s"
  obtains Ts where "xs = map tag_display Ts" "\<forall>T\<in>set Ts. tag_wf lc T"
proof -
  have "\<exists>Ts. xs = map tag_display Ts \<and> (\<forall>T\<in>set Ts. tag_wf lc T)" using assms
  proof (induction xs)
    case (Cons x xs)
    then obtain T Ts where "tag_wf lc T" "x = tag_display T" "xs = map tag_display Ts" "\<forall>T\<in>set Ts. tag_wf lc T"
      by (auto simp: canonical_text_def)
    then show ?case by (intro exI [of _ "T # Ts"]) simp
  qed simp
  then show ?thesis using that by blast
qed

lemma canonical_pairs:
  assumes "\<forall>(s, u)\<in>set xs. canonical_text lc s \<and> canonical_text lc u"
  obtains Es where "xs = map (map_prod tag_display tag_display) Es" "\<forall>(C, P)\<in>set Es. tag_wf lc C \<and> tag_wf lc P"
proof -
  obtain Cs where Cs: "map fst xs = map tag_display Cs" "\<forall>T\<in>set Cs. tag_wf lc T" by (rule canonical_lists [of "map fst xs"]) (use assms in auto)
  obtain Ps where Ps: "map snd xs = map tag_display Ps" "\<forall>T\<in>set Ps. tag_wf lc T" by (rule canonical_lists [of "map snd xs"]) (use assms in auto)
  have len: "length Cs = length Ps" using Cs(1) Ps(1) by (metis length_map)
  have "xs = zip (map fst xs) (map snd xs)" by (simp add: zip_map_fst_snd)
  then have "xs = map (map_prod tag_display tag_display) (zip Cs Ps)"
    unfolding Cs(1) Ps(1) by (simp add: zip_map_map map_prod_def)
  then show ?thesis using that [of "zip Cs Ps"] Cs(2) Ps(2) by (fastforce dest: set_zip_leftD set_zip_rightD)
qed

section \<open>The incremental merge\<close>

definition edges_wf :: "(ustring \<Rightarrow> ustring) \<Rightarrow> edge_input list \<Rightarrow> bool" where
  "edges_wf lc edges \<longleftrightarrow> (\<forall>e\<in>set edges. tag_wf lc (ei_from e) \<and> tag_wf lc (ei_to e))"

text \<open>The library the merge starts from.\<close>

definition delta_base :: "int \<Rightarrow> bool \<Rightarrow> client_db \<Rightarrow> client_db" where
  "delta_base svc full_reset db =
     (if full_reset then clear_relations svc (db\<lparr>c_staging := sql_delete (\<lambda>k r. staging_service k = svc) (c_staging db)\<rparr>) else db)"

lemma delta_base_ok:
  assumes ok: "rel_ok db" and c: "full_reset \<or> collapsed lc db svc"
  shows "rel_ok (delta_base svc full_reset db)" "collapsed lc (delta_base svc full_reset db) svc"
    "staged (c_staging (delta_base svc full_reset db)) k = (if full_reset \<and> fst k = svc then None else staged (c_staging db) k)"
    "s \<noteq> svc \<Longrightarrow> sibling_view (delta_base svc full_reset db) (s, T) = sibling_view db (s, T)"
    "s \<noteq> svc \<Longrightarrow> parent_view (delta_base svc full_reset db) (s, C, P) = parent_view db (s, C, P)"
proof -
  let ?t = "sql_delete (\<lambda>k r. staging_service k = svc) (c_staging db)"
  let ?db = "db\<lparr>c_staging := ?t\<rparr>"
  note D = rel_okD [OF ok]
  have ok1: "rel_ok ?db" by (rule rel_okI) (use D in simp_all)
  have views: "sibling_view ?db = sibling_view db" "parent_view ?db = parent_view db"
    by (simp_all add: fun_eq_iff sibling_view_def parent_view_def tag_id_def tag_named_def)
  note cl = views_clear [OF ok1, of svc]
  have st: "map_of ?t k = (if fst k = svc then None else map_of (c_staging db) k)" for k
    by (simp add: map_of_delete D staging_service_def split: option.split)
  show "rel_ok (delta_base svc full_reset db)" using ok cl(1) by (simp add: delta_base_def)
  show "staged (c_staging (delta_base svc full_reset db)) k = (if full_reset \<and> fst k = svc then None else staged (c_staging db) k)"
    by (simp add: delta_base_def cl(4) staged_def st)
  show "sibling_view (delta_base svc full_reset db) (s, T) = sibling_view db (s, T)" if "s \<noteq> svc" using that cl(2) by (simp add: delta_base_def views)
  show "parent_view (delta_base svc full_reset db) (s, C, P) = parent_view db (s, C, P)" if "s \<noteq> svc" using that cl(3) by (simp add: delta_base_def views)
  show "collapsed lc (delta_base svc full_reset db) svc"
  proof (cases full_reset)
    case True
    have none: "\<not> staged_current ?t svc k f to a" for k f to a by (simp add: staged_current_def st)
    have k: "keyed ?t" using D by simp
    have "sibling_winner ?t svc f = None" "parent_author ?t svc f to = None" for f to
      using sibling_candidates_set [OF k, of svc f] parent_authors_set [OF k, of svc f to]
      by (simp_all add: none sibling_winner_def parent_author_def)
    then show ?thesis using True cl
      by (simp add: collapsed_def delta_base_def staging_wf_def st collapse_sibling_def collapse_parent_def)
  qed (use c in \<open>simp add: delta_base_def\<close>)
qed

text \<open>What a batch of edges leaves alone.\<close>

lemma overlay_current:
  "staged t = staged t0 ++ edge_overlay svc edges \<Longrightarrow> (\<And>e. e \<in> set edges \<Longrightarrow> edge_staging_key svc e \<noteq> (svc, kd, f, to, a)) \<Longrightarrow>
    staged_current t svc kd f to a = staged_current t0 svc kd f to a"
  using overlay_other [of edges svc "(svc, kd, f, to, a)"] by (simp add: staged_current_staged map_add_def)

lemma collapse_sibling_untouched:
  "keyed t0 \<Longrightarrow> keyed t \<Longrightarrow> staged t = staged t0 ++ edge_overlay svc edges \<Longrightarrow>
    (\<And>e. e \<in> set edges \<Longrightarrow> ei_kind e = Sibling \<Longrightarrow> tag_display (ei_from e) \<noteq> tag_display T) \<Longrightarrow>
    collapse_sibling lc t svc T = collapse_sibling lc t0 svc T"
  unfolding collapse_sibling_def
  by (subst sibling_winner_cong [where t' = t0]) (auto intro!: overlay_current simp: edge_staging_key_def)

lemma collapse_parent_untouched:
  "keyed t0 \<Longrightarrow> keyed t \<Longrightarrow> staged t = staged t0 ++ edge_overlay svc edges \<Longrightarrow>
    (\<And>e. e \<in> set edges \<Longrightarrow> ei_kind e = Parent \<Longrightarrow> (tag_display (ei_from e), tag_display (ei_to e)) \<noteq> (tag_display C, tag_display Q)) \<Longrightarrow>
    collapse_parent t svc C Q = collapse_parent t0 svc C Q"
  unfolding collapse_parent_def
  by (subst parent_author_cong [where t' = t0]) (auto intro!: overlay_current simp: edge_staging_key_def)

lemma staging_wf_overlay:
  assumes over: "staged t = staged t0 ++ edge_overlay svc edges" and wf0: "staging_wf lc t0 svc" and wf: "edges_wf lc edges"
  shows "staging_wf lc t svc"
  unfolding staging_wf_def
proof (intro allI impI)
  fix kd f to a r assume "map_of t (svc, kd, f, to, a) = Some r"
  then have "staged t (svc, kd, f, to, a) \<noteq> None" by (simp add: staged_def)
  then have "edge_overlay svc edges (svc, kd, f, to, a) \<noteq> None \<or> staged t0 (svc, kd, f, to, a) \<noteq> None"
    by (auto simp: over map_add_def split: option.splits)
  then show "canonical_text lc f \<and> canonical_text lc to"
  proof
    assume "edge_overlay svc edges (svc, kd, f, to, a) \<noteq> None"
    then show ?thesis using overlay_SomeD wf by (fastforce simp: edge_staging_key_def edges_wf_def canonical_text_def)
  next
    assume "staged t0 (svc, kd, f, to, a) \<noteq> None"
    then show ?thesis using wf0 by (fastforce simp: staging_wf_def staged_def)
  qed
qed

lemma relation_delta_spec:
  assumes lc: "lower_like lc" and ok: "rel_ok db" and c: "full_reset \<or> collapsed lc db svc" and wf: "edges_wf lc edges"
  obtains db' st where "merge_relation_delta lc db now svc full_reset cursor edges = Inr (db', st)"
    "rel_ok db'" "collapsed lc db' svc"
    "staged (c_staging db') = (\<lambda>k. if full_reset \<and> fst k = svc then None else staged (c_staging db) k) ++ edge_overlay svc edges"
    "\<And>s T. s \<noteq> svc \<Longrightarrow> sibling_view db' (s, T) = sibling_view db (s, T)"
    "\<And>s C P. s \<noteq> svc \<Longrightarrow> parent_view db' (s, C, P) = parent_view db (s, C, P)"
    "relation_cursor_of db' svc = Some (i64_saturated cursor)"
proof -
  let ?db0 = "delta_base svc full_reset db"
  note base = delta_base_ok [OF ok c]
  have base3: "staged (c_staging ?db0) = (\<lambda>k. if full_reset \<and> fst k = svc then None else staged (c_staging db) k)"
    by (rule ext) (rule base(3))
  obtain t S P where fold: "fold (stage_edge svc) edges (c_staging ?db0, [], []) = (t, S, P)" by (rule prod_cases3)
  note stage = stage_edges_spec [OF rel_okD(4) [OF base(1)] fold]
  let ?db1 = "?db0\<lparr>c_staging := t\<rparr>"
  have ok1: "rel_ok ?db1" by (rule rel_okI) (use rel_okD [OF base(1)] stage in simp_all)
  have views: "sibling_view ?db1 = sibling_view ?db0" "parent_view ?db1 = parent_view ?db0"
    by (simp_all add: fun_eq_iff sibling_view_def parent_view_def tag_id_def tag_named_def)
  have can: "canonical_text lc (tag_display (ei_from e)) \<and> canonical_text lc (tag_display (ei_to e))" if "e \<in> set edges" for e
    using wf that by (auto simp: edges_wf_def canonical_text_def)
  obtain Ts where Ts: "S = map tag_display Ts" "\<forall>T\<in>set Ts. tag_wf lc T" by (rule canonical_lists [of S lc]) (use stage can in auto)
  obtain Es where Es: "P = map (map_prod tag_display tag_display) Es" "\<forall>(C, P)\<in>set Es. tag_wf lc C \<and> tag_wf lc P"
    by (rule canonical_pairs [of P lc]) (use stage can in auto)
  have kt: "keyed (c_staging ?db0)" "keyed t" and over: "staged t = staged (c_staging ?db0) ++ edge_overlay svc edges"
    and setS: "set S = {tag_display (ei_from e) |e. e \<in> set edges \<and> ei_kind e = Sibling}"
    and setP: "set P = {(tag_display (ei_from e), tag_display (ei_to e)) |e. e \<in> set edges \<and> ei_kind e = Parent}"
    using rel_okD(4) [OF base(1)] stage by simp_all
  have wf1: "staging_wf lc t svc"
    by (rule staging_wf_overlay [OF over _ wf]) (use base(2) in \<open>simp add: collapsed_def\<close>)
  obtain db2 where db2: "try_fold (recompute_sibling lc now svc) S ?db1 = Inr db2" "rel_ok db2" "same_but_relations ?db1 db2"
    "\<And>k. sibling_view db2 k = (if fst k = svc \<and> snd k \<in> set Ts then collapse_sibling lc t svc (snd k) else sibling_view ?db0 k)"
    "parent_view db2 = parent_view ?db0"
    using recompute_siblings_spec [OF lc ok1 Ts(2), of svc now] wf1 by (auto simp: Ts(1) views)
  have st2: "c_staging db2 = t" using same_but_staging [OF db2(3)] by simp
  obtain db3 where db3: "try_fold (recompute_parent lc now svc) P db2 = Inr db3" "rel_ok db3" "same_but_relations db2 db3"
    "sibling_view db3 = sibling_view db2"
    "\<And>k. parent_view db3 k = (if fst k = svc \<and> snd k \<in> set Es \<and> fst (snd k) \<noteq> snd (snd k)
         then collapse_parent t svc (fst (snd k)) (snd (snd k)) else parent_view db2 k)"
    using recompute_parents_spec [OF lc db2(2) Es(2), of now svc] by (auto simp: Es(1) st2)
  have st3: "c_staging db3 = t" using same_but_staging [OF db3(3)] st2 by simp
  have sib: "sibling_view db3 (svc, T) = collapse_sibling lc t svc T" if T: "tag_wf lc T" for T
  proof (cases "T \<in> set Ts")
    case True
    then show ?thesis by (simp add: db3(4) db2(4))
  next
    case False
    then have out: "tag_display T \<notin> set S" using Ts tag_display_inj [OF lc T] by (auto simp: Ts(1))
    have "collapse_sibling lc t svc T = collapse_sibling lc (c_staging ?db0) svc T"
    proof (rule collapse_sibling_untouched [OF kt over])
      show "tag_display (ei_from e) \<noteq> tag_display T" if "e \<in> set edges" "ei_kind e = Sibling" for e
        using out setS that by auto
    qed
    then show ?thesis using False base(2) T by (simp add: db3(4) db2(4) collapsed_def)
  qed
  have par: "parent_view db3 (svc, C, Q) = collapse_parent t svc C Q" if CQ: "tag_wf lc C" "tag_wf lc Q" for C Q
  proof (cases "(C, Q) \<in> set Es \<or> C = Q")
    case True
    then show ?thesis
    proof
      assume "C = Q"
      then show ?thesis using base(2) CQ by (simp add: db3(5) db2(5) collapsed_def collapse_parent_def)
    qed (use db3(5) [of "(svc, C, Q)"] base(2) CQ in \<open>cases "C = Q"; simp add: db2(5) collapsed_def collapse_parent_def\<close>)
  next
    case False
    then have out: "(tag_display C, tag_display Q) \<notin> set P"
      using Es(2) tag_display_inj [OF lc CQ(1)] tag_display_inj [OF lc CQ(2)] by (fastforce simp: Es(1))
    have "collapse_parent t svc C Q = collapse_parent (c_staging ?db0) svc C Q"
    proof (rule collapse_parent_untouched [OF kt over])
      show "(tag_display (ei_from e), tag_display (ei_to e)) \<noteq> (tag_display C, tag_display Q)" if "e \<in> set edges" "ei_kind e = Parent" for e
        using out setP that by auto
    qed
    then show ?thesis using False base(2) CQ by (simp add: db3(5) db2(5) collapsed_def)
  qed
  let ?db4 = "db3\<lparr>c_relation_cursor := AList.update svc (i64_saturated cursor) (c_relation_cursor db3),
      c_relation_pulled := AList.update svc now (c_relation_pulled db3)\<rparr>"
  have v4: "sibling_view ?db4 = sibling_view db3" "parent_view ?db4 = parent_view db3"
    by (simp_all add: fun_eq_iff sibling_view_def parent_view_def tag_id_def tag_named_def)
  show ?thesis
  proof (rule that [of ?db4])
    show "merge_relation_delta lc db now svc full_reset cursor edges = Inr (?db4,
        \<lparr>rs_siblings = length (filter (\<lambda>(k, r). sibling_service k = svc) (c_siblings db3)),
         rs_parents = length (filter (\<lambda>(k, r). parent_service k = svc) (c_parents db3))\<rparr>)"
      unfolding merge_relation_delta_def Let_def delta_base_def [symmetric] fold by (simp add: db2(1) db3(1))
    show "rel_ok ?db4" by (rule rel_okI) (use rel_okD [OF db3(2)] in simp_all)
    show "collapsed lc ?db4 svc" using sib par wf1 by (simp add: collapsed_def v4 st3)
    show "staged (c_staging ?db4) = (\<lambda>k. if full_reset \<and> fst k = svc then None else staged (c_staging db) k) ++ edge_overlay svc edges"
      by (simp add: st3 over base3)
    show "relation_cursor_of ?db4 svc = Some (i64_saturated cursor)" by (simp add: relation_cursor_of_def)
  qed (simp_all add: v4 db3(4,5) db2(4,5) base)
qed

end
