(* ===== verification/DbGraph.thy ===== *)
theory DbGraph
  imports DbCollapse
begin

text \<open>
  The full merge of a relation graph, and its agreement with the incremental merge of the edges the graph was
  made from.
\<close>

section \<open>Interning through the cache\<close>

lemma intern_cached_spec:
  assumes ok: "rel_ok db" and c: "cached db pending" and run: "intern_tag_cached db T [] pending = (i, pending', db')"
  shows "rel_ok db'" "cached db' pending'" "sibling_view db' = sibling_view db" "parent_view db' = parent_view db"
    "map_of (c_tags db') T = Some i" "grows (c_tags db) (c_tags db')" "c_siblings db' = c_siblings db" "c_parents db' = c_parents db"
    "same_but_relations db db'"
proof -
  have cases: "(db' = db \<and> pending' = pending \<and> map_of pending T = Some i) \<or>
      (intern_tag db T = (i, db') \<and> pending' = AList.update T i pending)"
    using run by (auto simp: intern_tag_cached_def split: option.splits prod.splits)
  then show "rel_ok db'" "sibling_view db' = sibling_view db" "parent_view db' = parent_view db"
    "map_of (c_tags db') T = Some i" "grows (c_tags db) (c_tags db')" "c_siblings db' = c_siblings db" "c_parents db' = c_parents db"
    "same_but_relations db db'"
    using intern_spec [OF ok, of T i db'] ok c same_but_refl [OF rel_okD(1) [OF ok]] rel_okD(1) [OF ok]
    by (auto simp: cached_def grows_def)
  from cases show "cached db' pending'"
  proof
    assume "intern_tag db T = (i, db') \<and> pending' = AList.update T i pending"
    with intern_spec [OF ok, of T i db'] show ?thesis using c by (auto simp: cached_def grows_def update_conv split: if_splits)
  qed (use c in simp)
qed

lemma map_of_insert_new:
  "map_of (fst (sql_insert_new k r t)) = (case map_of t k of None \<Rightarrow> (map_of t)(k \<mapsto> r) | Some _ \<Rightarrow> map_of t)"
  by (simp add: sql_insert_new_def split: option.split)

lemma keyed_insert_new [simp]: "keyed t \<Longrightarrow> keyed (fst (sql_insert_new k r t))"
  by (simp add: sql_insert_new_def split: option.split)

section \<open>Inserting an edge\<close>

text \<open>The first edge of a key stays.\<close>

definition first_wins :: "('k \<Rightarrow> 'v option) \<Rightarrow> 'k \<Rightarrow> 'v \<Rightarrow> 'k \<Rightarrow> 'v option" where
  "first_wins m k v = (case m k of None \<Rightarrow> m(k \<mapsto> v) | Some _ \<Rightarrow> m)"

lemma sibling_row_view:
  assumes "rel_ok db" "map_of (c_tags db) T = Some i"
  shows "map_of (c_siblings db) (i, s) = None \<longleftrightarrow> sibling_view db (s, T) = None"
proof (cases "map_of (c_siblings db) (i, s)")
  case (Some r)
  then obtain u where "tag_named db (sr_ideal r) = Some u"
    using range_named [OF rel_okD(1) [OF assms(1)] rel_okD(6) [OF assms(1)]] by blast
  then show ?thesis using Some assms(2) by (simp add: sibling_view_def tag_id_def)
qed (use assms(2) in \<open>simp add: sibling_view_def tag_id_def\<close>)

lemma insert_sibling_spec:
  assumes ok: "rel_ok db" and c: "cached db pending" and run: "insert_sibling svc now (F, T, a) (db, pending, st) = (db', pending', st')"
  shows "rel_ok db' \<and> cached db' pending' \<and> same_but_relations db db' \<and> parent_view db' = parent_view db \<and>
    sibling_view db' = first_wins (sibling_view db) (svc, F) (T, Some a)"
proof -
  obtain i p1 db1 where in1: "intern_tag_cached db F [] pending = (i, p1, db1)" by (rule prod_cases3)
  note one = intern_cached_spec [OF ok c in1]
  obtain j p2 db2 where in2: "intern_tag_cached db1 T [] p1 = (j, p2, db2)" by (rule prod_cases3)
  note two = intern_cached_spec [OF one(1,2) in2]
  let ?row = "\<lparr>sr_ideal = j, sr_author = Some a, sr_created = now\<rparr>"
  let ?t = "fst (sql_insert_new (i, svc) ?row (c_siblings db2))"
  have db': "db' = db2\<lparr>c_siblings := ?t\<rparr>" "pending' = p2"
    using run in1 in2 by (auto simp: insert_sibling_def case_prod_beta)
  have i: "map_of (c_tags db2) F = Some i" using one(5) two(6) by (simp add: grows_def)
  have j: "j \<in> snd ` set (c_tags db2)" "tag_named db2 j = Some T"
    using two(5) range_iff [OF rel_okD(1) [OF two(1)]] named_iff [OF rel_okD(1) [OF two(1)]] by (auto simp: tag_id_def)
  let ?ro = "case map_of (c_siblings db2) (i, svc) of None \<Rightarrow> Some ?row | Some r \<Rightarrow> Some r"
  have m: "map_of ?t = (map_of (c_siblings db2))((i, svc) := ?ro)"
    by (auto simp: map_of_insert_new fun_eq_iff split: option.split)
  have rng: "\<And>r. ?ro = Some r \<Longrightarrow> sr_ideal r \<in> snd ` set (c_tags db2)"
    using j(1) rel_okD(6) [OF two(1)] by (cases "map_of (c_siblings db2) (i, svc)") simp_all
  have k: "keyed ?t" using rel_okD(2) [OF two(1)] by simp
  note set = sibling_rows_set [OF two(1) i k m rng]
  have "sibling_view (db2\<lparr>c_siblings := ?t\<rparr>) = first_wins (sibling_view db2) (svc, F) (T, Some a)"
  proof (cases "map_of (c_siblings db2) (i, svc)")
    case None
    then show ?thesis using set(3) sibling_row_view [OF two(1) i, of svc] by (simp add: first_wins_def j(2))
  next
    case (Some r)
    then have "?t = c_siblings db2" by (simp add: sql_insert_new_def)
    then show ?thesis using Some sibling_row_view [OF two(1) i, of svc] by (auto simp: first_wins_def)
  qed
  moreover have "same_but_relations db (db2\<lparr>c_siblings := ?t\<rparr>)"
    by (rule same_but_trans [OF same_but_trans [OF one(9) two(9)] same_but_tables(1) [OF rel_okD(1) [OF two(1)]]])
  ultimately show ?thesis using set(1,2) one two db' by (simp add: cached_def)
qed

lemma insert_parent_spec:
  assumes ok: "rel_ok db" and c: "cached db pending" and run: "insert_parent svc now (C, P, a) (db, pending, st) = (db', pending', st')"
  shows "rel_ok db' \<and> cached db' pending' \<and> same_but_relations db db' \<and> sibling_view db' = sibling_view db \<and>
    parent_view db' = (if C = P then parent_view db else first_wins (parent_view db) (svc, C, P) (Some a))"
proof (cases "C = P")
  case True
  then show ?thesis using run ok c same_but_refl [OF rel_okD(1) [OF ok]] by (simp add: insert_parent_def)
next
  case False
  obtain i p1 db1 where in1: "intern_tag_cached db C [] pending = (i, p1, db1)" by (rule prod_cases3)
  note one = intern_cached_spec [OF ok c in1]
  obtain j p2 db2 where in2: "intern_tag_cached db1 P [] p1 = (j, p2, db2)" by (rule prod_cases3)
  note two = intern_cached_spec [OF one(1,2) in2]
  let ?row = "\<lparr>pr_author = Some a, pr_created = now\<rparr>"
  let ?t = "fst (sql_insert_new (i, j, svc) ?row (c_parents db2))"
  have db': "db' = db2\<lparr>c_parents := ?t\<rparr>" "pending' = p2"
    using run in1 in2 False by (auto simp: insert_parent_def case_prod_beta)
  have i: "map_of (c_tags db2) C = Some i" using one(5) two(6) by (simp add: grows_def)
  let ?ro = "case map_of (c_parents db2) (i, j, svc) of None \<Rightarrow> Some ?row | Some r \<Rightarrow> Some r"
  have m: "map_of ?t = (map_of (c_parents db2))((i, j, svc) := ?ro)"
    by (auto simp: map_of_insert_new fun_eq_iff split: option.split)
  have k: "keyed ?t" using rel_okD(3) [OF two(1)] by simp
  note set = parent_rows_set [OF two(1) i two(5) k m]
  have v: "parent_view db2 (svc, C, P) = map_option pr_author (map_of (c_parents db2) (i, j, svc))"
    using i two(5) by (simp add: parent_view_def tag_id_def)
  have "parent_view (db2\<lparr>c_parents := ?t\<rparr>) = first_wins (parent_view db2) (svc, C, P) (Some a)"
    unfolding set(3) using v by (auto simp: first_wins_def fun_eq_iff split: option.split)
  moreover have "same_but_relations db (db2\<lparr>c_parents := ?t\<rparr>)"
    by (rule same_but_trans [OF same_but_trans [OF one(9) two(9)] same_but_tables(2) [OF rel_okD(1) [OF two(1)]]])
  ultimately show ?thesis using set(1,2) one two db' False by (simp add: cached_def)
qed

section \<open>The two loops\<close>

definition first_in :: "('k \<Rightarrow> 'v option) \<Rightarrow> ('k \<times> 'v) list \<Rightarrow> 'k \<Rightarrow> 'v option" where
  "first_in m xs k = (case m k of Some v \<Rightarrow> Some v | None \<Rightarrow> map_of xs k)"

lemma first_in_Cons: "first_in (first_wins m k v) xs = first_in m ((k, v) # xs)"
  by (auto simp: first_in_def first_wins_def fun_eq_iff split: option.split)

definition sibling_entries :: "int \<Rightarrow> tag_edge list \<Rightarrow> ((int \<times> tag) \<times> (tag \<times> ustring option)) list" where
  "sibling_entries svc es = map (\<lambda>(F, T, a). ((svc, F), (T, Some a))) es"

definition parent_entries :: "int \<Rightarrow> tag_edge list \<Rightarrow> ((int \<times> tag \<times> tag) \<times> ustring option) list" where
  "parent_entries svc es = map (\<lambda>(C, P, a). ((svc, C, P), Some a)) (filter (\<lambda>(C, P, a). C \<noteq> P) es)"

lemma insert_siblings_spec:
  "rel_ok db \<Longrightarrow> cached db pending \<Longrightarrow> fold (insert_sibling svc now) es (db, pending, st) = (db', pending', st') \<Longrightarrow>
    rel_ok db' \<and> cached db' pending' \<and> same_but_relations db db' \<and> parent_view db' = parent_view db \<and>
    sibling_view db' = first_in (sibling_view db) (sibling_entries svc es)"
proof (induction es arbitrary: db pending st)
  case Nil
  then show ?case using same_but_refl [OF rel_okD(1)] by (auto simp: first_in_def sibling_entries_def fun_eq_iff split: option.split)
next
  case (Cons e es)
  obtain F T a where e: "e = (F, T, a)" by (rule prod_cases3)
  obtain db1 p1 st1 where one: "insert_sibling svc now (F, T, a) (db, pending, st) = (db1, p1, st1)" by (rule prod_cases3)
  note spec = insert_sibling_spec [OF Cons.prems(1,2) one]
  have rest: "fold (insert_sibling svc now) es (db1, p1, st1) = (db', pending', st')" using Cons.prems(3) by (simp add: e one)
  note IH = Cons.IH [OF conjunct1 [OF spec] _ rest]
  then show ?case using spec same_but_trans [of db db1 db'] by (simp add: e sibling_entries_def first_in_Cons)
qed

lemma insert_parents_spec:
  "rel_ok db \<Longrightarrow> cached db pending \<Longrightarrow> fold (insert_parent svc now) es (db, pending, st) = (db', pending', st') \<Longrightarrow>
    rel_ok db' \<and> same_but_relations db db' \<and> sibling_view db' = sibling_view db \<and>
    parent_view db' = first_in (parent_view db) (parent_entries svc es)"
proof (induction es arbitrary: db pending st)
  case Nil
  then show ?case using same_but_refl [OF rel_okD(1)] by (auto simp: first_in_def parent_entries_def fun_eq_iff split: option.split)
next
  case (Cons e es)
  obtain C P a where e: "e = (C, P, a)" by (rule prod_cases3)
  obtain db1 p1 st1 where one: "insert_parent svc now (C, P, a) (db, pending, st) = (db1, p1, st1)" by (rule prod_cases3)
  note spec = insert_parent_spec [OF Cons.prems(1,2) one]
  have rest: "fold (insert_parent svc now) es (db1, p1, st1) = (db', pending', st')" using Cons.prems(3) by (simp add: e one)
  note IH = Cons.IH [OF conjunct1 [OF spec] _ rest]
  then show ?case using spec same_but_trans [of db db1 db'] by (simp add: e parent_entries_def first_in_Cons split: if_splits)
qed

text \<open>What the choice keeps for a text: an edge from it whose target is smallest.\<close>

lemma choose_siblings_spec:
  "keyed chosen \<Longrightarrow> \<forall>k e. map_of chosen k = Some e \<longrightarrow> k = tag_display (fst e) \<and> fst e \<noteq> fst (snd e) \<Longrightarrow>
    (let m = fold choose_sibling es chosen
     in keyed m \<and> (\<forall>k e. map_of m k = Some e \<longrightarrow> k = tag_display (fst e) \<and> fst e \<noteq> fst (snd e) \<and> (e \<in> set es \<or> map_of chosen k = Some e) \<and>
          (\<forall>e'. (e' \<in> set es \<and> tag_display (fst e') = k \<and> fst e' \<noteq> fst (snd e') \<or> map_of chosen k = Some e') \<longrightarrow>
             tag_display (fst (snd e)) \<le> tag_display (fst (snd e')))) \<and>
        (\<forall>k. map_of m k = None \<longrightarrow> map_of chosen k = None \<and> (\<forall>e\<in>set es. tag_display (fst e) = k \<longrightarrow> fst e = fst (snd e))))"
proof (induction es arbitrary: chosen)
  case Nil
  then show ?case by (auto simp: Let_def)
next
  case (Cons e es)
  obtain F T a where e: "e = (F, T, a)" by (rule prod_cases3)
  let ?c = "choose_sibling e chosen"
  have c: "keyed ?c" "\<forall>k e. map_of ?c k = Some e \<longrightarrow> k = tag_display (fst e) \<and> fst e \<noteq> fst (snd e)"
    using Cons.prems by (auto simp: choose_sibling_def e split: option.splits if_splits)
  have step: "map_of ?c k = (if F \<noteq> T \<and> k = tag_display F \<and>
      (\<forall>e'. map_of chosen k = Some e' \<longrightarrow> tag_display T < tag_display (fst (snd e'))) then Some e else map_of chosen k)" for k
    by (auto simp: choose_sibling_def e not_le split: option.splits if_splits prod.splits)
  show ?case
  proof -
    note IH = Cons.IH [OF c, unfolded Let_def]
    show ?thesis unfolding Let_def fold.simps comp_def
    proof (intro conjI allI impI)
      let ?m = "fold choose_sibling es ?c"
      show "keyed ?m" using IH by blast
      fix k x assume m: "map_of ?m k = Some x"
      have IHx: "k = tag_display (fst x)" "fst x \<noteq> fst (snd x)" "x \<in> set es \<or> map_of ?c k = Some x"
        "\<And>e'. e' \<in> set es \<and> tag_display (fst e') = k \<and> fst e' \<noteq> fst (snd e') \<or> map_of ?c k = Some e' \<Longrightarrow>
          tag_display (fst (snd x)) \<le> tag_display (fst (snd e'))"
        using IH m by blast+
      show "k = tag_display (fst x)" "fst x \<noteq> fst (snd x)" by (rule IHx)+
      show "x \<in> set (e # es) \<or> map_of chosen k = Some x" using IHx(3) by (auto simp: step split: if_splits)
      fix e' assume e': "e' \<in> set (e # es) \<and> tag_display (fst e') = k \<and> fst e' \<noteq> fst (snd e') \<or> map_of chosen k = Some e'"
      show "tag_display (fst (snd x)) \<le> tag_display (fst (snd e'))"
      proof (cases "e' \<in> set es \<and> tag_display (fst e') = k \<and> fst e' \<noteq> fst (snd e') \<or> map_of ?c k = Some e'")
        case False
        obtain y where y: "map_of ?c k = Some y" "tag_display (fst (snd y)) \<le> tag_display (fst (snd e'))"
        proof (cases "map_of chosen k = Some e'")
          case True
          then have "map_of ?c k \<noteq> Some e'" using False by blast
          then have "map_of ?c k = Some e" "tag_display T < tag_display (fst (snd e'))"
            using step [of k] True by (auto split: if_splits)
          then show ?thesis using that [of e] by (simp add: e less_imp_le)
        next
          case F2: False
          then have "e' = e" "tag_display F = k" "F \<noteq> T" using e' False by (auto simp: e)
          then show ?thesis using that step [of k] by (cases "map_of chosen k") (auto simp: e not_less split: if_splits)
        qed
        then show ?thesis using IHx(4) [of y] by simp
      qed (rule IHx(4))
    next
      fix k assume none: "map_of (fold choose_sibling es ?c) k = None"
      then have *: "map_of ?c k = None" "\<forall>e\<in>set es. tag_display (fst e) = k \<longrightarrow> fst e = fst (snd e)" using IH by blast+
      then show "map_of chosen k = None" by (auto simp: step split: if_splits)
      then show "\<forall>e\<in>set (e # es). tag_display (fst e) = k \<longrightarrow> fst e = fst (snd e)" using * step [of k] by (auto simp: e split: if_splits)
    qed
  qed
qed

lemma chosen_facts:
  shows chosen_keyed: "keyed (fold choose_sibling es [])"
    and chosen_SomeD: "map_of (fold choose_sibling es []) k = Some e \<Longrightarrow> k = tag_display (fst e) \<and> fst e \<noteq> fst (snd e) \<and> e \<in> set es"
    and chosen_least: "map_of (fold choose_sibling es []) k = Some e \<Longrightarrow> e' \<in> set es \<Longrightarrow> tag_display (fst e') = k \<Longrightarrow>
      fst e' \<noteq> fst (snd e') \<Longrightarrow> tag_display (fst (snd e)) \<le> tag_display (fst (snd e'))"
    and chosen_NoneD: "map_of (fold choose_sibling es []) k = None \<Longrightarrow> e' \<in> set es \<Longrightarrow> tag_display (fst e') = k \<Longrightarrow> fst e' = fst (snd e')"
proof -
  have "keyed []" "\<forall>k e. map_of [] k = Some e \<longrightarrow> k = tag_display (fst e) \<and> fst e \<noteq> fst (snd e)" by simp_all
  note spec = choose_siblings_spec [OF this, of es, unfolded Let_def]
  show "keyed (fold choose_sibling es [])" using spec by blast
  show "map_of (fold choose_sibling es []) k = Some e \<Longrightarrow> k = tag_display (fst e) \<and> fst e \<noteq> fst (snd e) \<and> e \<in> set es"
    using conjunct1 [OF conjunct2 [OF spec], rule_format, of k e] by simp
  show "map_of (fold choose_sibling es []) k = Some e \<Longrightarrow> e' \<in> set es \<Longrightarrow> tag_display (fst e') = k \<Longrightarrow>
      fst e' \<noteq> fst (snd e') \<Longrightarrow> tag_display (fst (snd e)) \<le> tag_display (fst (snd e'))"
    using conjunct1 [OF conjunct2 [OF spec], rule_format, of k e] by blast
  show "map_of (fold choose_sibling es []) k = None \<Longrightarrow> e' \<in> set es \<Longrightarrow> tag_display (fst e') = k \<Longrightarrow> fst e' = fst (snd e')"
    using conjunct2 [OF conjunct2 [OF spec], rule_format, of k] by blast
qed

lemma chosen_inj:
  assumes "x \<in> set (fold choose_sibling es [])" "y \<in> set (fold choose_sibling es [])" "fst (snd x) = fst (snd y)"
  shows "x = y"
proof -
  have "map_of (fold choose_sibling es []) (fst x) = Some (snd x)" "map_of (fold choose_sibling es []) (fst y) = Some (snd y)"
    using assms(1,2) chosen_keyed [of es] by (simp_all add: keyed_map_of_iff)
  then have "fst x = fst y" using chosen_SomeD assms(3) by metis
  then show ?thesis using assms(1,2) chosen_keyed [of es] by (auto simp: keyed_def distinct_map dest: inj_onD)
qed

lemma chosen_entries:
  assumes "map_of (fold choose_sibling es []) k = Some (F, T, a)"
  shows "map_of (sibling_entries svc (map snd (fold choose_sibling es []))) (svc, F) = Some (T, Some a)"
proof (rule map_of_is_SomeI)
  let ?m = "fold choose_sibling es []"
  have "inj_on (\<lambda>x. fst (snd x)) (set ?m)" using chosen_inj by (rule inj_onI)
  moreover have "distinct ?m" using chosen_keyed [of es] by (simp add: keyed_def distinct_map)
  ultimately show "distinct (map fst (sibling_entries svc (map snd ?m)))"
    by (simp add: sibling_entries_def comp_def case_prod_beta distinct_map inj_on_def)
  show "((svc, F), T, Some a) \<in> set (sibling_entries svc (map snd ?m))"
    using map_of_SomeD [OF assms] by (force simp: sibling_entries_def)
qed

section \<open>The graph of a mirror\<close>

text \<open>A list of edges shows every current pair of a kind with its least author, and nothing else.\<close>

definition least_author :: "staging \<Rightarrow> int \<Rightarrow> rel_kind \<Rightarrow> ustring \<Rightarrow> ustring \<Rightarrow> ustring \<Rightarrow> bool" where
  "least_author t svc k f to a \<longleftrightarrow> staged_current t svc k f to a \<and> (\<forall>b. staged_current t svc k f to b \<longrightarrow> a \<le> b)"

definition lists_kind :: "(ustring \<Rightarrow> ustring) \<Rightarrow> staging \<Rightarrow> int \<Rightarrow> rel_kind \<Rightarrow> tag_edge list \<Rightarrow> bool" where
  "lists_kind lc t svc k es \<longleftrightarrow>
     (\<forall>F T a. (F, T, a) \<in> set es \<longleftrightarrow> tag_wf lc F \<and> tag_wf lc T \<and> least_author t svc k (tag_display F) (tag_display T) a)"

lemma staged_finite: "keyed t \<Longrightarrow> finite {a. staged_current t svc k f to a}"
  unfolding staged_current_iff
  by (rule finite_subset [of _ "(\<lambda>((s, k, f, to, a), r). a) ` set t"]) force+

lemma least_author_exists:
  assumes "keyed t" "staged_current t svc k f to b"
  obtains a where "least_author t svc k f to a"
proof -
  let ?A = "{a. staged_current t svc k f to a}"
  have fin: "finite ?A" by (rule staged_finite [OF assms(1)])
  have "Min ?A \<in> ?A" by (rule Min_in [OF fin]) (use assms(2) in blast)
  then show ?thesis using Min_le [OF fin] by (intro that [of "Min ?A"]) (auto simp: least_author_def)
qed

lemma parent_author_least:
  assumes k: "keyed t"
  shows "parent_author t svc f to = Some a \<longleftrightarrow> least_author t svc Parent f to a"
proof -
  let ?A = "set (parent_authors t svc f to)"
  have A: "?A = {a. staged_current t svc Parent f to a}" by (rule parent_authors_set [OF k])
  have "parent_author t svc f to = Some a \<longleftrightarrow> ?A \<noteq> {} \<and> a = Min ?A" by (auto simp: parent_author_def Let_def)
  also have "\<dots> \<longleftrightarrow> a \<in> ?A \<and> (\<forall>b\<in>?A. a \<le> b)"
    by (metis List.finite_set Min_eqI Min_in Min_le empty_iff)
  also have "\<dots> \<longleftrightarrow> least_author t svc Parent f to a" by (auto simp: A least_author_def)
  finally show ?thesis .
qed

lemma sibling_winnerI:
  assumes "keyed t" "staged_current t svc Sibling f to a" "to \<noteq> f"
    "\<And>to' a'. staged_current t svc Sibling f to' a' \<Longrightarrow> to' \<noteq> f \<Longrightarrow> (to, a) \<le> (to', a')"
  shows "sibling_winner t svc f = Some (to, a)"
proof -
  have "Min (set (sibling_candidates t svc f)) = (to, a)"
    by (rule Min_eqI [OF finite_set]) (use assms in \<open>auto simp: sibling_candidates_set\<close>)
  moreover have "sibling_candidates t svc f \<noteq> []"
    using assms(2,3) sibling_candidates_set [OF assms(1), of svc f] by force
  ultimately show ?thesis by (simp add: sibling_winner_def)
qed

lemma sibling_winner_None:
  "keyed t \<Longrightarrow> (\<And>to a. staged_current t svc Sibling f to a \<Longrightarrow> to = f) \<Longrightarrow> sibling_winner t svc f = None"
  using sibling_winner_SomeD(1,2) by (cases "sibling_winner t svc f") (auto, blast)

text \<open>The chosen edge of a text is the winner of the mirror.\<close>

lemma chosen_is_winner:
  assumes lc: "lower_like lc" and t: "keyed t" "staging_wf lc t svc" and es: "lists_kind lc t svc Sibling es" and F: "tag_wf lc F"
  shows "map_of (sibling_entries svc (map snd (fold choose_sibling es []))) (svc, F) = collapse_sibling lc t svc F"
proof -
  let ?m = "fold choose_sibling es []"
  have listed: "\<exists>U b. (F, U, b) \<in> set es \<and> tag_wf lc U \<and> to = tag_display U" if cur: "staged_current t svc Sibling (tag_display F) to a" for to a
  proof -
    obtain U where "tag_wf lc U" "to = tag_display U" using staged_canonical [OF t(2) cur] by (auto simp: canonical_text_def)
    moreover obtain b where "least_author t svc Sibling (tag_display F) to b" using least_author_exists [OF t(1) cur] .
    ultimately show ?thesis using es F by (auto simp: lists_kind_def)
  qed
  have entry: "map_of ?m (tag_display F) = Some e" if e: "e \<in> snd ` set ?m" "fst e = F" for e
  proof -
    obtain k where "map_of ?m k = Some e" using e(1) chosen_keyed [of es] by (auto simp: keyed_map_of_iff)
    then show ?thesis using chosen_SomeD e(2) by metis
  qed
  show ?thesis
  proof (cases "map_of ?m (tag_display F)")
    case None
    have "map_of (sibling_entries svc (map snd ?m)) (svc, F) = None"
      unfolding map_of_eq_None_iff sibling_entries_def using None entry by force
    moreover have "sibling_winner t svc (tag_display F) = None"
    proof (rule sibling_winner_None [OF t(1)])
      show "to = tag_display F" if cur: "staged_current t svc Sibling (tag_display F) to a" for to a
        using listed [OF cur] chosen_NoneD [OF None] by force
    qed
    ultimately show ?thesis by (simp add: collapse_sibling_def)
  next
    case (Some e)
    obtain F' T a where e: "e = (F', T, a)" by (rule prod_cases3)
    note SD = chosen_SomeD [OF Some, unfolded e, simplified]
    have F': "F' = F" using SD es tag_display_inj [OF lc F] by (auto simp: lists_kind_def)
    have T: "tag_wf lc T" and la: "least_author t svc Sibling (tag_display F) (tag_display T) a" and FT: "F \<noteq> T"
      using es SD by (auto simp: lists_kind_def F')
    have "sibling_winner t svc (tag_display F) = Some (tag_display T, a)"
    proof (rule sibling_winnerI [OF t(1)])
      show "(tag_display T, a) \<le> (to', a')" if cur: "staged_current t svc Sibling (tag_display F) to' a'" "to' \<noteq> tag_display F" for to' a'
      proof -
        obtain U b where U: "(F, U, b) \<in> set es" "to' = tag_display U" using listed [OF cur(1)] by blast
        then have "tag_display T \<le> to'" using chosen_least [OF Some U(1)] cur(2) by (force simp: e)
        then show ?thesis using la cur(1) by (cases "tag_display T = to'") (auto simp: less_eq_prod_def least_author_def)
      qed
    qed (use la FT tag_display_inj [OF lc F T] in \<open>auto simp: least_author_def\<close>)
    moreover have "map_of (sibling_entries svc (map snd ?m)) (svc, F) = Some (T, Some a)"
      using chosen_entries [OF Some [unfolded e F']] .
    ultimately show ?thesis by (simp add: collapse_sibling_def tag_parse_display [OF lc T])
  qed
qed

section \<open>The full merge\<close>

lemma full_merge_spec:
  assumes ok: "rel_ok db" and run: "merge_pulled_relations db now svc siblings parents = (db', st)"
  shows "rel_ok db'" "c_staging db' = c_staging db"
    "sibling_view db' (svc, F) = map_of (sibling_entries svc (map snd (fold choose_sibling siblings []))) (svc, F)"
    "parent_view db' (svc, C, P) = map_of (parent_entries svc parents) (svc, C, P)"
    "s \<noteq> svc \<Longrightarrow> sibling_view db' (s, T) = sibling_view db (s, T)"
    "s \<noteq> svc \<Longrightarrow> parent_view db' (s, C, P) = parent_view db (s, C, P)"
    "relation_cursor_of db' s = relation_cursor_of db s"
proof -
  let ?ss = "map snd (fold choose_sibling siblings [])"
  note clear = views_clear [OF ok, of svc]
  obtain db1 p1 st1 where one: "fold (insert_sibling svc now) ?ss (clear_relations svc db, [], \<lparr>rs_siblings = 0, rs_parents = 0\<rparr>) = (db1, p1, st1)"
    by (rule prod_cases3)
  note sibs = insert_siblings_spec [OF clear(1) cached_Nil one]
  obtain db2 p2 st2 where two: "fold (insert_parent svc now) parents (db1, p1, st1) = (db2, p2, st2)" by (rule prod_cases3)
  note pars = insert_parents_spec [OF conjunct1 [OF sibs] conjunct1 [OF conjunct2 [OF sibs]] two]
  have db': "db' = db2\<lparr>c_relation_pulled := AList.update svc now (c_relation_pulled db2)\<rparr>"
    using run one two by (simp add: merge_pulled_relations_def Let_def)
  have views: "sibling_view db' = sibling_view db2" "parent_view db' = parent_view db2"
    by (simp_all add: db' fun_eq_iff sibling_view_def parent_view_def tag_id_def tag_named_def)
  have same: "same_but_relations (clear_relations svc db) db2"
    using sibs pars same_but_trans [of "clear_relations svc db" db1 db2] by blast
  show "rel_ok db'" by (rule rel_okI) (use rel_okD [OF conjunct1 [OF pars]] in \<open>simp_all add: db'\<close>)
  show "c_staging db' = c_staging db" using same_but_staging [OF same] clear(4) by (simp add: db')
  show "relation_cursor_of db' s = relation_cursor_of db s"
    using same by (auto simp: db' relation_cursor_of_def same_but_relations_def clear_relations_def)
  have other: "map_of (sibling_entries svc es) (s, T) = None" "map_of (parent_entries svc es) (s, C, P) = None" if "s \<noteq> svc" for s es T C P
    using that by (auto simp: sibling_entries_def parent_entries_def map_of_eq_None_iff)
  show "sibling_view db' (svc, F) = map_of (sibling_entries svc ?ss) (svc, F)" "parent_view db' (svc, C, P) = map_of (parent_entries svc parents) (svc, C, P)"
    "s \<noteq> svc \<Longrightarrow> sibling_view db' (s, T) = sibling_view db (s, T)" "s \<noteq> svc \<Longrightarrow> parent_view db' (s, C, P) = parent_view db (s, C, P)"
    using sibs pars clear(2,3) other by (auto simp: views first_in_def split: option.split)
qed

lemma parent_entries_iff: "((svc, C, P), v) \<in> set (parent_entries svc es) \<longleftrightarrow> C \<noteq> P \<and> (\<exists>a. v = Some a \<and> (C, P, a) \<in> set es)"
  unfolding parent_entries_def by (induction es) auto

lemma parents_are_listed:
  assumes lc: "lower_like lc" and t: "keyed t" and es: "lists_kind lc t svc Parent es" and wf: "tag_wf lc C" "tag_wf lc P"
  shows "map_of (parent_entries svc es) (svc, C, P) = collapse_parent t svc C P"
proof (cases "parent_author t svc (tag_display C) (tag_display P)")
  case None
  then have "\<not> least_author t svc Parent (tag_display C) (tag_display P) a" for a
    using parent_author_least [OF t] by (metis option.distinct(1))
  then have "map_of (parent_entries svc es) (svc, C, P) = None"
    using es by (auto simp: map_of_eq_None_iff parent_entries_def lists_kind_def)
  then show ?thesis using None by (simp add: collapse_parent_def)
next
  case (Some a)
  then have la: "least_author t svc Parent (tag_display C) (tag_display P) b \<longleftrightarrow> b = a" for b
    using parent_author_least [OF t] by (metis option.inject)
  have mem: "((svc, C, P), v) \<in> set (parent_entries svc es) \<longleftrightarrow> C \<noteq> P \<and> v = Some a" for v
    using es wf la by (simp add: parent_entries_iff lists_kind_def)
  show ?thesis
  proof (cases "C = P")
    case True
    then have "map_of (parent_entries svc es) (svc, C, P) \<noteq> Some v" for v using mem [of v] map_of_SomeD by metis
    then have "map_of (parent_entries svc es) (svc, C, P) = None" by auto
    then show ?thesis using True by (simp add: collapse_parent_def)
  next
    case False
    then have "((svc, C, P), Some a) \<in> set (parent_entries svc es)" using mem by simp
    then obtain v where v: "map_of (parent_entries svc es) (svc, C, P) = Some v" using weak_map_of_SomeI by metis
    then have "v = Some a" using mem [of v] map_of_SomeD [OF v] by simp
    then show ?thesis using v Some False by (simp add: collapse_parent_def)
  qed
qed

text \<open>The full merge of the graph of a mirror is its collapse.\<close>

lemma full_merge_collapses:
  assumes lc: "lower_like lc" and ok: "rel_ok db" and t: "keyed t" "staging_wf lc t svc"
    and lists: "lists_kind lc t svc Sibling siblings" "lists_kind lc t svc Parent parents"
    and run: "merge_pulled_relations db now svc siblings parents = (db', st)"
  shows "tag_wf lc F \<Longrightarrow> sibling_view db' (svc, F) = collapse_sibling lc t svc F"
    "tag_wf lc C \<Longrightarrow> tag_wf lc P \<Longrightarrow> parent_view db' (svc, C, P) = collapse_parent t svc C P"
  using full_merge_spec(3,4) [OF ok run] chosen_is_winner [OF lc t lists(1)] parents_are_listed [OF lc t(1) lists(2)] by simp_all

section \<open>Incremental and full agree\<close>

text \<open>
  C5. The incremental relation merge.  Take a library whose tables are the collapse of its mirror, or any library with
  a reset, and a batch of edges with well-formed tags.  The merge succeeds, the mirror is the old one with the last
  edge of each key laid over it, the tables are the collapse of the new mirror, the cursor is recorded, and the
  relations of other services stay.
\<close>

theorem relation_delta_exact:
  assumes "lower_like lc" "rel_ok db" "full_reset \<or> collapsed lc db svc" "edges_wf lc edges"
  shows "\<exists>db' st. merge_relation_delta lc db now svc full_reset cursor edges = Inr (db', st) \<and> rel_ok db' \<and> collapsed lc db' svc \<and>
    staged (c_staging db') = (\<lambda>k. if full_reset \<and> fst k = svc then None else staged (c_staging db) k) ++ edge_overlay svc edges \<and>
    relation_cursor_of db' svc = Some (i64_saturated cursor) \<and>
    (\<forall>s T. s \<noteq> svc \<longrightarrow> sibling_view db' (s, T) = sibling_view db (s, T)) \<and>
    (\<forall>s C P. s \<noteq> svc \<longrightarrow> parent_view db' (s, C, P) = parent_view db (s, C, P))"
  by (rule relation_delta_spec [OF assms]) (intro exI conjI, assumption+, simp_all)

text \<open>
  C4. An incremental relation merge ends as the full merge would.  Merge a batch of edges into a library whose tables
  are the collapse of its mirror, or with a reset; and merge the whole graph, every current edge of the new mirror
  with its least author, into any library.  Then both show for every tag the same ideal and for every pair of
  tags the same implication, with the same authors.
\<close>

theorem incremental_equals_full:
  assumes "lower_like lc" "rel_ok db" "full_reset \<or> collapsed lc db svc" "edges_wf lc edges"
    and "merge_relation_delta lc db now svc full_reset cursor edges = Inr (db', st)"
    and "lists_kind lc (c_staging db') svc Sibling siblings" "lists_kind lc (c_staging db') svc Parent parents"
    and "rel_ok other" "merge_pulled_relations other now2 svc siblings parents = (full, st2)"
  shows "(\<forall>F. tag_wf lc F \<longrightarrow> sibling_view full (svc, F) = sibling_view db' (svc, F)) \<and>
    (\<forall>C P. tag_wf lc C \<and> tag_wf lc P \<longrightarrow> parent_view full (svc, C, P) = parent_view db' (svc, C, P))"
proof -
  obtain db2 st2 where "merge_relation_delta lc db now svc full_reset cursor edges = Inr (db2, st2)" "rel_ok db2" "collapsed lc db2 svc"
    by (rule relation_delta_spec [OF assms(1-4)])
  then have db': "rel_ok db'" "collapsed lc db' svc" using assms(5) by simp_all
  then have "staging_wf lc (c_staging db') svc" by (simp add: collapsed_def)
  note full = full_merge_collapses [OF assms(1,8) rel_okD(4) [OF db'(1)] this assms(6,7,9)]
  show ?thesis using full db'(2) by (simp add: collapsed_def)
qed

section \<open>Witnesses\<close>

definition bare_library :: client_db where
  "bare_library =
     \<lparr>c_files = [], c_sha256_seq = 0, c_tags = [], c_origins = [], c_maps = [], c_pull = [], c_relation_cursor = [],
      c_relation_pulled = [], c_siblings = [], c_parents = [], c_staging = [], c_generation = []\<rparr>"

definition tag_a :: tag where "tag_a = \<lparr>namespace = [], subtag = lit ''a''\<rparr>"
definition tag_b :: tag where "tag_b = \<lparr>namespace = [], subtag = lit ''b''\<rparr>"

definition alias_edge :: edge_input where
  "alias_edge = \<lparr>ei_kind = Sibling, ei_from = tag_a, ei_to = tag_b, ei_author = lit ''p'', ei_deleted = False, ei_seq = 1\<rparr>"

lemma bare_ok: "rel_ok bare_library"
  by (rule rel_okI) (simp_all add: bare_library_def ids_ok_def)

lemma tags_ab [simp]:
  "tag_wf to_ascii_lowercase tag_a" "tag_wf to_ascii_lowercase tag_b" "tag_display tag_a = lit ''a''" "tag_display tag_b = lit ''b''"
  by (simp_all add: tag_wf_def tag_a_def tag_b_def tag_display_def normal_def tag_normalize_def str_eval)

lemma alias_edge_ok: "edges_wf to_ascii_lowercase [alias_edge]"
  by (simp add: edges_wf_def alias_edge_def)

theorem relation_delta_exact_witness:
  "\<exists>db' st. merge_relation_delta to_ascii_lowercase bare_library 0 7 True 1 [alias_edge] = Inr (db', st) \<and>
     relation_cursor_of db' 7 = Some 1 \<and> staged (c_staging db') (7, Sibling, lit ''a'', lit ''b'', lit ''p'') = Some Current"
proof -
  obtain db' st where "merge_relation_delta to_ascii_lowercase bare_library 0 7 True 1 [alias_edge] = Inr (db', st)"
    "relation_cursor_of db' 7 = Some (i64_saturated 1)"
    "staged (c_staging db') = (\<lambda>k. if True \<and> fst k = 7 then None else staged (c_staging bare_library) k) ++ edge_overlay 7 [alias_edge]"
    using relation_delta_exact [OF lower_like_ascii bare_ok disjI1 [OF TrueI] alias_edge_ok, of 0 7 1] by blast
  then show ?thesis
    by (intro exI [of _ db'] exI [of _ st])
      (simp add: i64_saturated_def edge_overlay_def edge_staging_key_def edge_status_def alias_edge_def del: lit_Cons)
qed

theorem incremental_equals_full_witness:
  "\<exists>db' st. merge_relation_delta to_ascii_lowercase bare_library 0 7 True 1 [alias_edge] = Inr (db', st) \<and>
     sibling_view (fst (merge_pulled_relations bare_library 5 7 [(tag_a, tag_b, lit ''p'')] [])) (7, tag_a) = sibling_view db' (7, tag_a)"
proof -
  let ?lc = to_ascii_lowercase
  obtain db' st where run: "merge_relation_delta ?lc bare_library 0 7 True 1 [alias_edge] = Inr (db', st)"
    and st: "staged (c_staging db') = (\<lambda>k. if True \<and> fst k = 7 then None else staged (c_staging bare_library) k) ++ edge_overlay 7 [alias_edge]"
    by (rule relation_delta_spec [OF lower_like_ascii bare_ok disjI1 [OF TrueI] alias_edge_ok, where svc = 7 and now = 0 and cursor = 1])
  have cur: "staged_current (c_staging db') 7 k f to a \<longleftrightarrow> k = Sibling \<and> f = tag_display tag_a \<and> to = tag_display tag_b \<and> a = lit ''p''" for k f to a
    unfolding staged_current_staged st
    by (auto simp: edge_overlay_def edge_staging_key_def edge_status_def alias_edge_def simp del: lit_Cons tags_ab(3,4))
  have inj: "tag_display F = tag_display tag_a \<longleftrightarrow> F = tag_a" "tag_display F = tag_display tag_b \<longleftrightarrow> F = tag_b" if "tag_wf ?lc F" for F
    using tag_display_inj [OF lower_like_ascii that] tags_ab by blast+
  have "lists_kind ?lc (c_staging db') 7 Sibling [(tag_a, tag_b, lit ''p'')]" "lists_kind ?lc (c_staging db') 7 Parent []"
    using inj by (auto simp: lists_kind_def least_author_def cur simp del: lit_Cons tags_ab(3,4))
  from incremental_equals_full [OF lower_like_ascii bare_ok disjI1 [OF TrueI] alias_edge_ok run this bare_ok, of 5]
  show ?thesis using run by (metis prod.collapse tags_ab(1))
qed

end
