(* ===== verification/DaemonRelate.thy ===== *)
theory DaemonRelate
  imports DaemonRelations DbGraph DaemonSync
begin

text \<open>
  A pull of relations from a repository leaves the library with the relations the repository holds, whichever
  way the pull goes: an edge delta laid over the mirror of an earlier store, or the whole graph.
\<close>

section \<open>The relations of a store\<close>

text \<open>The ideal of a tag: of the current sibling edges to another tag, the smallest by target and author.\<close>

definition store_ideal :: "(ustring \<Rightarrow> ustring) \<Rightarrow> store \<Rightarrow> tag \<Rightarrow> tag \<Rightarrow> ustring \<Rightarrow> bool" where
  "store_ideal lc s F T a \<longleftrightarrow>
     tag_wf lc T \<and> T \<noteq> F \<and> relation_status s (Sibling, tag_display F, tag_display T, a) = Some Current \<and>
     (\<forall>U b. tag_wf lc U \<and> U \<noteq> F \<and> relation_status s (Sibling, tag_display F, tag_display U, b) = Some Current \<longrightarrow>
        (tag_display T, a) \<le> (tag_display U, b))"

definition store_implies :: "store \<Rightarrow> tag \<Rightarrow> tag \<Rightarrow> ustring \<Rightarrow> bool" where
  "store_implies s C P a \<longleftrightarrow>
     C \<noteq> P \<and> relation_status s (Parent, tag_display C, tag_display P, a) = Some Current \<and>
     (\<forall>b. relation_status s (Parent, tag_display C, tag_display P, b) = Some Current \<longrightarrow> a \<le> b)"

definition relations_in_sync :: "(ustring \<Rightarrow> ustring) \<Rightarrow> int \<Rightarrow> client_db \<Rightarrow> store \<Rightarrow> bool" where
  "relations_in_sync lc svc db s \<longleftrightarrow>
     (\<forall>F T a. tag_wf lc F \<longrightarrow> (sibling_view db (svc, F) = Some (T, a) \<longleftrightarrow> (\<exists>b. a = Some b \<and> store_ideal lc s F T b))) \<and>
     (\<forall>C P a. tag_wf lc C \<and> tag_wf lc P \<longrightarrow> (parent_view db (svc, C, P) = Some a \<longleftrightarrow> (\<exists>b. a = Some b \<and> store_implies s C P b)))"

section \<open>A mirror that shows the store\<close>

definition shows_store :: "staging \<Rightarrow> int \<Rightarrow> store \<Rightarrow> bool" where
  "shows_store t svc s \<longleftrightarrow> (\<forall>k f to a. staged t (svc, k, f, to, a) = relation_status s (k, f, to, a))"

lemma shows_current: "shows_store t svc s \<Longrightarrow> staged_current t svc k f to a \<longleftrightarrow> relation_status s (k, f, to, a) = Some Current"
  by (simp add: shows_store_def staged_current_staged)

lemma shows_wf: "shows_store t svc s \<Longrightarrow> canonical_relations lc s \<Longrightarrow> staging_wf lc t svc"
proof -
  assume *: "shows_store t svc s" "canonical_relations lc s"
  have "canonical_text lc f \<and> canonical_text lc to" if "map_of t (svc, k, f, to, a) = Some r" for k f to a r
  proof -
    have "relation_status s (k, f, to, a) \<noteq> None" using that *(1) by (metis shows_store_def staged_def option.map_disc_iff option.distinct(1))
    from canonicalD [OF *(2) this] show ?thesis by (auto simp: canonical_text_def)
  qed
  then show ?thesis by (simp add: staging_wf_def)
qed

lemma collapse_is_ideal:
  assumes lc: "lower_like lc" and t: "keyed t" "shows_store t svc s" and can: "canonical_relations lc s" and F: "tag_wf lc F"
  shows "collapse_sibling lc t svc F = Some (T, x) \<longleftrightarrow> (\<exists>b. x = Some b \<and> store_ideal lc s F T b)"
proof -
  note cur = shows_current [OF t(2)]
  have wf: "staging_wf lc t svc" by (rule shows_wf [OF t(2) can])
  have named: "\<exists>U. tag_wf lc U \<and> to = tag_display U" if "staged_current t svc Sibling f to a" for f to a
    using staged_canonical [OF wf that] by (auto simp: canonical_text_def)
  have inj: "tag_display U = tag_display F \<longleftrightarrow> U = F" if "tag_wf lc U" for U using tag_display_inj [OF lc that F] .
  have win: "sibling_winner t svc (tag_display F) = Some (tag_display U, b) \<longleftrightarrow> store_ideal lc s F U b" if U: "tag_wf lc U" for U b
  proof
    assume w: "sibling_winner t svc (tag_display F) = Some (tag_display U, b)"
    show "store_ideal lc s F U b"
      using sibling_winner_SomeD [OF t(1) w] U inj by (auto simp: store_ideal_def cur)
  next
    assume i: "store_ideal lc s F U b"
    show "sibling_winner t svc (tag_display F) = Some (tag_display U, b)"
    proof (rule sibling_winnerI [OF t(1)])
      show "(tag_display U, b) \<le> (to', a')" if c: "staged_current t svc Sibling (tag_display F) to' a'" "to' \<noteq> tag_display F" for to' a'
        using named [OF c(1)] i c inj by (auto simp: store_ideal_def cur)
    qed (use i inj U in \<open>auto simp: store_ideal_def cur\<close>)
  qed
  show ?thesis
  proof
    assume "collapse_sibling lc t svc F = Some (T, x)"
    then obtain w0 where w0: "sibling_winner t svc (tag_display F) = Some w0"
      "(case tag_parse lc (fst w0) of Inl _ \<Rightarrow> None | Inr u \<Rightarrow> Some (u, Some (snd w0))) = Some (T, x)"
      by (auto simp: collapse_sibling_def bind_eq_Some_conv case_prod_beta)
    obtain to a where "w0 = (to, a)" by fastforce
    with w0 have w: "sibling_winner t svc (tag_display F) = Some (to, a)" "tag_parse lc to = Inr T" "x = Some a"
      by (auto split: sum.splits)
    obtain U where U: "tag_wf lc U" "to = tag_display U" using named [OF sibling_winner_SomeD(1) [OF t(1) w(1)]] by blast
    then have "U = T" using w(2) tag_parse_display [OF lc U(1)] by simp
    then show "\<exists>b. x = Some b \<and> store_ideal lc s F T b" using w U win by auto
  next
    assume "\<exists>b. x = Some b \<and> store_ideal lc s F T b"
    then obtain b where b: "x = Some b" "store_ideal lc s F T b" by blast
    then have T: "tag_wf lc T" by (simp add: store_ideal_def)
    then have "sibling_winner t svc (tag_display F) = Some (tag_display T, b)" using b win by blast
    then show "collapse_sibling lc t svc F = Some (T, x)" using b by (simp add: collapse_sibling_def tag_parse_display [OF lc T])
  qed
qed

lemma collapse_is_implied:
  assumes t: "keyed t" "shows_store t svc s"
  shows "collapse_parent t svc C P = Some x \<longleftrightarrow> (\<exists>b. x = Some b \<and> store_implies s C P b)"
  using parent_author_least [OF t(1), of svc "tag_display C" "tag_display P"]
  by (auto simp: collapse_parent_def store_implies_def least_author_def shows_current [OF t(2)])

lemma in_sync_collapse:
  assumes "lower_like lc" "keyed t" "shows_store t svc s" "canonical_relations lc s"
    "\<And>F. tag_wf lc F \<Longrightarrow> sibling_view db (svc, F) = collapse_sibling lc t svc F"
    "\<And>C P. tag_wf lc C \<Longrightarrow> tag_wf lc P \<Longrightarrow> parent_view db (svc, C, P) = collapse_parent t svc C P"
  shows "relations_in_sync lc svc db s"
  unfolding relations_in_sync_def
  using collapse_is_ideal [OF assms(1-4)] collapse_is_implied [OF assms(2,3)] assms(5,6) by simp

section \<open>The graph and the delta of a store\<close>

text \<open>The store as a mirror.\<close>

definition store_mirror :: "int \<Rightarrow> store \<Rightarrow> staging" where
  "store_mirror svc s = map (\<lambda>((k, f, t, a), r). ((svc, k, f, t, a), \<lparr>se_status = rl_status r, se_seq = rl_seq r\<rparr>)) (relation_rows s)"

lemma map_of_mirror:
  "map_of (map (\<lambda>((k, f, t, a), r). ((svc, k, f, t, a), g r)) rs) (svc, key) = map_option g (map_of rs key)"
  by (induction rs) auto

lemma store_mirror_map: "map_of (store_mirror svc s) (svc, k) = map_option (\<lambda>r. \<lparr>se_status = rl_status r, se_seq = rl_seq r\<rparr>) (map_of (relation_rows s) k)"
  unfolding store_mirror_def by (rule map_of_mirror)

lemma store_mirror_ok: "relations_ok s \<Longrightarrow> keyed (store_mirror svc s)" "shows_store (store_mirror svc s) svc s"
proof -
  assume "relations_ok s"
  then have "keyed (relation_rows s)" by (simp add: seqs_pos_def)
  moreover have "map fst (store_mirror svc s) = map (Pair svc) (map fst (relation_rows s))"
    by (auto simp: store_mirror_def)
  ultimately show "keyed (store_mirror svc s)" by (simp add: keyed_def distinct_map inj_on_def)
next
  show "shows_store (store_mirror svc s) svc s"
    by (simp add: shows_store_def staged_def store_mirror_map relation_status_def option.map_comp comp_def)
qed

lemma parse_edges_iff:
  "(F, T, a) \<in> set (parse_edges lc es) \<longleftrightarrow>
    (\<exists>e\<in>set es. tag_parse lc (ae_from e) = Inr F \<and> tag_parse lc (ae_to e) = Inr T \<and> ae_author e = a)"
proof -
  have "(case (tag_parse lc (ae_from e), tag_parse lc (ae_to e)) of (Inr from, Inr to) \<Rightarrow> Some (from, to, ae_author e) | _ \<Rightarrow> None) = Some (F, T, a) \<longleftrightarrow>
      tag_parse lc (ae_from e) = Inr F \<and> tag_parse lc (ae_to e) = Inr T \<and> ae_author e = a" for e :: authored_edge
    by (cases "tag_parse lc (ae_from e)"; cases "tag_parse lc (ae_to e)") auto
  then show ?thesis by (simp only: parse_edges_def map_filter_mem)
qed

lemma delta_inputs_parsed:
  assumes "x \<in> set (delta_inputs lc es)"
  obtains e where "e \<in> set es" "tag_parse lc (de_from e) = Inr (ei_from x)" "tag_parse lc (de_to e) = Inr (ei_to x)"
proof -
  obtain e where e: "e \<in> set es" and x: "(case (tag_parse lc (de_from e), tag_parse lc (de_to e)) of
         (Inr from, Inr to) \<Rightarrow> Some \<lparr>ei_kind = de_kind e, ei_from = from, ei_to = to, ei_author = de_author e,
                 ei_deleted = (de_status e = Deleted), ei_seq = nat (de_seq e)\<rparr>
       | _ \<Rightarrow> None) = Some x"
    using assms by (auto simp only: delta_inputs_def map_filter_mem)
  show ?thesis
    by (rule that [OF e]) (use x in \<open>cases "tag_parse lc (de_from e)"; cases "tag_parse lc (de_to e)"; auto\<close>)+
qed

lemma parsed_graph_lists:
  assumes lc: "lower_like lc" and ok: "relations_ok s" and can: "canonical_relations lc s"
  shows "lists_kind lc (store_mirror svc s) svc k (parse_edges lc (edges_of_kind s k))"
proof -
  have keyed: "keyed (relation_rows s)" using ok by (simp add: seqs_pos_def)
  note cur = shows_current [OF store_mirror_ok(2), of svc s]
  have authors: "set (edge_authors s k f t) = {a. relation_status s (k, f, t, a) = Some Current}" for f t
    using edge_authors_iff [OF keyed] by blast
  have edge: "e \<in> set (edges_of_kind s k) \<longleftrightarrow> (ae_from e, ae_to e) \<in> graph_pairs s k \<and> ae_author e = Min (set (edge_authors s k (ae_from e) (ae_to e)))" for e
  proof -
    have "finite (graph_pairs s k)" by (simp add: graph_pairs_def)
    then show ?thesis by (cases e) (force simp: edges_of_kind_pairs image_iff)
  qed
  have least: "(f, t) \<in> graph_pairs s k \<and> a = Min (set (edge_authors s k f t)) \<longleftrightarrow> least_author (store_mirror svc s) svc k f t a" for f t a
  proof -
    let ?A = "set (edge_authors s k f t)"
    have "(f, t) \<in> graph_pairs s k \<longleftrightarrow> ?A \<noteq> {}" using graph_pairs_iff [OF keyed] authors by auto
    moreover have "?A \<noteq> {} \<and> a = Min ?A \<longleftrightarrow> a \<in> ?A \<and> (\<forall>b\<in>?A. a \<le> b)"
      by (metis List.finite_set Min_eqI Min_in Min_le empty_iff)
    ultimately show ?thesis unfolding authors by (simp add: least_author_def cur)
  qed
  have "(F, T, a) \<in> set (parse_edges lc (edges_of_kind s k)) \<longleftrightarrow>
      tag_wf lc F \<and> tag_wf lc T \<and> least_author (store_mirror svc s) svc k (tag_display F) (tag_display T) a" for F T a
  proof
    assume "(F, T, a) \<in> set (parse_edges lc (edges_of_kind s k))"
    then obtain e where e: "e \<in> set (edges_of_kind s k)" "tag_parse lc (ae_from e) = Inr F" "tag_parse lc (ae_to e) = Inr T" "ae_author e = a"
      by (auto simp: parse_edges_iff)
    then have la: "least_author (store_mirror svc s) svc k (ae_from e) (ae_to e) a" using edge least by blast
    then have "relation_status s (k, ae_from e, ae_to e, a) \<noteq> None" by (simp add: least_author_def cur)
    then obtain F' T' where c: "tag_wf lc F'" "tag_wf lc T'" "ae_from e = tag_display F'" "ae_to e = tag_display T'"
      using canonicalD [OF can] by blast
    then have "F' = F" "T' = T" using e(2,3) tag_parse_display [OF lc] by simp_all
    then show "tag_wf lc F \<and> tag_wf lc T \<and> least_author (store_mirror svc s) svc k (tag_display F) (tag_display T) a" using c la by simp
  next
    assume *: "tag_wf lc F \<and> tag_wf lc T \<and> least_author (store_mirror svc s) svc k (tag_display F) (tag_display T) a"
    let ?e = "\<lparr>ae_from = tag_display F, ae_to = tag_display T, ae_author = a\<rparr>"
    have "?e \<in> set (edges_of_kind s k)" using * least edge [of ?e] by simp
    then show "(F, T, a) \<in> set (parse_edges lc (edges_of_kind s k))"
      unfolding parse_edges_iff by (rule rev_bexI) (use * tag_parse_display [OF lc] in simp)
  qed
  then show ?thesis by (simp add: lists_kind_def)
qed

lemma delta_inputs_overlay:
  assumes lc: "lower_like lc" and ok: "relations_ok s" and can: "canonical_relations lc s"
  shows "edges_wf lc (delta_inputs lc (edges_since s n))"
    "edge_overlay svc (delta_inputs lc (edges_since s n)) (svc, k) = map_of (map (\<lambda>e. (edge_key e, de_status e)) (edges_since s n)) k"
    "fst k' \<noteq> svc \<Longrightarrow> edge_overlay svc (delta_inputs lc (edges_since s n)) k' = None"
proof -
  let ?in = "\<lambda>e F T. \<lparr>ei_kind = de_kind e, ei_from = F, ei_to = T, ei_author = de_author e,
    ei_deleted = (de_status e = Deleted), ei_seq = nat (de_seq e)\<rparr>"
  have keyed: "keyed (relation_rows s)" using ok by (simp add: seqs_pos_def)
  have can_e: "\<exists>F T. tag_wf lc F \<and> tag_wf lc T \<and> de_from e = tag_display F \<and> de_to e = tag_display T" if e: "e \<in> set (edges_since s n)" for e
  proof -
    obtain key r where "(key, r) \<in> set (relation_rows s)" "e = edge_of_row (key, r)"
      using e by (auto simp: edges_since_def Let_def rows_since_def)
    then have "relation_status s (edge_key e) \<noteq> None"
      using keyed by (auto simp: relation_status_def edge_key_def edge_of_row_def keyed_map_of_iff [symmetric] split: prod.splits)
    then show ?thesis using canonicalD [OF can] by (simp add: edge_key_def)
  qed
  show "edges_wf lc (delta_inputs lc (edges_since s n))"
    unfolding edges_wf_def using tag_parse_wf [OF lc] delta_inputs_parsed by metis
  have over: "\<forall>e\<in>set es. \<exists>F T. tag_wf lc F \<and> tag_wf lc T \<and> de_from e = tag_display F \<and> de_to e = tag_display T \<Longrightarrow>
      map (\<lambda>e. (edge_staging_key svc e, edge_status e)) (delta_inputs lc es) = map (\<lambda>e. ((svc, edge_key e), de_status e)) es" for es
  proof (induction es)
    case (Cons e es)
    then obtain F T where FT: "tag_wf lc F" "tag_wf lc T" "de_from e = tag_display F" "de_to e = tag_display T" by auto
    have "delta_inputs lc (e # es) = ?in e F T # delta_inputs lc es"
      using FT tag_parse_display [OF lc] by (simp add: delta_inputs_def List.map_filter_simps)
    moreover have "(if de_status e = Deleted then Deleted else Current) = de_status e" by (cases "de_status e") simp_all
    ultimately show ?case using Cons FT by (simp add: edge_staging_key_def edge_status_def edge_key_def)
  qed (simp add: delta_inputs_def List.map_filter_simps)
  have dist: "keyed (map (\<lambda>e. (edge_key e, de_status e)) (edges_since s n))"
  proof -
    have "keyed (sort_key (\<lambda>kr. rl_seq (snd kr)) (rows_since rl_seq c (relation_rows s)))" for c
      using keyed by (simp add: keyed_def rows_since_def distinct_map inj_on_def)
    moreover have "(\<lambda>kr. edge_key (edge_of_row kr)) = fst"
      by (auto simp: edge_key_def edge_of_row_def fun_eq_iff)
    ultimately show ?thesis by (simp add: keyed_def edges_since_def Let_def comp_def)
  qed
  have pairs: "map_of (rev xs) = map_of xs" if "keyed xs" for xs :: "('a \<times> 'b) list"
    using that by (simp add: keyed_def map_of_inject_set rev_map [symmetric])
  have lift: "map_of (map (\<lambda>e. ((svc, edge_key e), de_status e)) es) (svc, k) = map_of (map (\<lambda>e. (edge_key e, de_status e)) es) k" for es k
    by (induction es) auto
  have ov: "edge_overlay svc (delta_inputs lc (edges_since s n)) = map_of (map (\<lambda>e. ((svc, edge_key e), de_status e)) (edges_since s n))"
  proof -
    have "keyed (map (\<lambda>e. ((svc, edge_key e), de_status e)) (edges_since s n))"
      using dist by (simp add: keyed_def distinct_map inj_on_def comp_def)
    then show ?thesis unfolding edge_overlay_def using over can_e by (simp add: pairs)
  qed
  show "edge_overlay svc (delta_inputs lc (edges_since s n)) (svc, k) = map_of (map (\<lambda>e. (edge_key e, de_status e)) (edges_since s n)) k"
    unfolding ov by (rule lift)
  show "fst k' \<noteq> svc \<Longrightarrow> edge_overlay svc (delta_inputs lc (edges_since s n)) k' = None"
    unfolding ov by (auto simp: map_of_eq_None_iff)
qed

section \<open>A repository over the network\<close>

record relation_wire =
  enc_graph :: "StoreRelations.relation_graph \<Rightarrow> byte list"
  dec_graph :: "byte list \<Rightarrow> StoreRelations.relation_graph option"
  enc_edges :: "relation_delta \<Rightarrow> byte list"
  dec_edges :: "byte list \<Rightarrow> relation_delta option"

definition relation_wire_ok :: "relation_wire \<Rightarrow> bool" where
  "relation_wire_ok W \<longleftrightarrow> (\<forall>x. dec_graph W (enc_graph W x) = Some x) \<and> (\<forall>x. dec_edges W (enc_edges W x) = Some x)"

definition relations_http :: "relation_wire \<Rightarrow> relations_response \<Rightarrow> http_body http_result" where
  "relations_http W r =
     (case r of
        RelGraph g \<Rightarrow> HttpOk \<lparr>body_bytes = enc_graph W g, body_fails = False\<rparr>
      | RelDelta d \<Rightarrow> HttpOk \<lparr>body_bytes = enc_edges W d, body_fails = False\<rparr>)"

definition relation_repo :: "store \<Rightarrow> relation_wire \<Rightarrow> (nat \<Rightarrow> ustring option) \<Rightarrow> nat relation_net" where
  "relation_repo s W faults =
     \<lparr>rel_get = (\<lambda>r w. (case faults w of
          Some msg \<Rightarrow> HttpTransport msg
        | None \<Rightarrow> relations_http W (relations_handler s (case r of GetRelations \<Rightarrow> None | GetRelationsSince n \<Rightarrow> Some n)), Suc w)),
      json_graph = dec_graph W, json_edges = dec_edges W\<rparr>"

lemma fetched_graph:
  "relation_wire_ok W \<Longrightarrow> fetch_relations (relation_repo s W faults) io0 = (Inr g, io1) \<Longrightarrow> g = relations s"
  by (auto simp: fetch_relations_def relation_repo_def relations_http_def relations_handler_def relation_wire_ok_def read_capped_def
      checked_def and_then_Inr_iff Let_def split: option.splits if_splits sum.splits)

lemma fetched_edges:
  "relation_wire_ok W \<Longrightarrow> fetch_relations_since (relation_repo s W faults) n io0 = (Inr d, io1) \<Longrightarrow>
    dl_cursor d = nat (relation_cursor s) \<and> dl_edges d = edges_since s n"
  by (auto simp: fetch_relations_since_def relation_repo_def relations_http_def relations_handler_def relation_wire_ok_def read_capped_def
      checked_def and_then_Inr_iff Let_def split: option.splits if_splits sum.splits)

section \<open>Pulling\<close>

text \<open>The library mirrors a store, is its collapse, and remembers the store's cursor.\<close>

definition follows :: "(ustring \<Rightarrow> ustring) \<Rightarrow> int \<Rightarrow> client_db \<Rightarrow> store \<Rightarrow> bool" where
  "follows lc svc db s \<longleftrightarrow> rel_ok db \<and> collapsed lc db svc \<and> shows_store (c_staging db) svc s \<and>
     relation_cursor_of db svc = Some (relation_cursor s)"

lemma follows_in_sync: "lower_like lc \<Longrightarrow> follows lc svc db s \<Longrightarrow> canonical_relations lc s \<Longrightarrow> relations_in_sync lc svc db s"
  by (rule in_sync_collapse [of lc "c_staging db"]) (auto simp: follows_def collapsed_def dest: rel_okD(4))

lemma edges_from_zero:
  assumes "relations_ok s"
  shows "map_of (map (\<lambda>e. (edge_key e, de_status e)) (edges_since s 0)) = relation_status s"
proof
  fix k
  have "rows_since rl_seq 0 (relation_rows s) = relation_rows s"
    using assms by (auto simp: rows_since_def seqs_pos_def keyed_map_of_iff intro!: filter_True)
  then show "map_of (map (\<lambda>e. (edge_key e, de_status e)) (edges_since s 0)) k = relation_status s k"
    using edges_since_map [of s 0 k] assms by (simp add: relation_status_def seqs_pos_def)
qed

lemma merged_edges_follow:
  assumes lc: "lower_like lc" and s': "relations_ok s'" "canonical_relations lc s'" "relation_cursor s' < 2 ^ 63"
    and db: "rel_ok db" and start: "full_reset \<or> follows lc svc db s"
    and n: "if full_reset then n = 0 else n = nat (relation_cursor s) \<and> relations_ok s \<and> (relation_step C)\<^sup>*\<^sup>* s s' \<and> relation_cursor s < 2 ^ 63"
    and run: "merge_relation_delta lc db now svc full_reset (nat (relation_cursor s')) (delta_inputs lc (edges_since s' n)) = Inr (db', st)"
  shows "follows lc svc db' s'"
proof -
  note over = delta_inputs_overlay [OF lc s'(1,2)]
  have c: "full_reset \<or> collapsed lc db svc" using start by (auto simp: follows_def)
  obtain db2 st2 where run2: "merge_relation_delta lc db now svc full_reset (nat (relation_cursor s')) (delta_inputs lc (edges_since s' n)) = Inr (db2, st2)"
    and spec: "rel_ok db2" "collapsed lc db2 svc"
      "staged (c_staging db2) = (\<lambda>k. if full_reset \<and> fst k = svc then None else staged (c_staging db) k) ++ edge_overlay svc (delta_inputs lc (edges_since s' n))"
      "relation_cursor_of db2 svc = Some (i64_saturated (nat (relation_cursor s')))"
    by (rule relation_delta_spec [OF lc db c over(1)])
  have db': "db' = db2" using run run2 by simp
  have "0 \<le> relation_cursor s'" using max_seq_nonneg [OF s'(1)] by (simp add: relation_cursor_def)
  then have cur: "i64_saturated (nat (relation_cursor s')) = relation_cursor s'" using s'(3) by (simp add: i64_saturated_def)
  let ?es = "map_of (map (\<lambda>e. (edge_key e, de_status e)) (edges_since s' n))"
  have "staged (c_staging db2) (svc, k) = relation_status s' k" for k
  proof (cases full_reset)
    case True
    then show ?thesis using n edges_from_zero [OF s'(1)] by (simp add: spec(3) map_add_def over(2) split: option.split)
  next
    case False
    then have st: "staged (c_staging db) (svc, k) = relation_status s k"
      using start by (cases k) (simp add: follows_def shows_store_def)
    have "relation_status s' = relation_status s ++ ?es" using catch_up_status(1) [of s C s'] n False by simp
    then show ?thesis using False st by (simp add: spec(3) map_add_def over(2) split: option.split)
  qed
  then show ?thesis using spec by (simp add: db' follows_def cur shows_store_def)
qed

text \<open>
  C3. Pulling relations.  If the library has never pulled this repository's edges, or follows an earlier state of it,
  then after a successful pull over an unreliable network the library's siblings and parents for the service are
  those of the repository: every tag is aliased to the smallest target of its current sibling edges, every current
  parent edge is an implication, with the least authors, and nothing else is there.  An incremental pull leaves
  the library following the present repository, ready for the next.
\<close>

theorem relation_pull_syncs:
  assumes "lower_like lc" "relation_wire_ok W"
    and "relations_ok s'" "canonical_relations lc s'" "relation_cursor s' < 2 ^ 63"
    and "shared_service_by_name services name = Some svc" "get_or_fetch G (ss_id svc) cc io0 = (Inr caps, cc1, io2)"
    and "rel_ok (env db)"
    and "relation_cursor_of db (ss_id svc) = None \<or>
      relations_ok s \<and> (relation_step C)\<^sup>*\<^sup>* s s' \<and> follows lc (ss_id svc) (env db) s \<and>
      relation_cursor_of db (ss_id svc) = Some (relation_cursor s)"
    and "pull_relations (relation_repo s' W faults) G lc env now services name db cc io0 = (Inr stats, db', cc', io1)"
  shows "relations_in_sync lc (ss_id svc) db' s' \<and> (relation_incremental caps \<longrightarrow> follows lc (ss_id svc) db' s')"
proof (cases "relation_incremental caps")
  case False
  obtain g io3 where g: "fetch_relations (relation_repo s' W faults) io2 = (Inr g, io3)"
    and run: "merge_pulled_relations (env db) now (ss_id svc) (parse_edges lc (rg_siblings g)) (parse_edges lc (rg_parents g)) = (db', stats)"
    using assms(6,7,10) False by (auto simp: pull_relations_def split: prod.splits sum.splits)
  have "g = relations s'" by (rule fetched_graph [OF assms(2) g])
  then have gs: "rg_siblings g = edges_of_kind s' Sibling" "rg_parents g = edges_of_kind s' Parent" by (simp_all add: relations_def)
  note mirror = store_mirror_ok(1) [OF assms(3)] store_mirror_ok(2) [of "ss_id svc" s']
  note full = full_merge_collapses [OF assms(1,8) mirror(1) shows_wf [OF mirror(2) assms(4)]
      parsed_graph_lists [OF assms(1,3,4)] parsed_graph_lists [OF assms(1,3,4)] run [unfolded gs]]
  have "relations_in_sync lc (ss_id svc) db' s'"
    by (rule in_sync_collapse [OF assms(1) mirror assms(4)]) (rule full, assumption+)+
  then show ?thesis using False by simp
next
  case True
  obtain d full_reset io3 where d: "fetch_relations_guarded (relation_repo s' W faults) (relation_cursor_of db (ss_id svc)) io2 = (Inr (d, full_reset), io3)"
    and run: "merge_relation_delta lc (env db) now (ss_id svc) full_reset (dl_cursor d) (delta_inputs lc (dl_edges d)) = Inr (db', stats)"
    using assms(6,7,10) True by (auto simp: pull_relations_def split: prod.splits sum.splits)
  have "follows lc (ss_id svc) db' s'"
  proof (cases "relation_cursor_of db (ss_id svc)")
    case None
    have "fetch_relations_since (relation_repo s' W faults) 0 io2 = (Inr d, io3)" "full_reset"
      using d None by (auto simp: fetch_relations_guarded_def split: prod.splits sum.splits)
    with fetched_edges [OF assms(2)] have "dl_cursor d = nat (relation_cursor s')" "dl_edges d = edges_since s' 0" "full_reset" by blast+
    then show ?thesis using merged_edges_follow [OF assms(1,3-5,8), where n = 0 and full_reset = True] run by simp
  next
    case (Some c)
    then have s: "relations_ok s" "(relation_step C)\<^sup>*\<^sup>* s s'" "follows lc (ss_id svc) (env db) s" "c = relation_cursor s"
      using assms(9) by auto
    have c: "0 \<le> c" using max_seq_nonneg [OF s(1)] s(4) by (simp add: relation_cursor_def)
    have up: "c \<le> relation_cursor s'"
      using relation_feed.cursor_mono [OF s(2,1)] s(4) by (simp add: relation_cursor_def)
    obtain d0 io4 where d0: "fetch_relations_since (relation_repo s' W faults) (nat c) io2 = (Inr d0, io4)"
      using d Some c by (auto simp: fetch_relations_guarded_def Let_def split: prod.splits sum.splits)
    note f = fetched_edges [OF assms(2) d0]
    have "c mod 2 ^ 64 = c" using c up assms(5) by (intro mod_pos_pos_trivial) simp_all
    then have "\<not> dl_cursor d0 < nat (c mod 2 ^ 64)" using f up by simp
    then have "d = d0" "full_reset = (nat c = 0)"
      using d Some c d0 by (auto simp: fetch_relations_guarded_def Let_def split: if_splits)
    then show ?thesis
      using merged_edges_follow [OF assms(1,3-5,8), where n = "nat c" and full_reset = full_reset and s = s and C = C] run f s up assms(5) by simp
  qed
  then show ?thesis using follows_in_sync [OF assms(1) _ assms(4)] by simp
qed

section \<open>Witness\<close>

fun rows_of_edges :: "authored_edge list \<Rightarrow> nat list list" where
  "rows_of_edges [] = []"
| "rows_of_edges (e # es) = ae_from e # ae_to e # ae_author e # rows_of_edges es"

fun edges_of_rows :: "nat \<Rightarrow> nat list list \<Rightarrow> authored_edge list \<times> nat list list" where
  "edges_of_rows (Suc n) (f # t # a # rest) = (case edges_of_rows n rest of (es, r) \<Rightarrow> (\<lparr>ae_from = f, ae_to = t, ae_author = a\<rparr> # es, r))"
| "edges_of_rows n rest = ([], rest)"

lemma edges_rows [simp]: "edges_of_rows (length es) (rows_of_edges es @ rest) = (es, rest)"
  by (induction es) simp_all

fun rows_of_deltas :: "delta_edge list \<Rightarrow> nat list list" where
  "rows_of_deltas [] = []"
| "rows_of_deltas (e # es) = de_from e # de_to e # de_author e #
     [if de_kind e = Sibling then 1 else 0, if de_status e = Deleted then 1 else 0, nat (de_seq e), nat (- de_seq e)] # rows_of_deltas es"

fun deltas_of_rows :: "nat list list \<Rightarrow> delta_edge list" where
  "deltas_of_rows (f # t # a # [k, st, p, n] # rest) =
     \<lparr>de_kind = (if k = 1 then Sibling else Parent), de_from = f, de_to = t, de_author = a,
      de_status = (if st = 1 then Deleted else Current), de_seq = int p - int n\<rparr> # deltas_of_rows rest"
| "deltas_of_rows rest = []"

lemma deltas_rows [simp]: "deltas_of_rows (rows_of_deltas es) = es"
proof (induction es)
  case (Cons e es)
  have "de_status e = Current \<or> de_status e = Deleted" "de_kind e = Sibling \<or> de_kind e = Parent"
    by (metis mapping_status.exhaust, metis rel_kind.exhaust)
  then show ?case using Cons by auto
qed simp

definition toy_relation_wire :: relation_wire where
  "toy_relation_wire =
     \<lparr>enc_graph = (\<lambda>g. put_rows ([rg_version g] # [nat (rg_cursor g), nat (- rg_cursor g)] # [length (rg_siblings g), length (rg_parents g)] #
          rows_of_edges (rg_siblings g) @ rows_of_edges (rg_parents g) @ [])),
      dec_graph = (\<lambda>bs. case get_rows bs of
          Some ([v] # [p, n] # [i, j] # rest) \<Rightarrow>
            (case edges_of_rows i rest of (ss, rest) \<Rightarrow> (case edges_of_rows j rest of (ps, _) \<Rightarrow>
               Some \<lparr>rg_version = v, rg_cursor = int p - int n, rg_siblings = ss, rg_parents = ps\<rparr>))
        | _ \<Rightarrow> None),
      enc_edges = (\<lambda>d. put_rows ([dl_version d] # [dl_cursor d] # rows_of_deltas (dl_edges d))),
      dec_edges = (\<lambda>bs. case get_rows bs of
          Some ([v] # [c] # rest) \<Rightarrow> Some \<lparr>dl_version = v, dl_cursor = c, dl_edges = deltas_of_rows rest\<rparr> | _ \<Rightarrow> None)\<rparr>"

lemma toy_relation_wire_ok: "relation_wire_ok toy_relation_wire"
  by (simp add: relation_wire_ok_def toy_relation_wire_def del: append_Nil2)

definition toy_relations :: store where
  "toy_relations = fst (apply_relation toy_crypto store_empty (toy_edge Add) 1 1)"

lemma toy_relations_rows:
  "relation_rows toy_relations =
    [((Sibling, lit ''a'', lit ''b'', lit ''p''), \<lparr>rl_status = Current, rl_signature = [], rl_created_at = 1, rl_seq = 1\<rparr>)]"
  unfolding toy_relations_def
  by (simp add: apply_relation_def Let_def toy_no_signature is_banned_def store_empty_def ensure_account_def upsert_relation_def
      max_seq_def coalesce_max_def del: lit_Cons)

lemma toy_edges_since: "edges_since toy_relations 0 =
    [\<lparr>de_kind = Sibling, de_from = lit ''a'', de_to = lit ''b'', de_author = lit ''p'', de_status = Current, de_seq = 1\<rparr>]"
  by (simp add: edges_since_def toy_relations_rows rows_since_def edge_of_row_def del: lit_Cons)

lemma toy_relations_cursor: "relation_cursor toy_relations = 1"
  by (simp add: relation_cursor_def toy_relations_rows max_seq_def coalesce_max_def del: lit_Cons)

lemma toy_relations_ok: "relations_ok toy_relations" "canonical_relations to_ascii_lowercase toy_relations"
proof -
  show "relations_ok toy_relations" by (simp add: seqs_pos_def keyed_def toy_relations_rows del: lit_Cons)
  have "relation_status toy_relations k \<noteq> None \<Longrightarrow> k = (Sibling, tag_display tag_a, tag_display tag_b, lit ''p'')" for k
    by (simp add: relation_status_def toy_relations_rows del: lit_Cons split: if_splits)
  then show "canonical_relations to_ascii_lowercase toy_relations"
    unfolding canonical_relations_def using tags_ab(1,2) by (metis prod.inject)
qed

theorem relation_pull_syncs_witness:
  "\<exists>stats db' cc' io1. pull_relations (relation_repo toy_relations toy_relation_wire (\<lambda>_. None))
       \<lparr>net_get = (\<lambda>r w. (HttpTransport [], w)), json_caps = (\<lambda>_. None)\<rparr> to_ascii_lowercase (\<lambda>db. db) 9
       [\<lparr>ss_id = 7, ss_name = lit ''r'', ss_url = []\<rparr>] (lit ''r'') bare_library
       \<lparr>cc_caps = [(7, toy_caps)], cc_fetches = 0, cc_floor_warned = [], cc_notices = []\<rparr> \<lparr>io_world = 0, io_phases = []\<rparr> =
         (Inr stats, db', cc', io1) \<and>
     relations_in_sync to_ascii_lowercase 7 db' toy_relations"
proof -
  let ?lc = to_ascii_lowercase
  let ?R = "relation_repo toy_relations toy_relation_wire (\<lambda>_. None)"
  let ?G = "\<lparr>net_get = (\<lambda>r w. (HttpTransport [], w)), json_caps = (\<lambda>_. None)\<rparr> :: nat gets"
  let ?cc = "\<lparr>cc_caps = [(7, toy_caps)], cc_fetches = 0, cc_floor_warned = [], cc_notices = []\<rparr>"
  let ?io = "\<lparr>io_world = 0, io_phases = []\<rparr> :: nat io"
  let ?d = "\<lparr>dl_version = PROTOCOL_VERSION, dl_cursor = 1, dl_edges = edges_since toy_relations 0\<rparr>"
  have bytes: "length (enc_edges toy_relation_wire ?d) \<le> RESPONSE_SIZE_CAP"
    by (simp add: toy_relation_wire_def toy_edges_since put_rows_def put_list_def put_nat_def RESPONSE_SIZE_CAP_def PROTOCOL_VERSION_def str_eval)
  then have since: "fetch_relations_since ?R 0 ?io = (Inr ?d, ?io\<lparr>io_world := 1\<rparr>)"
    using toy_relation_wire_ok
    by (simp add: fetch_relations_since_def relation_repo_def relations_http_def relations_handler_def toy_relations_cursor
        read_capped_def Let_def relation_wire_ok_def checked_def ensure_supported_def MIN_SUPPORTED_VERSION_def PROTOCOL_VERSION_def)
  have none: "relation_cursor_of bare_library 7 = None" by (simp add: relation_cursor_of_def bare_library_def)
  have guarded: "fetch_relations_guarded ?R (relation_cursor_of bare_library 7) ?io = (Inr (?d, True), ?io\<lparr>io_world := 1\<rparr>)"
    by (simp add: fetch_relations_guarded_def none since)
  have caps: "get_or_fetch ?G 7 ?cc ?io = (Inr toy_caps, ?cc, ?io)" by (simp add: get_or_fetch_def)
  have svc: "shared_service_by_name [\<lparr>ss_id = 7, ss_name = lit ''r'', ss_url = []\<rparr>] (lit ''r'') = Some \<lparr>ss_id = 7, ss_name = lit ''r'', ss_url = []\<rparr>"
    by (simp add: shared_service_by_name_def)
  obtain db' st where merge: "merge_relation_delta ?lc bare_library 9 7 True 1 (delta_inputs ?lc (edges_since toy_relations 0)) = Inr (db', st)"
    by (rule relation_delta_spec [OF lower_like_ascii bare_ok disjI1 [OF TrueI] delta_inputs_overlay(1) [OF lower_like_ascii toy_relations_ok]])
  have inc: "relation_incremental toy_caps" by (simp add: toy_caps_def)
  have run: "pull_relations ?R ?G ?lc (\<lambda>db. db) 9 [\<lparr>ss_id = 7, ss_name = lit ''r'', ss_url = []\<rparr>] (lit ''r'') bare_library ?cc ?io =
      (Inr st, db', ?cc, ?io\<lparr>io_world := 1\<rparr>)"
    using guarded merge inc by (simp add: pull_relations_def shared_service_by_name_def get_or_fetch_def)
  from relation_pull_syncs [OF lower_like_ascii toy_relation_wire_ok toy_relations_ok _ svc _ bare_ok _ run, of toy_caps ?cc ?io, simplified] caps none
  have "relations_in_sync ?lc 7 db' toy_relations" by (simp add: toy_relations_cursor)
  then show ?thesis using run by blast
qed

end
