(* ===== verification/Spec2Isabelle.thy ===== *)
theory Spec2Isabelle
  imports StoreServe CoreQuery NetPullSpec DaemonLegs DbFiles DaemonRelate
begin

text \<open>The header is written last.\<close>

end
